(* ===== verification/Prelude.thy ===== *)
theory Prelude
  imports Main "HOL-Library.Word" "HOL-Library.Monad_Syntax"
begin

text \<open>
  Vocabulary shared by every component: the machine integers of the C sources, the error
  numbers their system-call handlers return, byte-addressed memory, and the facts about page
  masks and byte ranges that the component proofs use again and again.

  A handler that can crash the kernel (a null dereference, a page fault on a kernel address,
  a BUG in a library routine) has an \<open>option\<close> result: \<open>None\<close> is the crash. A handler that
  reports an error to its caller has a \<open>sysret\<close>: \<open>Inl\<close> the error number, \<open>Inr\<close> the value.
\<close>

unbundle bit_operations_syntax

type_synonym u8 = "8 word"
type_synonym u16 = "16 word"
type_synonym u32 = "32 word"
type_synonym u64 = "64 word"
type_synonym s32 = "32 word"

text \<open>The negative results of the drivers' handlers, as values.\<close>

datatype errno = EPERM | EFAULT | EINVAL | EAGAIN | ENOTTY | EOTHER int

type_synonym 'a sysret = "errno + 'a"

text \<open>Collections of rewrite rules the component proofs extend.\<close>

named_theorems page_simps \<open>page masks and offsets inside a page\<close>
named_theorems mem_simps \<open>reads and writes of byte-addressed memory\<close>

section \<open>Pages of 4096 bytes\<close>

definition page_base :: "u64 \<Rightarrow> u64" where
  "page_base a = a AND NOT 0xfff"

definition page_off :: "u64 \<Rightarrow> u64" where
  "page_off a = a AND 0xfff"

lemma mask12: "(0xfff :: u64) = mask 12"
  by (simp add: mask_eq_exp_minus_1)

lemma bit_page_base: "bit (page_base a) n \<longleftrightarrow> 12 \<le> n \<and> bit a n"
  unfolding page_base_def mask12 by (auto simp: bit_simps dest: bit_imp_le_length)

lemma bit_page_off: "bit (page_off a) n \<longleftrightarrow> n < 12 \<and> bit a n"
  unfolding page_off_def mask12 by (auto simp: bit_simps dest: bit_imp_le_length)

lemma page_base_or_off [page_simps]: "page_base a OR page_off a = a"
  by (rule bit_word_eqI) (auto simp: bit_or_iff bit_page_base bit_page_off)

lemma page_base_plus_off [page_simps]: "page_base a + page_off a = a"
proof -
  have "page_base a AND page_off a = 0"
    by (rule bit_word_eqI) (auto simp: bit_and_iff bit_page_base bit_page_off)
  then show ?thesis
    using word_plus_and_or [of "page_base a" "page_off a"] by (simp add: page_base_or_off)
qed

lemma unat_page_off: "unat (page_off a) = unat a mod 4096"
proof -
  have "page_off a = take_bit 12 a"
    by (rule bit_word_eqI) (auto simp: bit_page_off bit_simps)
  then show ?thesis
    by (simp add: unsigned_take_bit_eq flip: take_bit_eq_mod [where n = 12, simplified])
qed

lemma page_off_less: "unat (page_off a) < 4096"
  by (simp add: unat_page_off)

lemma page_base_idem [page_simps]: "page_base (page_base a) = page_base a"
  by (rule bit_word_eqI) (auto simp: bit_page_base)

lemma page_off_idem [page_simps]: "page_off (page_off a) = page_off a"
  by (rule bit_word_eqI) (auto simp: bit_page_off)

lemma page_base_off_0 [page_simps]: "page_base (page_off a) = 0"
  by (rule bit_word_eqI) (auto simp: bit_page_base bit_page_off)

lemma page_off_base_0 [page_simps]: "page_off (page_base a) = 0"
  by (rule bit_word_eqI) (auto simp: bit_page_base bit_page_off)

lemma page_base_eq_iff: "page_base a = page_base b \<longleftrightarrow> drop_bit 12 a = drop_bit 12 b"
proof
  assume eq: "page_base a = page_base b"
  show "drop_bit 12 a = drop_bit 12 b"
  proof (rule bit_word_eqI)
    fix n :: nat
    show "bit (drop_bit 12 a) n = bit (drop_bit 12 b) n"
      using arg_cong [OF eq, of "\<lambda>w. bit w (12 + n)"] by (simp add: bit_page_base bit_simps)
  qed
next
  assume eq: "drop_bit 12 a = drop_bit 12 b"
  show "page_base a = page_base b"
  proof (rule bit_word_eqI)
    fix n :: nat
    show "bit (page_base a) n = bit (page_base b) n"
      using arg_cong [OF eq, of "\<lambda>w. bit w (n - 12)"] by (auto simp: bit_page_base bit_simps)
  qed
qed

lemma unat_page_base: "unat (page_base a) = 4096 * (unat a div 4096)"
proof -
  have "page_off a \<le> a"
    unfolding page_off_def by (rule word_and_le2)
  moreover have "page_base a = a - page_off a"
    using page_base_plus_off [of a] by (simp add: algebra_simps)
  ultimately have "unat (page_base a) = unat a - unat a mod 4096"
    by (simp add: unat_sub unat_page_off)
  then show ?thesis
    by (simp add: minus_mod_eq_mult_div)
qed

lemma div_add_in_page: "u mod 4096 + i < 4096 \<Longrightarrow> (u + i) div 4096 = u div (4096 :: nat)"
proof -
  assume "u mod 4096 + i < 4096"
  moreover have "u + i = (u mod 4096 + i) + 4096 * (u div 4096)" by simp
  ultimately show ?thesis
    by (metis add.right_neutral div_less div_mult_self2 zero_neq_numeral)
qed

lemma unat_u64_less: "unat (a :: u64) < 2 ^ 64"
  using unsigned_less [where ?'a = nat and w = a] by simp

text \<open>Stepping through bytes that stay inside one page.\<close>

lemma unat_add_in_page:
  assumes "unat (a :: u64) mod 4096 + i < 4096"
  shows "unat (a + of_nat i) = unat a + i"
proof -
  have "unat a < 2 ^ 64" by (rule unat_u64_less)
  moreover have "(2 :: nat) ^ 64 = 4096 * 2 ^ 52" by simp
  ultimately have "unat a div 4096 < 2 ^ 52" by (simp add: div_less_iff_less_mult mult.commute)
  then have "(unat a + i) div 4096 < 2 ^ 52" by (simp only: div_add_in_page [OF assms])
  then have "unat a + i < 2 ^ 64" by (simp add: div_less_iff_less_mult mult.commute)
  with assms show ?thesis
    by (simp add: unat_word_ariths unat_of_nat)
qed

lemma page_base_add [page_simps]:
  assumes "unat (page_off a) + i < 4096"
  shows "page_base (a + of_nat i) = page_base a"
proof -
  from assms have "unat a mod 4096 + i < 4096" by (simp add: unat_page_off)
  then have "unat (page_base (a + of_nat i)) = unat (page_base a)"
    by (simp only: unat_page_base unat_add_in_page div_add_in_page)
  then show ?thesis by (simp add: word_unat_eq_iff)
qed

lemma page_off_add [page_simps]:
  assumes "unat (page_off a) + i < 4096"
  shows "page_off (a + of_nat i) = page_off a + of_nat i"
proof -
  have "page_base (a + of_nat i) + page_off (a + of_nat i) = page_base a + (page_off a + of_nat i)"
    by (simp add: page_base_plus_off add.assoc [symmetric])
  then show ?thesis by (simp add: page_base_add [OF assms])
qed

lemma page_join [page_simps]:
  "page_off (page_base a + page_off c) = page_off c" "page_base (page_base a + page_off c) = page_base a"
proof -
  have "unat (page_off (page_base a)) + unat (page_off c) < 4096"
    by (simp add: page_off_base_0 page_off_less)
  from page_off_add [OF this] page_base_add [OF this]
  show "page_off (page_base a + page_off c) = page_off c" "page_base (page_base a + page_off c) = page_base a"
    by (simp_all add: page_off_base_0 page_base_idem)
qed

lemma bit_page_join: "bit (page_base a + page_off c) i = (if i < 12 then bit c i else bit a i)"
  using page_base_or_off [of "page_base a + page_off c"]
    bit_or_iff [of "page_base (page_base a + page_off c)" "page_off (page_base a + page_off c)" i]
  by (auto simp: page_join bit_page_base bit_page_off)

section \<open>Ranges of byte-addressed memory\<close>

definition range_read :: "(u64 \<Rightarrow> u8) \<Rightarrow> u64 \<Rightarrow> nat \<Rightarrow> u8 list" where
  "range_read mem a n = map (\<lambda>i. mem (a + of_nat i)) [0..<n]"

fun range_write :: "(u64 \<Rightarrow> u8) \<Rightarrow> u64 \<Rightarrow> u8 list \<Rightarrow> (u64 \<Rightarrow> u8)" where
  "range_write mem a [] = mem"
| "range_write mem a (b # bs) = range_write (mem(a := b)) (a + 1) bs"

lemma length_range_read [simp]: "length (range_read mem a n) = n"
  by (simp add: range_read_def)

lemma range_read_0 [simp]: "range_read mem a 0 = []"
  by (simp add: range_read_def)

lemma range_read_Suc [mem_simps]: "range_read mem a (Suc n) = mem a # range_read mem (a + 1) n"
proof -
  have "[0..<Suc n] = 0 # map Suc [0..<n]"
    by (simp add: map_Suc_upt upt_conv_Cons del: upt_Suc)
  then show ?thesis
    by (simp add: range_read_def add.assoc add.commute [of 1] comp_def del: upt_Suc)
qed

lemma nth_range_read [simp]: "i < n \<Longrightarrow> range_read mem a n ! i = mem (a + of_nat i)"
  by (simp add: range_read_def)

lemma range_write_other:
  assumes "\<And>i. i < length bs \<Longrightarrow> x \<noteq> a + of_nat i"
  shows "range_write mem a bs x = mem x"
  using assms
proof (induction bs arbitrary: mem a)
  case (Cons b bs)
  have "x \<noteq> a" using Cons.prems [of 0] by simp
  moreover have "x \<noteq> a + 1 + of_nat i" if "i < length bs" for i
    using Cons.prems [of "Suc i"] that by (simp add: ac_simps)
  ultimately show ?case by (simp add: Cons.IH)
qed simp

lemma of_nat_u64_inj: "i < 2 ^ 64 \<Longrightarrow> j < 2 ^ 64 \<Longrightarrow> (of_nat i :: u64) = of_nat j \<Longrightarrow> i = j"
proof -
  assume ij: "i < 2 ^ 64" "j < 2 ^ 64" and eq: "(of_nat i :: u64) = of_nat j"
  have "i mod 2 ^ 64 = j mod 2 ^ 64"
    using arg_cong [OF eq, of unat] unfolding unat_of_nat by simp
  with ij show "i = j" by simp
qed

lemma range_write_nth:
  assumes "i < length bs" and "length bs \<le> 2 ^ 64"
  shows "range_write mem a bs (a + of_nat i) = bs ! i"
  using assms
proof (induction bs arbitrary: mem a i)
  case (Cons b bs)
  show ?case
  proof (cases i)
    case 0
    have "a \<noteq> a + 1 + of_nat j" if "j < length bs" for j
      using that Cons.prems of_nat_u64_inj [of "Suc j" 0] by (auto simp: add.assoc)
    with 0 show ?thesis by (simp add: range_write_other)
  next
    case (Suc k)
    with Cons.prems have "range_write (mem(a := b)) (a + 1) bs (a + 1 + of_nat k) = bs ! k"
      by (intro Cons.IH) auto
    with Suc show ?thesis by (simp add: add.assoc)
  qed
qed simp

lemma range_read_write:
  assumes "length bs \<le> 2 ^ 64"
  shows "range_read (range_write mem a bs) a (length bs) = bs"
  using assms by (intro nth_equalityI) (auto simp: range_write_nth)

section \<open>Counting down words\<close>

lemma unat_dec_less: "w \<noteq> 0 \<Longrightarrow> unat (w - 1 :: 'a :: len word) < unat w"
proof -
  assume "w \<noteq> 0"
  then have pos: "0 < unat w" by (simp add: unat_gt_0)
  then have "1 \<le> w" unfolding word_le_nat_alt unat_1 by linarith
  then show ?thesis using pos by (simp only: unat_sub unat_1)
qed

lemma unat_gap_less: "p < q \<Longrightarrow> unat (q - (p + 1) :: 'a :: len word) < unat (q - p)"
proof -
  assume "p < q"
  then have "q - p \<noteq> 0" by auto
  from unat_dec_less [OF this] show ?thesis by (simp add: diff_diff_eq)
qed

lemma unat_next: "p < q \<Longrightarrow> unat (p + 1 :: 'a :: len word) = Suc (unat p)"
proof -
  assume "p < q"
  then have "unat p < unat q" by (simp only: word_less_nat_alt)
  moreover have "unat q < 2 ^ LENGTH('a)" by (rule unsigned_less)
  ultimately have "unat p + 1 < 2 ^ LENGTH('a)" by linarith
  then show ?thesis by (simp add: unat_word_ariths)
qed

end
