(* ===== verification/Paging.thy ===== *)
theory Paging
  imports Prelude
begin

text \<open>
  The page-table walks of the repository: \<^verbatim>\<open>get_pte4\<close> and \<^verbatim>\<open>get_pte5\<close> of
  \<^verbatim>\<open>src/kmem/get_pte.c\<close> and \<^verbatim>\<open>src/pmem/get_pte.c\<close> (with the aarch64 variant of the
  latter), \<^verbatim>\<open>get_pte\<close> of \<^verbatim>\<open>src/bypass_ipstack/get_pte.c\<close> and \<^verbatim>\<open>any_v2p\<close> of
  \<^verbatim>\<open>src/pci_enabler_module/virt2phys.h\<close>, and the choice of the paging depth from CR4.

  Page-table entries live in a store \<open>ptes\<close> from the (virtual) address of an entry to its
  value. The kernel's accessors (\<^verbatim>\<open>pgd_offset\<close>, \<^verbatim>\<open>pmd_none\<close>, ...) are not part of the
  repository: they are the fields of a record \<open>pgt_api\<close> every walk takes as an argument.
  What the walks rely on is the locale \<open>x86_paging\<close>: the accessors lead to the entries the
  MMU of an x86-64 processor reads. The diagnostics printed on the way are not modelled.
\<close>

type_synonym ptes = "u64 \<Rightarrow> u64"

record pgt_api =
  pgd_offset :: "u64 \<Rightarrow> u64"
  p4d_offset :: "ptes \<Rightarrow> u64 \<Rightarrow> u64 \<Rightarrow> u64"
  pud_offset :: "ptes \<Rightarrow> u64 \<Rightarrow> u64 \<Rightarrow> u64"
  pmd_offset :: "ptes \<Rightarrow> u64 \<Rightarrow> u64 \<Rightarrow> u64"
  pte_offset_kernel :: "ptes \<Rightarrow> u64 \<Rightarrow> u64 \<Rightarrow> u64"
  pgd_none :: "u64 \<Rightarrow> bool"
  p4d_none :: "u64 \<Rightarrow> bool"
  pud_none :: "u64 \<Rightarrow> bool"
  pmd_none :: "u64 \<Rightarrow> bool"
  pte_none :: "u64 \<Rightarrow> bool"
  pgd_bad :: "u64 \<Rightarrow> bool"
  p4d_bad :: "u64 \<Rightarrow> bool"
  pud_bad :: "u64 \<Rightarrow> bool"
  pmd_bad :: "u64 \<Rightarrow> bool"
  pgd_present :: "u64 \<Rightarrow> bool"
  pud_present :: "u64 \<Rightarrow> bool"
  pmd_present :: "u64 \<Rightarrow> bool"
  pte_present :: "u64 \<Rightarrow> bool"
  pud_large :: "u64 \<Rightarrow> bool"
  pmd_large :: "u64 \<Rightarrow> bool"
  probe_kernel_address :: "u64 \<Rightarrow> bool"

section \<open>Control registers and the paging depth\<close>

text \<open>
  \<^verbatim>\<open>get_cr34\<close> stores only \<^verbatim>\<open>%eax\<close>, four bytes, into each 64-bit local: the upper half keeps
  whatever the stack held, here the arguments \<open>junk3\<close> and \<open>junk4\<close>.
\<close>

definition store_eax :: "u64 \<Rightarrow> u64 \<Rightarrow> u64" where
  "store_eax junk rax = (junk AND 0xffffffff00000000) OR (rax AND 0xffffffff)"

definition kmem_get_cr34 :: "u64 \<Rightarrow> u64 \<Rightarrow> u64 \<Rightarrow> u64 \<Rightarrow> u64 \<times> u64" where
  "kmem_get_cr34 junk3 junk4 cr3 cr4 =
     (let c3 = store_eax junk3 cr3; c4 = store_eax junk4 cr4 in (c3, c4))"

definition pmem_get_cr34 :: "u64 \<Rightarrow> u64 \<Rightarrow> u64 \<Rightarrow> u64 \<Rightarrow> u64 \<times> u64" where
  "pmem_get_cr34 junk3 junk4 cr3 cr4 =
     (let c3 = store_eax junk3 cr3; c4 = store_eax junk4 cr4 in (c3, c4))"

definition X86_CR4_LA57 :: u64 where
  "X86_CR4_LA57 = push_bit 12 1"

definition kmem_get_paging_level :: "u64 \<Rightarrow> u64 \<Rightarrow> u64 \<Rightarrow> u64 \<Rightarrow> nat" where
  "kmem_get_paging_level junk3 junk4 cr3 cr4 =
     (let (cpu_cr3, cpu_cr4) = kmem_get_cr34 junk3 junk4 cr3 cr4
      in if cpu_cr4 AND X86_CR4_LA57 \<noteq> 0 then 5 else 4)"

definition pmem_get_paging_level :: "u64 \<Rightarrow> u64 \<Rightarrow> u64 \<Rightarrow> u64 \<Rightarrow> nat" where
  "pmem_get_paging_level junk3 junk4 cr3 cr4 =
     (let (cpu_cr3, cpu_cr4) = pmem_get_cr34 junk3 junk4 cr3 cr4
      in if cpu_cr4 AND X86_CR4_LA57 \<noteq> 0 then 5 else 4)"

definition get_paging_level_arm :: nat where
  "get_paging_level_arm = 4"

section \<open>The walks\<close>

text \<open>A null pointer is the address 0.\<close>

definition kmem_get_pte4 :: "pgt_api \<Rightarrow> ptes \<Rightarrow> u64 \<Rightarrow> u64" where
  "kmem_get_pte4 K t vaddr =
     (let pgd = pgd_offset K vaddr in
      if pgd_none K (t pgd) then 0 else
      let pud = pud_offset K t pgd vaddr in
      if pud_none K (t pud) then 0 else
      let pmd = pmd_offset K t pud vaddr in
      if pmd_none K (t pmd) then 0 else
      let pte = pte_offset_kernel K t pmd vaddr in
      if pte_none K (t pte) then 0 else pte)"

definition kmem_get_pte5 :: "pgt_api \<Rightarrow> ptes \<Rightarrow> u64 \<Rightarrow> u64" where
  "kmem_get_pte5 K t vaddr =
     (let pgd = pgd_offset K vaddr in
      if pgd_none K (t pgd) \<or> pgd_bad K (t pgd) then 0 else
      let p4d = p4d_offset K t pgd vaddr in
      if p4d_none K (t p4d) \<or> p4d_bad K (t p4d) then 0 else
      let pud = pud_offset K t p4d vaddr in
      if pud_none K (t pud) then 0 else
      let pmd = pmd_offset K t pud vaddr in
      if pmd_none K (t pmd) then 0 else
      let pte = pte_offset_kernel K t pmd vaddr in
      if pte_none K (t pte) then
        (let pte = pte_offset_kernel K t pmd vaddr in
         if pte_none K (t pte) then 0 else pte)
      else pte)"

definition pmem_get_pte4 :: "pgt_api \<Rightarrow> ptes \<Rightarrow> u64 \<Rightarrow> u64" where
  "pmem_get_pte4 K t vaddr =
     (let pgd = pgd_offset K vaddr in
      if pgd_none K (t pgd) then 0 else
      let pud = pud_offset K t pgd vaddr in
      if pud_none K (t pud) then 0 else
      let pmd = pmd_offset K t pud vaddr in
      if pmd_none K (t pmd) then 0 else
      let pte = pte_offset_kernel K t pmd vaddr in
      if pte_none K (t pte) then 0 else pte)"

definition pmem_get_pte5 :: "pgt_api \<Rightarrow> ptes \<Rightarrow> u64 \<Rightarrow> u64" where
  "pmem_get_pte5 K t vaddr =
     (let pgd = pgd_offset K vaddr in
      if pgd_none K (t pgd) \<or> pgd_bad K (t pgd) then 0 else
      let p4d = p4d_offset K t pgd vaddr in
      if p4d_none K (t p4d) \<or> p4d_bad K (t p4d) then 0 else
      let pud = pud_offset K t p4d vaddr in
      if pud_none K (t pud) then 0 else
      let pmd = pmd_offset K t pud vaddr in
      if pmd_none K (t pmd) then 0 else
      let pte = pte_offset_kernel K t pmd vaddr in
      if pte_none K (t pte) then
        (let pte = pte_offset_kernel K t pmd vaddr in
         if pte_none K (t pte) then 0 else pte)
      else pte)"

text \<open>The aarch64 walk tests the pointer it computed last, never the entry behind it.\<close>

definition pmem_get_pte4_arm :: "pgt_api \<Rightarrow> ptes \<Rightarrow> u64 \<Rightarrow> u64" where
  "pmem_get_pte4_arm K t vaddr =
     (let pgd = pgd_offset K vaddr in
      if pgd_none K (t pgd) \<or> pgd_bad K (t pgd) then 0 else
      let pud = pud_offset K t pgd vaddr in
      if pud_none K (t pud) \<or> pud_bad K (t pud) then 0 else
      let pmd = pmd_offset K t pud vaddr in
      if pmd_none K (t pmd) \<or> pmd_bad K (t pmd) then 0 else
      let pte = pte_offset_kernel K t pmd vaddr in
      if pte = 0 then 0 else pte)"

definition kmem_get_pte :: "nat \<Rightarrow> pgt_api \<Rightarrow> ptes \<Rightarrow> u64 \<Rightarrow> u64" where
  "kmem_get_pte paging_level K t vaddr =
     (if paging_level = 4 then kmem_get_pte4 K t vaddr else kmem_get_pte5 K t vaddr)"

definition pmem_get_pte :: "nat \<Rightarrow> pgt_api \<Rightarrow> ptes \<Rightarrow> u64 \<Rightarrow> u64" where
  "pmem_get_pte paging_level K t vaddr =
     (if paging_level = 4 then pmem_get_pte4 K t vaddr else pmem_get_pte5 K t vaddr)"

definition kmem_get_pte_arm :: "u64 \<Rightarrow> u64" where
  "kmem_get_pte_arm vaddr = 0"

definition pmem_get_pte_arm :: "pgt_api \<Rightarrow> ptes \<Rightarrow> u64 \<Rightarrow> u64" where
  "pmem_get_pte_arm K t vaddr = pmem_get_pte4_arm K t vaddr"

text \<open>
  \<^verbatim>\<open>bypass_ipstack/get_pte.c\<close>: \<open>pte\<close> starts as a null pointer; the label \<^verbatim>\<open>out\<close> returns it
  as it is, the label \<^verbatim>\<open>bad\<close> returns 0.
\<close>

definition genpipe_get_pte :: "pgt_api \<Rightarrow> ptes \<Rightarrow> u64 \<Rightarrow> u64" where
  "genpipe_get_pte K t vaddr =
     (let bad_address = probe_kernel_address K; pte = 0; pgd = pgd_offset K vaddr in
      if bad_address pgd then 0 else
      if \<not> pgd_present K (t pgd) then pte else
      let pud = pud_offset K t pgd vaddr in
      if bad_address pud then 0 else
      if \<not> pud_present K (t pud) \<or> pud_large K (t pud) then pte else
      let pmd = pmd_offset K t pud vaddr in
      if bad_address pmd then 0 else
      if \<not> pmd_present K (t pmd) \<or> pmd_large K (t pmd) then pte else
      let pte = pte_offset_kernel K t pmd vaddr in
      if bad_address pte then 0 else
      if \<not> pte_present K (t pte) then pte else pte)"

text \<open>
  \<^verbatim>\<open>any_v2p\<close>: \<open>paddr\<close> is not initialised, so the label \<^verbatim>\<open>out\<close> returns \<open>junk\<close> where a level
  is absent.
\<close>

definition PHYSICAL_PAGE_MASK :: u64 where
  "PHYSICAL_PAGE_MASK = 0x000ffffffffff000"

definition any_v2p :: "pgt_api \<Rightarrow> ptes \<Rightarrow> u64 \<Rightarrow> u64 \<Rightarrow> u64" where
  "any_v2p K t junk vaddr =
     (let bad_address = probe_kernel_address K; paddr = junk; pgd = pgd_offset K vaddr in
      if bad_address pgd then 0 else
      if \<not> pgd_present K (t pgd) then paddr else
      let pud = pud_offset K t pgd vaddr in
      if bad_address pud then 0 else
      if \<not> pud_present K (t pud) \<or> pud_large K (t pud) then paddr else
      let pmd = pmd_offset K t pud vaddr in
      if bad_address pmd then 0 else
      if \<not> pmd_present K (t pmd) \<or> pmd_large K (t pmd) then paddr else
      let pte = pte_offset_kernel K t pmd vaddr in
      if bad_address pte then 0 else
      if \<not> pte_present K (t pte) then paddr else
      (t pte AND PHYSICAL_PAGE_MASK) OR (vaddr AND (0x1000 - 1)))"

end
