(* ===== verification/Page_Walk.thy ===== *)
theory Page_Walk
  imports Paging
begin

text \<open>
  The specification of the page-table walks: the walk an x86-64 MMU makes. The locale
  \<open>x86_paging\<close> states what the kernel's accessors promise about it, for any paging depth; its
  lemmas say when the walks of the repository find the entry the processor would use. It is
  interpreted on \<open>x86_api\<close>, the accessors of a kernel whose page tables are reached through a
  direct map at \<open>dm\<close>.
\<close>

section \<open>The processor's walk\<close>

definition phys_mask :: u64 where
  "phys_mask = 0x000ffffffffff000"

lemma bit_phys_mask: "bit phys_mask n \<longleftrightarrow> 12 \<le> n \<and> n < 52"
proof -
  have eq: "phys_mask = mask 52 AND NOT (mask 12)"
    by (simp add: phys_mask_def mask_eq_exp_minus_1)
  show ?thesis
    unfolding eq bit_and_iff bit_not_iff bit_mask_iff by (auto simp: bit_simps)
qed

definition hw_index :: "nat \<Rightarrow> u64 \<Rightarrow> u64" where
  "hw_index s va = drop_bit s va AND 0x1ff"

definition hw_entry :: "u64 \<Rightarrow> u64 \<Rightarrow> nat \<Rightarrow> u64 \<Rightarrow> u64" where
  "hw_entry dm tab s va = dm + tab + 8 * hw_index s va"

definition hw_table :: "u64 \<Rightarrow> bool" where
  "hw_table e \<longleftrightarrow> bit e 0 \<and> \<not> bit e 7"

text \<open>
  \<open>hw_walk\<close> gives the address of the entry of the last level: the 4 KB leaf. A level that is
  not present, or that maps a large page itself (bit 7), has no 4 KB leaf.
\<close>

fun hw_walk :: "u64 \<Rightarrow> ptes \<Rightarrow> u64 \<Rightarrow> nat list \<Rightarrow> u64 \<Rightarrow> u64 option" where
  "hw_walk dm t tab [] va = None"
| "hw_walk dm t tab [s] va = Some (hw_entry dm tab s va)"
| "hw_walk dm t tab (s # s' # ss) va =
     (let e = t (hw_entry dm tab s va) in
      if hw_table e then hw_walk dm t (e AND phys_mask) (s' # ss) va else None)"

text \<open>The entries the walk reads on its way to the leaf.\<close>

fun hw_path :: "u64 \<Rightarrow> ptes \<Rightarrow> u64 \<Rightarrow> nat list \<Rightarrow> u64 \<Rightarrow> u64 list" where
  "hw_path dm t tab [] va = []"
| "hw_path dm t tab [s] va = []"
| "hw_path dm t tab (s # s' # ss) va =
     (let q = hw_entry dm tab s va in q # hw_path dm t (t q AND phys_mask) (s' # ss) va)"

lemma hw_walk_upd:
  "p \<notin> set (hw_path dm t tab ss va) \<Longrightarrow> hw_walk dm (t(p := v)) tab ss va = hw_walk dm t tab ss va"
  by (induction dm t tab ss va rule: hw_path.induct) (auto simp: Let_def)

lemma hw_index_page:
  assumes "page_base va = page_base vb" and "12 \<le> s"
  shows "hw_index s va = hw_index s vb"
proof -
  have eq: "drop_bit s w = drop_bit (s - 12) (drop_bit 12 w)" for w :: u64
    using assms(2) by (simp add: drop_bit_drop_bit)
  from assms(1) have "drop_bit 12 va = drop_bit 12 vb" by (simp only: page_base_eq_iff)
  then show ?thesis by (simp only: hw_index_def eq [of va] eq [of vb])
qed

lemma hw_walk_page:
  "page_base va = page_base vb \<Longrightarrow> \<forall>s \<in> set ss. 12 \<le> s \<Longrightarrow>
   hw_walk dm t tab ss va = hw_walk dm t tab ss vb"
proof (induction dm t tab ss va rule: hw_walk.induct)
  case (3 dm t tab s s' ss va)
  have "hw_index s va = hw_index s vb"
    by (rule hw_index_page) (use 3 in auto)
  with 3 show ?case by (simp add: Let_def hw_entry_def)
next
  case (2 dm t tab s va)
  then have "hw_index s va = hw_index s vb"
    by (intro hw_index_page) auto
  then show ?case by (simp add: hw_entry_def)
qed simp

abbreviation levels4 :: "nat list" where "levels4 \<equiv> [39, 30, 21, 12]"
abbreviation levels5 :: "nat list" where "levels5 \<equiv> [48, 39, 30, 21, 12]"

section \<open>What the walks rely on\<close>

locale x86_paging =
  fixes K :: pgt_api and dm cr3 :: u64 and l5 :: bool
  assumes pgd_hw: "pgd_offset K va = hw_entry dm (cr3 AND phys_mask) (if l5 then 48 else 39) va"
    and p4d_hw: "l5 \<Longrightarrow> p4d_offset K t p va = hw_entry dm (t p AND phys_mask) 39 va"
    and pud_hw: "pud_offset K t p va = hw_entry dm (t p AND phys_mask) 30 va"
    and pmd_hw: "pmd_offset K t p va = hw_entry dm (t p AND phys_mask) 21 va"
    and pte_hw: "pte_offset_kernel K t p va = hw_entry dm (t p AND phys_mask) 12 va"
    and none_hw: "pgd_none K e \<or> p4d_none K e \<or> pud_none K e \<or> pmd_none K e \<or> pte_none K e
                  \<Longrightarrow> \<not> bit e 0"
    and bad_hw: "hw_table e \<Longrightarrow> \<not> pgd_bad K e \<and> \<not> p4d_bad K e \<and> \<not> pud_bad K e \<and> \<not> pmd_bad K e"
    and present_hw: "pgd_present K e = bit e 0" "pud_present K e = bit e 0"
                    "pmd_present K e = bit e 0" "pte_present K e = bit e 0"
    and large_hw: "bit e 0 \<Longrightarrow> pud_large K e = bit e 7" "bit e 0 \<Longrightarrow> pmd_large K e = bit e 7"
begin

lemmas offsets_hw = pgd_hw p4d_hw pud_hw pmd_hw pte_hw

lemma table_not_none: "hw_table e \<Longrightarrow> \<not> pgd_none K e \<and> \<not> p4d_none K e \<and> \<not> pud_none K e \<and> \<not> pmd_none K e"
  using none_hw by (auto simp: hw_table_def)

lemma leaf_not_none: "bit e 0 \<Longrightarrow> \<not> pte_none K e"
  using none_hw by auto

text \<open>Both drivers' walks find every present 4 KB leaf.\<close>

lemma get_pte4_finds:
  assumes "\<not> l5" and "hw_walk dm t (cr3 AND phys_mask) levels4 va = Some p" and "bit (t p) 0"
  shows "kmem_get_pte4 K t va = p" and "pmem_get_pte4 K t va = p"
  using assms
  by (auto simp: kmem_get_pte4_def pmem_get_pte4_def offsets_hw Let_def table_not_none leaf_not_none
      split: if_splits)

lemma get_pte5_finds:
  assumes "l5" and "hw_walk dm t (cr3 AND phys_mask) levels5 va = Some p" and "bit (t p) 0"
  shows "kmem_get_pte5 K t va = p" and "pmem_get_pte5 K t va = p"
  using assms
  by (auto simp: kmem_get_pte5_def pmem_get_pte5_def offsets_hw Let_def table_not_none leaf_not_none
      bad_hw split: if_splits)

text \<open>
  The walk of the network driver tests presence and size at each level, so where no probe
  faults it is exactly the processor's walk.
\<close>

lemma genpipe_get_pte_walk:
  assumes "\<not> l5" and "\<And>a. \<not> probe_kernel_address K a" and "\<not> bit (t (pgd_offset K va)) 7"
  shows "genpipe_get_pte K t va =
    (case hw_walk dm t (cr3 AND phys_mask) levels4 va of None \<Rightarrow> 0 | Some p \<Rightarrow> p)"
  using assms
  by (auto simp: genpipe_get_pte_def offsets_hw Let_def hw_table_def present_hw large_hw)

lemma any_v2p_walk:
  assumes "\<not> l5" and "\<And>a. \<not> probe_kernel_address K a" and "\<not> bit (t (pgd_offset K va)) 7"
  shows "any_v2p K t junk va =
    (case hw_walk dm t (cr3 AND phys_mask) levels4 va of
       None \<Rightarrow> junk
     | Some p \<Rightarrow> if bit (t p) 0 then (t p AND phys_mask) OR page_off va else junk)"
  using assms
  by (auto simp: any_v2p_def offsets_hw Let_def hw_table_def present_hw large_hw page_off_def
      PHYSICAL_PAGE_MASK_def phys_mask_def)

text \<open>
  \<^verbatim>\<open>get_pte4\<close> of the two memory drivers does not ask whether a middle level maps a large
  page: it goes on into the page as if it were a page table.
\<close>

lemma get_pte4_large_page:
  assumes "\<not> l5" and "hw_walk dm t (cr3 AND phys_mask) [39, 30, 21] va = Some q"
    and "bit (t q) 0" and "bit (t q) 7"
    and "bit (t (hw_entry dm (t q AND phys_mask) 12 va)) 0"
  shows "kmem_get_pte4 K t va = hw_entry dm (t q AND phys_mask) 12 va"
    and "hw_walk dm t (cr3 AND phys_mask) levels4 va = None"
proof -
  let ?pgd = "hw_entry dm (cr3 AND phys_mask) 39 va"
  let ?pud = "hw_entry dm (t ?pgd AND phys_mask) 30 va"
  have up: "hw_table (t ?pgd)" "hw_table (t ?pud)" "q = hw_entry dm (t ?pud AND phys_mask) 21 va"
    using assms(2) by (auto simp: Let_def split: if_splits)
  have "\<not> hw_table (t q)" using assms(4) by (simp add: hw_table_def)
  then show "hw_walk dm t (cr3 AND phys_mask) levels4 va = None"
    using up by (simp add: Let_def)
  have "\<not> pmd_none K (t q)" using none_hw assms(3) by blast
  then show "kmem_get_pte4 K t va = hw_entry dm (t q AND phys_mask) 12 va"
    using up assms(1,5) by (simp add: kmem_get_pte4_def offsets_hw Let_def table_not_none leaf_not_none)
qed

end

section \<open>A kernel with a direct map\<close>

definition x86_none :: "u64 \<Rightarrow> bool" where
  "x86_none e \<longleftrightarrow> e AND NOT 0x60 = 0"

definition x86_api :: "bool \<Rightarrow> u64 \<Rightarrow> u64 \<Rightarrow> pgt_api" where
  "x86_api l5 dm cr3 = \<lparr>
     pgd_offset = hw_entry dm (cr3 AND phys_mask) (if l5 then 48 else 39),
     p4d_offset = (\<lambda>t p. if l5 then hw_entry dm (t p AND phys_mask) 39 else (\<lambda>_. p)),
     pud_offset = (\<lambda>t p. hw_entry dm (t p AND phys_mask) 30),
     pmd_offset = (\<lambda>t p. hw_entry dm (t p AND phys_mask) 21),
     pte_offset_kernel = (\<lambda>t p. hw_entry dm (t p AND phys_mask) 12),
     pgd_none = x86_none, p4d_none = x86_none, pud_none = x86_none, pmd_none = x86_none,
     pte_none = x86_none,
     pgd_bad = (\<lambda>e. \<not> hw_table e), p4d_bad = (\<lambda>e. \<not> hw_table e),
     pud_bad = (\<lambda>e. \<not> hw_table e), pmd_bad = (\<lambda>e. \<not> hw_table e),
     pgd_present = (\<lambda>e. bit e 0), pud_present = (\<lambda>e. bit e 0),
     pmd_present = (\<lambda>e. bit e 0), pte_present = (\<lambda>e. bit e 0),
     pud_large = (\<lambda>e. bit e 0 \<and> bit e 7), pmd_large = (\<lambda>e. bit e 0 \<and> bit e 7),
     probe_kernel_address = (\<lambda>_. False) \<rparr>"

lemma x86_none_not_present: "x86_none e \<Longrightarrow> \<not> bit e 0"
proof
  assume "x86_none e" and "bit e 0"
  moreover have "bit (e AND NOT 0x60) 0" if "bit e 0"
    using that by (simp add: bit_simps)
  ultimately show False by (simp add: x86_none_def)
qed

interpretation x86_4: x86_paging "x86_api False dm cr3" dm cr3 False for dm cr3
  by unfold_locales (auto simp: x86_api_def x86_none_not_present)

interpretation x86_5: x86_paging "x86_api True dm cr3" dm cr3 True for dm cr3
  by unfold_locales (auto simp: x86_api_def x86_none_not_present)

section \<open>Properties of the walks\<close>

text \<open>A concrete set of tables: \<open>0x1000\<close> is mapped by a 4 KB entry, \<open>0x200000\<close> lies in a 2 MB page.\<close>

definition walk_ptes :: ptes where
  "walk_ptes = (\<lambda>_. 0)(0x1000 := 0x2003, 0x2000 := 0x3003, 0x3000 := 0x4003, 0x4008 := 0x5063,
     0x3008 := 0x2000e3, 0x200000 := 0x1)"

lemmas walk_eval = walk_ptes_def hw_entry_def hw_index_def hw_table_def phys_mask_def Let_def

lemma x86_4_paging: "x86_paging (x86_api False dm cr3) dm cr3 False"
  by (rule x86_4.x86_paging_axioms)

lemma x86_5_paging: "x86_paging (x86_api True dm cr3) dm cr3 True"
  by (rule x86_5.x86_paging_axioms)



text \<open>Inside a large page the walk of both drivers does not stop: where the eight bytes at the
  place a page table would have look like a present entry, it returns the address of those
  bytes, although no 4 KB entry maps the address.\<close>

theorem get_pte4_enters_large_page:
  assumes "x86_paging K dm cr3 False"
    and "hw_walk dm t (cr3 AND phys_mask) [39, 30, 21] va = Some q" and "bit (t q) 0" and "bit (t q) 7"
    and "bit (t (hw_entry dm (t q AND phys_mask) 12 va)) 0"
  shows "kmem_get_pte4 K t va = hw_entry dm (t q AND phys_mask) 12 va \<and>
    pmem_get_pte4 K t va = hw_entry dm (t q AND phys_mask) 12 va \<and>
    hw_walk dm t (cr3 AND phys_mask) levels4 va = None"
proof -
  have "pmem_get_pte4 K t va = kmem_get_pte4 K t va"
    by (simp add: pmem_get_pte4_def kmem_get_pte4_def)
  with x86_paging.get_pte4_large_page [OF assms(1) _ assms(2-5)] show ?thesis by simp
qed

theorem get_pte4_enters_large_page_witness:
  "kmem_get_pte4 (x86_api False 0 0x1000) walk_ptes 0x200000 = 0x200000 \<and>
   hw_walk 0 walk_ptes 0x1000 levels4 0x200000 = None"
proof -
  have "hw_walk 0 walk_ptes (0x1000 AND phys_mask) [39, 30, 21] 0x200000 = Some 0x3008"
    "bit (walk_ptes 0x3008) 0" "bit (walk_ptes 0x3008) 7"
    "bit (walk_ptes (hw_entry 0 (walk_ptes 0x3008 AND phys_mask) 12 0x200000)) 0"
    "hw_entry 0 (walk_ptes 0x3008 AND phys_mask) 12 0x200000 = 0x200000" "0x1000 AND phys_mask = 0x1000"
    by (simp_all add: walk_eval)
  with get_pte4_enters_large_page [OF x86_4_paging, of 0 walk_ptes "0x1000" "0x200000" "0x3008"]
  show ?thesis by simp
qed

text \<open>The walk of the packet driver, where no probed address faults, is exactly the walk of the
  processor: it returns the 4 KB entry that maps the address, present or not, and a null pointer
  where there is none.\<close>

theorem genpipe_get_pte_is_walk:
  assumes "x86_paging K dm cr3 False" and "\<And>a. \<not> probe_kernel_address K a"
    and "\<not> bit (t (pgd_offset K va)) 7"
  shows "genpipe_get_pte K t va =
    (case hw_walk dm t (cr3 AND phys_mask) levels4 va of None \<Rightarrow> 0 | Some p \<Rightarrow> p)"
  by (rule x86_paging.genpipe_get_pte_walk [OF assms(1)]) (use assms in auto)

theorem genpipe_get_pte_is_walk_witness:
  "genpipe_get_pte (x86_api False 0 0x1000) walk_ptes 0x1234 = 0x4008 \<and>
   genpipe_get_pte (x86_api False 0 0x1000) walk_ptes 0x200000 = 0"
proof -
  have "\<not> probe_kernel_address (x86_api False 0 0x1000) a" for a
    by (simp add: x86_api_def)
  from genpipe_get_pte_is_walk [OF x86_4_paging this] show ?thesis
    by (simp add: x86_api_def walk_eval)
qed

text \<open>\<^verbatim>\<open>any_v2p\<close> computes the physical address of a mapped address; for an address that is not
  mapped by a present 4 KB entry it returns its uninitialised local, whatever that holds.\<close>

theorem any_v2p_result:
  assumes "x86_paging K dm cr3 False" and "\<And>a. \<not> probe_kernel_address K a"
    and "\<not> bit (t (pgd_offset K va)) 7"
  shows "any_v2p K t junk va =
    (case hw_walk dm t (cr3 AND phys_mask) levels4 va of
       None \<Rightarrow> junk
     | Some p \<Rightarrow> if bit (t p) 0 then (t p AND phys_mask) OR page_off va else junk)"
  by (rule x86_paging.any_v2p_walk [OF assms(1)]) (use assms in auto)

theorem any_v2p_result_witness:
  "any_v2p (x86_api False 0 0x1000) walk_ptes 0xbeef 0x1234 = 0x5234 \<and>
   any_v2p (x86_api False 0 0x1000) walk_ptes 0xdead 0x200000 = 0xdead"
proof -
  have "\<not> probe_kernel_address (x86_api False 0 0x1000) a" for a
    by (simp add: x86_api_def)
  from any_v2p_result [OF x86_4_paging this] show ?thesis
    by (simp add: x86_api_def walk_eval page_off_def)
qed

text \<open>
  The paging depth both drivers compute is 5 exactly when bit 12 of CR4 is set, whatever the
  uninitialised upper halves of the locals hold.
\<close>

lemma paging_level_of_cr4:
  "kmem_get_paging_level junk3 junk4 cr3 cr4 = (if bit cr4 12 then 5 else 4)"
  "pmem_get_paging_level junk3 junk4 cr3 cr4 = (if bit cr4 12 then 5 else 4)"
proof -
  have "store_eax junk4 cr4 AND X86_CR4_LA57 \<noteq> 0 \<longleftrightarrow> bit (store_eax junk4 cr4) 12"
    using and_exp_eq_0_iff_not_bit [of "store_eax junk4 cr4" 12] by (simp add: X86_CR4_LA57_def)
  also have "\<dots> \<longleftrightarrow> bit cr4 12"
    by (simp add: store_eax_def bit_or_iff bit_and_iff)
  finally show "kmem_get_paging_level junk3 junk4 cr3 cr4 = (if bit cr4 12 then 5 else 4)"
    and "pmem_get_paging_level junk3 junk4 cr3 cr4 = (if bit cr4 12 then 5 else 4)"
    by (simp_all add: kmem_get_paging_level_def pmem_get_paging_level_def kmem_get_cr34_def
        pmem_get_cr34_def Let_def)
qed

theorem paging_level_from_cr4:
  "kmem_get_paging_level junk3 junk4 cr3 cr4 = (if bit cr4 12 then 5 else 4) \<and>
   pmem_get_paging_level junk3 junk4 cr3 cr4 = (if bit cr4 12 then 5 else 4)"
  by (simp add: paging_level_of_cr4)

end
