(* ===== verification/Machine.thy ===== *)
theory Machine
  imports Page_Walk
begin

text \<open>
  The machine under the two memory drivers: physical memory, the page-table entries, the
  translations the processor has cached, and the position of the open device file. A load or a
  store goes through the translation look-aside buffer: a cached entry is used as it is, an
  absent one is read from the page tables and cached. Nothing but the environment
  (\<open>tlb_flush\<close>) removes a cached entry, because the drivers never ask the processor to.

  The tables are a store of their own, so a driver's write to a physical page that holds page
  tables is outside this model.
\<close>

record machine =
  m_phys :: "u64 \<Rightarrow> u8"
  m_ptes :: ptes
  m_tlb :: "u64 \<rightharpoonup> u64"
  f_pos :: u64

text \<open>
  What the drivers are built on: the paging depth and the kernel's accessors, the address of
  the page \<^verbatim>\<open>paged_buf\<close>, the kernel's \<^verbatim>\<open>virt_to_phys\<close>, and the leaf entry the processor
  uses for an address.
\<close>

record mem_env =
  paging_level :: nat
  env_api :: pgt_api
  paged_buf :: u64
  virt_to_phys :: "u64 \<Rightarrow> u64"
  env_leaf :: "ptes \<Rightarrow> u64 \<Rightarrow> u64 option"

definition vpn :: "u64 \<Rightarrow> u64" where
  "vpn va = drop_bit 12 va"

definition PAGE_RW :: u64 where
  "PAGE_RW = 2"

section \<open>Loads and stores\<close>

definition mmu_entry :: "mem_env \<Rightarrow> u64 \<Rightarrow> machine \<Rightarrow> (u64 \<times> machine) option" where
  "mmu_entry E va m =
     (case m_tlb m (vpn va) of
        Some e \<Rightarrow> Some (e, m)
      | None \<Rightarrow>
          (case env_leaf E (m_ptes m) va of
             None \<Rightarrow> None
           | Some p \<Rightarrow>
               let e = m_ptes m p in
               if bit e 0 then Some (e, m\<lparr>m_tlb := (m_tlb m)(vpn va \<mapsto> e)\<rparr>) else None))"

definition phys_addr :: "u64 \<Rightarrow> u64 \<Rightarrow> u64" where
  "phys_addr e va = (e AND phys_mask) OR page_off va"

definition load_byte :: "mem_env \<Rightarrow> u64 \<Rightarrow> machine \<Rightarrow> (u8 \<times> machine) option" where
  "load_byte E va m = do {
     (e, m') \<leftarrow> mmu_entry E va m;
     Some (m_phys m' (phys_addr e va), m')
   }"

definition store_byte :: "mem_env \<Rightarrow> u64 \<Rightarrow> u8 \<Rightarrow> machine \<Rightarrow> machine option" where
  "store_byte E va b m = do {
     (e, m') \<leftarrow> mmu_entry E va m;
     if bit e 1 then Some (m'\<lparr>m_phys := (m_phys m')(phys_addr e va := b)\<rparr>) else None
   }"

fun load_bytes :: "mem_env \<Rightarrow> u64 \<Rightarrow> nat \<Rightarrow> machine \<Rightarrow> (u8 list \<times> machine) option" where
  "load_bytes E va 0 m = Some ([], m)"
| "load_bytes E va (Suc n) m = do {
     (b, m') \<leftarrow> load_byte E va m;
     (bs, m'') \<leftarrow> load_bytes E (va + 1) n m';
     Some (b # bs, m'')
   }"

fun store_bytes :: "mem_env \<Rightarrow> u64 \<Rightarrow> u8 list \<Rightarrow> machine \<Rightarrow> machine option" where
  "store_bytes E va [] m = Some m"
| "store_bytes E va (b # bs) m = do {
     m' \<leftarrow> store_byte E va b m;
     store_bytes E (va + 1) bs m'
   }"

definition tlb_flush :: "machine \<Rightarrow> machine" where
  "tlb_flush m = m\<lparr>m_tlb := Map.empty\<rparr>"

section \<open>Accesses inside one page\<close>

lemma mmu_entry_SomeD:
  "mmu_entry E va m = Some (e, m') \<Longrightarrow> m' = m\<lparr>m_tlb := (m_tlb m)(vpn va \<mapsto> e)\<rparr>"
  by (auto simp: mmu_entry_def Let_def fun_upd_idem split: option.splits if_splits)

lemma mmu_entry_hit: "m_tlb m (vpn va) = Some e \<Longrightarrow> mmu_entry E va m = Some (e, m)"
  by (simp add: mmu_entry_def)

lemma mmu_entry_miss:
  "m_tlb m (vpn va) = None \<Longrightarrow> env_leaf E (m_ptes m) va = Some p \<Longrightarrow> bit (m_ptes m p) 0 \<Longrightarrow>
   mmu_entry E va m = Some (m_ptes m p, m\<lparr>m_tlb := (m_tlb m)(vpn va \<mapsto> m_ptes m p)\<rparr>)"
  by (simp add: mmu_entry_def Let_def)

lemma next_in_page:
  assumes "unat (page_off va) + 1 < 4096"
  shows "vpn (va + 1) = vpn va" and "page_off (va + 1) = page_off va + 1"
    and "unat (page_off (va + 1)) = unat (page_off va) + 1"
    and "phys_addr e (va + 1) = phys_addr e va + 1"
proof -
  have base: "page_base (va + 1) = page_base va" and off: "page_off (va + 1) = page_off va + 1"
    using page_base_add [of va 1] page_off_add [of va 1] assms by simp_all
  from base show "vpn (va + 1) = vpn va"
    by (simp add: vpn_def page_base_eq_iff)
  from off show "page_off (va + 1) = page_off va + 1" .
  show "unat (page_off (va + 1)) = unat (page_off va) + 1"
    using off unat_add_in_page [of "page_off va" 1] assms by simp
  have add: "phys_addr e w = (e AND phys_mask) + page_off w" for w
  proof -
    have "(e AND phys_mask) AND page_off w = 0"
    proof (rule bit_word_eqI)
      fix n :: nat
      show "bit ((e AND phys_mask) AND page_off w) n = bit 0 n"
        by (auto simp: bit_and_iff bit_page_off bit_phys_mask)
    qed
    then show ?thesis
      using word_plus_and_or [of "e AND phys_mask" "page_off w"] by (simp add: phys_addr_def)
  qed
  show "phys_addr e (va + 1) = phys_addr e va + 1"
    by (simp add: add off)
qed

lemma load_bytes_page:
  assumes "mmu_entry E va m = Some (e, m')" and "0 < n" and "unat (page_off va) + n \<le> 4096"
  shows "load_bytes E va n m = Some (range_read (m_phys m) (phys_addr e va) n, m')"
  using assms
proof (induction n arbitrary: va m m')
  case (Suc n)
  note m' = mmu_entry_SomeD [OF Suc.prems(1)]
  show ?case
  proof (cases "n = 0")
    case True
    with Suc.prems m' show ?thesis by (simp add: load_byte_def range_read_def)
  next
    case False
    with Suc.prems have "unat (page_off va) + 1 < 4096" by simp
    note nxt = next_in_page [OF this]
    have "mmu_entry E (va + 1) m' = Some (e, m')"
      by (rule mmu_entry_hit) (simp add: nxt m')
    then have "load_bytes E (va + 1) n m' = Some (range_read (m_phys m') (phys_addr e (va + 1)) n, m')"
      using False Suc.prems(3) by (intro Suc.IH) (auto simp: nxt(3))
    with Suc.prems(1) m' show ?thesis by (simp add: load_byte_def nxt range_read_Suc)
  qed
qed simp

lemma store_bytes_page:
  assumes "mmu_entry E va m = Some (e, m')" and "bit e 1" and "bs \<noteq> []"
    and "unat (page_off va) + length bs \<le> 4096"
  shows "store_bytes E va bs m = Some (m'\<lparr>m_phys := range_write (m_phys m) (phys_addr e va) bs\<rparr>)"
  using assms
proof (induction bs arbitrary: va m m')
  case (Cons b bs)
  note m' = mmu_entry_SomeD [OF Cons.prems(1)]
  let ?m = "m'\<lparr>m_phys := (m_phys m')(phys_addr e va := b)\<rparr>"
  have store: "store_byte E va b m = Some ?m"
    using Cons.prems(1,2) by (simp add: store_byte_def)
  show ?case
  proof (cases "bs = []")
    case True
    with store m' show ?thesis by (simp add: fun_upd_def)
  next
    case False
    with Cons.prems have "unat (page_off va) + 1 < 4096" by (cases bs) auto
    note nxt = next_in_page [OF this]
    have "mmu_entry E (va + 1) ?m = Some (e, ?m)"
      by (rule mmu_entry_hit) (simp add: nxt m')
    then have "store_bytes E (va + 1) bs ?m =
        Some (?m\<lparr>m_phys := range_write (m_phys ?m) (phys_addr e (va + 1)) bs\<rparr>)"
      using False Cons.prems(2,4) by (intro Cons.IH) (auto simp: nxt(3))
    with store m' show ?thesis by (simp add: nxt)
  qed
qed simp

end
