(* ===== verification/Window.thy ===== *)
theory Window
  imports Machine
begin

text \<open>
  The technique the two memory drivers share: the entry that maps the driver's own page
  \<^verbatim>\<open>paged_buf\<close> is overwritten so that the page shows another physical page, the bytes are
  copied through it, and the entry is put back. This theory holds the pieces both drivers use
  (the length of a transfer, the entry they write) and the facts about an access through such
  a window; \<open>window\<close> is the situation in which the technique works.
\<close>

definition copy_len :: "u64 \<Rightarrow> u64 \<Rightarrow> u64" where
  "copy_len pos count =
     (let left_len = 0x1000 - (pos AND 0xfff) in if count \<le> left_len then count else left_len)"

definition set_pte :: "u64 \<Rightarrow> u64 \<Rightarrow> machine \<Rightarrow> machine" where
  "set_pte pte v m = m\<lparr>m_ptes := (m_ptes m)(pte := v)\<rparr>"

definition window_pte :: "u64 \<Rightarrow> u64 \<Rightarrow> u64" where
  "window_pte pa pte_save = (pa AND NOT 0xfff) OR (pte_save AND 0xfff)"

lemma set_pte_simps [simp]:
  "m_phys (set_pte p v m) = m_phys m" "m_tlb (set_pte p v m) = m_tlb m"
  "f_pos (set_pte p v m) = f_pos m" "m_ptes (set_pte p v m) = (m_ptes m)(p := v)"
  by (simp_all add: set_pte_def)

section \<open>The length of a transfer\<close>

lemma unat_copy_len: "unat (copy_len pos count) = min (unat count) (4096 - unat pos mod 4096)"
proof -
  have "page_off pos \<le> 0x1000"
    using page_off_less [of pos] by (simp add: word_le_nat_alt)
  then have "unat (0x1000 - page_off pos) = 4096 - unat pos mod 4096"
    by (simp add: unat_sub unat_page_off)
  then show ?thesis
    by (auto simp: copy_len_def page_off_def Let_def min_def word_le_nat_alt)
qed

lemma copy_len_in_page: "unat (page_off pos) + unat (copy_len pos count) \<le> 4096"
  by (simp add: unat_copy_len unat_page_off)

section \<open>The entry a driver writes\<close>

lemma bit_below_2_52: "pa < 2 ^ 52 \<Longrightarrow> bit (pa :: u64) n \<Longrightarrow> n < 52"
proof -
  assume "pa < 2 ^ 52" and n: "bit pa n"
  then have "pa AND mask 52 = pa" by (simp add: less_mask_eq)
  with n show "n < 52" by (metis bit_and_iff bit_mask_iff)
qed

lemma window_pte_alt: "window_pte pa s = page_base pa OR page_off s"
  by (simp add: window_pte_def page_base_def page_off_def)

lemma bit_window_pte: "bit (window_pte pa s) n = (if n < 12 then bit s n else bit pa n)"
  by (auto simp: window_pte_alt bit_or_iff bit_page_base bit_page_off)

lemma bit_PAGE_RW: "bit PAGE_RW n \<longleftrightarrow> n = 1"
  using bit_exp_iff [where ?'a = u64, of 1 n]
  by (auto simp: PAGE_RW_def simp del: bit_numeral_word_iff)

lemma phys_addr_window:
  assumes "page_off va = page_off pa"
  shows "phys_addr (window_pte pa s OR PAGE_RW) va = pa AND mask 52"
    and "phys_addr (window_pte pa s) va = pa AND mask 52"
proof -
  show "phys_addr (window_pte pa s OR PAGE_RW) va = pa AND mask 52"
    using assms
    by (intro bit_word_eqI)
      (auto simp: phys_addr_def bit_or_iff bit_and_iff bit_window_pte bit_phys_mask bit_page_off
        bit_mask_iff bit_PAGE_RW)
  show "phys_addr (window_pte pa s) va = pa AND mask 52"
    using assms
    by (intro bit_word_eqI)
      (auto simp: phys_addr_def bit_or_iff bit_and_iff bit_window_pte bit_phys_mask bit_page_off
        bit_mask_iff)
qed

text \<open>In general the page comes from the written entry and the offset from the access.\<close>

lemma phys_addr_window_pte:
  "phys_addr (window_pte pa s) va = (pa AND phys_mask) OR page_off va"
  "phys_addr (window_pte pa s OR PAGE_RW) va = (pa AND phys_mask) OR page_off va"
  by (intro bit_word_eqI,
      auto simp: phys_addr_def bit_or_iff bit_and_iff bit_window_pte bit_phys_mask bit_PAGE_RW)+

lemma and_mask_52 [simp]: "pa < 2 ^ 52 \<Longrightarrow> (pa :: u64) AND mask 52 = pa"
  by (simp add: less_mask_eq)

lemma phys_addr_stale:
  assumes "a < 2 ^ 52" and "page_off va = page_off c"
  shows "phys_addr (window_pte a s) va = page_base a + page_off c"
proof -
  let ?b = "page_base a + page_off c"
  have "window_pte a s = window_pte ?b s"
    by (simp add: window_pte_alt page_join)
  moreover have "bit (?b AND mask 52) i = bit ?b i" for i
    using bit_below_2_52 [OF assms(1), of i]
    by (auto simp: bit_and_iff bit_mask_iff bit_page_join split: if_splits)
  then have "?b AND mask 52 = ?b" by (simp add: bit_eq_iff)
  ultimately show ?thesis
    using assms(2) phys_addr_window(2) [of va ?b s] by (simp add: page_join)
qed

section \<open>When the window works\<close>

text \<open>
  \<open>paged_buf\<close> is page-aligned (the attribute of its declaration), the walk finds the entry
  \<open>p\<close> that the processor uses for the page, the entry is present, and what the driver writes
  into it does not change which entry the processor reads.
\<close>

definition window :: "mem_env \<Rightarrow> machine \<Rightarrow> u64 \<Rightarrow> bool" where
  "window E m p \<longleftrightarrow>
     page_off (paged_buf E) = 0 \<and> p \<noteq> 0 \<and>
     kmem_get_pte (paging_level E) (env_api E) (m_ptes m) (paged_buf E) = p \<and>
     bit (m_ptes m p) 0 \<and>
     (\<forall>v va. page_base va = paged_buf E \<longrightarrow> env_leaf E ((m_ptes m)(p := v)) va = Some p)"

lemma pmem_get_pte_eq: "pmem_get_pte = kmem_get_pte"
  by (simp add: fun_eq_iff pmem_get_pte_def kmem_get_pte_def pmem_get_pte4_def kmem_get_pte4_def
      pmem_get_pte5_def kmem_get_pte5_def)

lemma window_va:
  assumes "window E m p"
  shows "page_base (paged_buf E + page_off a) = paged_buf E"
    and "page_off (paged_buf E + page_off a) = page_off a"
    and "vpn (paged_buf E + page_off a) = vpn (paged_buf E)"
proof -
  have 0: "page_off (paged_buf E) = 0" using assms by (simp add: window_def)
  then have base: "page_base (paged_buf E) = paged_buf E"
    using page_base_plus_off [of "paged_buf E"] by simp
  have "unat (page_off (paged_buf E)) + unat (page_off a) < 4096"
    using 0 page_off_less by simp
  from page_base_add [OF this] page_off_add [OF this] 0 base
  show "page_base (paged_buf E + page_off a) = paged_buf E"
    and "page_off (paged_buf E + page_off a) = page_off a" by simp_all
  with base show "vpn (paged_buf E + page_off a) = vpn (paged_buf E)"
    by (simp add: vpn_def flip: page_base_eq_iff)
qed

text \<open>The first access after the entry was written, with no cached translation, sees the new entry.\<close>

lemma window_miss:
  assumes "window E m p" and "m_tlb m (vpn (paged_buf E)) = None" and "bit v 0"
  shows "mmu_entry E (paged_buf E + page_off a) (set_pte p v m) =
    Some (v, (set_pte p v m)\<lparr>m_tlb := (m_tlb m)(vpn (paged_buf E) \<mapsto> v)\<rparr>)"
  using assms window_va [OF assms(1), of a]
  by (subst mmu_entry_miss [where p = p]) (auto simp: window_def)

text \<open>With a cached translation the entry in memory does not matter.\<close>

lemma window_hit:
  assumes "window E m p" and "m_tlb m (vpn (paged_buf E)) = Some e"
  shows "mmu_entry E (paged_buf E + page_off a) (set_pte p v m) = Some (e, set_pte p v m)"
  using assms window_va [OF assms(1), of a] by (simp add: mmu_entry_hit)

lemma and_fff: "w AND 0xfff = page_off w"
  by (simp add: page_off_def)

lemma window_pte_present: "window E m p \<Longrightarrow> bit (window_pte a (m_ptes m p)) 0"
  by (simp add: window_def bit_window_pte)

lemma window_rw_pte:
  assumes "window E m p"
  shows "bit (window_pte a (m_ptes m p) OR PAGE_RW) 0" and "bit (window_pte a (m_ptes m p) OR PAGE_RW) 1"
  using assms by (simp_all add: window_def bit_window_pte bit_or_iff bit_PAGE_RW)

text \<open>A whole transfer through the window, with nothing cached: \<open>a\<close> is the file position.\<close>

lemma window_load:
  assumes win: "window E m p" and miss: "m_tlb m (vpn (paged_buf E)) = None"
    and n: "0 < n" "unat (page_off a) + n \<le> 4096"
  shows "load_bytes E (paged_buf E + page_off a) n (set_pte p (window_pte pa (m_ptes m p)) m) =
    Some (range_read (m_phys m) ((pa AND phys_mask) OR page_off a) n,
      (set_pte p (window_pte pa (m_ptes m p)) m)
        \<lparr>m_tlb := (m_tlb m)(vpn (paged_buf E) \<mapsto> window_pte pa (m_ptes m p))\<rparr>)"
  using load_bytes_page [OF window_miss [OF win miss window_pte_present [OF win]] n(1), of a pa] n(2)
  by (simp add: window_va [OF win] phys_addr_window_pte page_off_idem)

lemma window_store:
  assumes win: "window E m p" and miss: "m_tlb m (vpn (paged_buf E)) = None"
    and bs: "bs \<noteq> []" "unat (page_off a) + length bs \<le> 4096"
  shows "store_bytes E (paged_buf E + page_off a) bs
      (set_pte p (window_pte pa (m_ptes m p) OR PAGE_RW) m) =
    Some ((set_pte p (window_pte pa (m_ptes m p) OR PAGE_RW) m)
        \<lparr>m_tlb := (m_tlb m)(vpn (paged_buf E) \<mapsto> window_pte pa (m_ptes m p) OR PAGE_RW),
         m_phys := range_write (m_phys m) ((pa AND phys_mask) OR page_off a) bs\<rparr>)"
  using store_bytes_page [OF window_miss [OF win miss window_rw_pte(1) [OF win]]
      window_rw_pte(2) [OF win] bs(1), of a pa] bs(2)
  by (simp add: window_va [OF win] phys_addr_window_pte page_off_idem)

lemma set_pte_back:
  "set_pte p (m_ptes m p) ((set_pte p v m)\<lparr>m_tlb := T\<rparr>) = m\<lparr>m_tlb := T\<rparr>"
  "set_pte p (m_ptes m p) ((set_pte p v m)\<lparr>m_tlb := T, m_phys := P\<rparr>) = m\<lparr>m_tlb := T, m_phys := P\<rparr>"
  "set_pte p (m_ptes m p) (set_pte p v m) = m"
  by (simp_all add: set_pte_def)

section \<open>Windows of an x86-64 kernel\<close>

text \<open>
  With four-level paging the window works as soon as the driver's page is mapped by a present
  4 KB entry that the walk does not also read on a higher level.
\<close>

definition x86_env :: "u64 \<Rightarrow> u64 \<Rightarrow> u64 \<Rightarrow> (u64 \<Rightarrow> u64) \<Rightarrow> mem_env" where
  "x86_env dm cr3 buf v2p = \<lparr>
     paging_level = 4, env_api = x86_api False dm cr3, paged_buf = buf, virt_to_phys = v2p,
     env_leaf = (\<lambda>t. hw_walk dm t (cr3 AND phys_mask) levels4) \<rparr>"

lemma x86_env_window:
  assumes "page_off buf = 0" and "p \<noteq> 0"
    and walk: "hw_walk dm (m_ptes m) (cr3 AND phys_mask) levels4 buf = Some p"
    and leaf: "bit (m_ptes m p) 0"
    and path: "p \<notin> set (hw_path dm (m_ptes m) (cr3 AND phys_mask) levels4 buf)"
  shows "window (x86_env dm cr3 buf v2p) m p"
proof -
  have "page_base buf = buf"
    using assms(1) page_base_plus_off [of buf] by simp
  have "hw_walk dm ((m_ptes m)(p := v)) (cr3 AND phys_mask) levels4 va = Some p"
    if va: "page_base va = buf" for v va
  proof -
    have "hw_walk dm ((m_ptes m)(p := v)) (cr3 AND phys_mask) levels4 va =
        hw_walk dm ((m_ptes m)(p := v)) (cr3 AND phys_mask) levels4 buf"
      by (rule hw_walk_page) (use va \<open>page_base buf = buf\<close> in auto)
    also have "\<dots> = Some p"
      using walk by (simp only: hw_walk_upd [OF path])
    finally show ?thesis .
  qed
  with assms x86_4.get_pte4_finds(1) [OF _ walk leaf] show ?thesis
    by (simp add: window_def x86_env_def kmem_get_pte_def)
qed

lemma window_cong: "m_ptes m' = m_ptes m \<Longrightarrow> window E m' p = window E m p"
  by (simp add: window_def)

text \<open>
  A small machine for the concrete instances: the driver's page is the second page, mapped by
  the entry at \<open>0x4008\<close>, the third page is mapped read-only by the entry at \<open>0x4010\<close>; physical memory holds at every address the sum of its page number
  and the address, as a byte.
\<close>

definition sample_env :: mem_env where
  "sample_env = x86_env 0 0x1000 0x1000 (\<lambda>va. va - 0xffffffff80000000)"

definition sample_ptes :: ptes where
  "sample_ptes = (\<lambda>_. 0)(0x1000 := 0x2003, 0x2000 := 0x3003, 0x3000 := 0x4003, 0x4008 := 0x5061,
     0x4010 := 0x6061)"

definition sample_machine :: "u64 \<Rightarrow> machine" where
  "sample_machine pos = \<lparr>m_phys = (\<lambda>a. ucast (drop_bit 12 a + a)), m_ptes = sample_ptes,
     m_tlb = Map.empty, f_pos = pos\<rparr>"

lemma sample_window: "window sample_env (sample_machine pos) 0x4008"
  unfolding sample_env_def
  by (rule x86_env_window)
    (simp_all add: sample_machine_def sample_ptes_def page_off_def phys_mask_def hw_entry_def
      hw_index_def hw_table_def Let_def)

lemma sample_buf: "paged_buf sample_env = 0x1000"
  by (simp add: sample_env_def x86_env_def)

lemma sample_machine_simps [simp]:
  "m_tlb (sample_machine pos) = Map.empty" "f_pos (sample_machine pos) = pos"
  "m_ptes (sample_machine pos) = sample_ptes"
  by (simp_all add: sample_machine_def)

end
