(* ===== verification/Pmem.thy ===== *)
theory Pmem
  imports Window
begin

text \<open>
  The physical-memory driver, \<^verbatim>\<open>src/pmem/pmem.c\<close>, as it is built for x86-64: its read, write,
  seek, ioctl and mmap handlers and its module initialisation. The argument \<open>left\<close> of a handler
  is the number of bytes the kernel's \<^verbatim>\<open>copy_to_user\<close> or \<^verbatim>\<open>copy_from_user\<close> could not copy.
\<close>

section \<open>Reading and writing\<close>

definition pmem_read :: "mem_env \<Rightarrow> nat \<Rightarrow> u64 \<Rightarrow> machine \<Rightarrow> (u8 list \<times> u64 sysret \<times> machine) option" where
  "pmem_read E left count m =
     (let n = copy_len (f_pos m) count;
          pte = pmem_get_pte (paging_level E) (env_api E) (m_ptes m) (paged_buf E);
          pte_save = m_ptes m pte;
          m1 = (if pte \<noteq> 0 then set_pte pte (window_pte (f_pos m) pte_save) m else m)
      in do {
        (bs, m2) \<leftarrow> load_bytes E (paged_buf E + (f_pos m AND 0xfff)) (unat n - left) m1;
        if left \<noteq> 0 then Some (bs, Inl EFAULT, m2)
        else Some (bs, Inr n, if pte \<noteq> 0 then set_pte pte pte_save m2 else m2)
      })"

text \<open>
  \<open>udata\<close> is the caller's buffer. \<^verbatim>\<open>copy_from_user\<close> fills what it could not copy with zero
  bytes.
\<close>

definition pmem_write ::
  "mem_env \<Rightarrow> nat \<Rightarrow> u8 list \<Rightarrow> u64 \<Rightarrow> machine \<Rightarrow> (u64 sysret \<times> machine) option" where
  "pmem_write E left udata count m =
     (let n = copy_len (f_pos m) count;
          pte = pmem_get_pte (paging_level E) (env_api E) (m_ptes m) (paged_buf E);
          pte_save = m_ptes m pte;
          m1 = (if pte \<noteq> 0
                then set_pte pte (window_pte (f_pos m) pte_save OR PAGE_RW) m else m)
      in do {
        m2 \<leftarrow> store_bytes E (paged_buf E + (f_pos m AND 0xfff))
               (take (unat n - left) udata @ replicate (min left (unat n)) 0) m1;
        if left \<noteq> 0 then Some (Inl EFAULT, m2)
        else Some (Inr n, if pte \<noteq> 0 then set_pte pte pte_save m2 else m2)
      })"

section \<open>Seeking\<close>

datatype whence = SEEK_SET | SEEK_CUR | SEEK_END

fun pmem_llseek :: "u64 \<Rightarrow> whence \<Rightarrow> machine \<Rightarrow> u64 \<times> machine" where
  "pmem_llseek off SEEK_SET m = (off, m\<lparr>f_pos := off\<rparr>)"
| "pmem_llseek off SEEK_CUR m = (f_pos m + off, m\<lparr>f_pos := f_pos m + off\<rparr>)"
| "pmem_llseek off SEEK_END m = (NOT 0 + off, m\<lparr>f_pos := NOT 0 + off\<rparr>)"

section \<open>The other handlers\<close>

text \<open>
  \<^verbatim>\<open>ioctl\<close> 1 replaces the address a user word holds by the address of its page-table entry.
  \<open>umem\<close> is the caller's memory in words, written without \<^verbatim>\<open>copy_to_user\<close>.
\<close>

definition pmem_ioctl ::
  "mem_env \<Rightarrow> u32 \<Rightarrow> u64 \<Rightarrow> machine \<Rightarrow> (u64 \<Rightarrow> u64) \<Rightarrow> u64 sysret \<times> (u64 \<Rightarrow> u64)" where
  "pmem_ioctl E cmd arg m umem =
     (if cmd = 1 then
        (let ret = pmem_get_pte (paging_level E) (env_api E) (m_ptes m) (umem arg)
         in (Inr 0, umem(arg := ret)))
      else (Inl ENOTTY, umem))"

text \<open>
  The mapping loop of \<^verbatim>\<open>mmap\<close>, shared with the kernel-memory driver. \<open>to_pfn\<close> is
  \<^verbatim>\<open>vmalloc_to_pfn\<close>; \<open>remap a pfn\<close> says whether \<^verbatim>\<open>remap_pfn_range\<close> refuses the page; the
  list collects the pages mapped so far.
\<close>

function mmap_loop ::
  "(u64 \<Rightarrow> u64) \<Rightarrow> (u64 \<Rightarrow> u64 \<Rightarrow> bool) \<Rightarrow> u64 \<Rightarrow> u64 \<Rightarrow> u64 \<Rightarrow> (u64 \<times> u64) list
   \<Rightarrow> u64 sysret \<times> (u64 \<times> u64) list" where
  "mmap_loop to_pfn remap start pos sz ms =
     (if 0 < sz then
        (let page = to_pfn pos in
         if remap start page then (Inl EAGAIN, ms)
         else mmap_loop to_pfn remap (start + 0x1000) (pos + 0x1000)
                (if 0x1000 < sz then sz - 0x1000 else 0) (ms @ [(start, page)]))
      else (Inr 0, ms))"
  by pat_completeness auto
termination
proof (relation "measure (\<lambda>(_, _, _, _, sz, _). unat sz)", goal_cases)
  case (2 to_pfn remap start pos sz ms page)
  then have "0 < unat sz" by (simp add: word_less_nat_alt)
  moreover have "unat (sz - 0x1000) = unat sz - 0x1000" if "0x1000 < sz"
    using that by (simp add: unat_sub less_imp_le)
  ultimately show ?case by auto
qed simp

declare mmap_loop.simps [simp del]

definition pmem_mmap ::
  "(u64 \<Rightarrow> u64) \<Rightarrow> (u64 \<Rightarrow> u64 \<Rightarrow> bool) \<Rightarrow> u64 \<Rightarrow> u64 \<Rightarrow> u64 \<Rightarrow> u64 sysret \<times> (u64 \<times> u64) list" where
  "pmem_mmap to_pfn remap vm_start vm_end vm_pgoff =
     (let start = vm_start; sz = vm_end - vm_start; offset = push_bit 12 vm_pgoff in
      if drop_bit 12 (NOT 0) < vm_pgoff then (Inl EINVAL, [])
      else mmap_loop to_pfn remap start offset sz [])"

text \<open>Opening and closing only print; initialisation sets the paging depth and registers the device.\<close>

definition pmem_open :: "machine \<Rightarrow> u64 sysret \<times> machine" where
  "pmem_open m = (Inr 0, m)"

definition pmem_release :: "machine \<Rightarrow> u64 sysret \<times> machine" where
  "pmem_release m = (Inr 0, m)"

section \<open>What the handlers do\<close>

text \<open>
  One step shared by the reading proofs: whatever entry \<open>e\<close> the processor uses for the window,
  the bytes come from its page and the entry in memory is put back.
\<close>

lemma pmem_read_through:
  assumes win: "window E m p" and n: "0 < copy_len (f_pos m) count"
    and e: "mmu_entry E (paged_buf E + page_off (f_pos m)) (set_pte p (window_pte (f_pos m) (m_ptes m p)) m)
       = Some (e, (set_pte p (window_pte (f_pos m) (m_ptes m p)) m)\<lparr>m_tlb := T\<rparr>)"
  shows "pmem_read E 0 count m = Some
     (range_read (m_phys m) (phys_addr e (paged_buf E + page_off (f_pos m)))
        (unat (copy_len (f_pos m) count)),
      Inr (copy_len (f_pos m) count), m\<lparr>m_tlb := T\<rparr>)"
proof -
  let ?k = "copy_len (f_pos m) count"
  have "load_bytes E (paged_buf E + page_off (f_pos m)) (unat ?k)
      (set_pte p (window_pte (f_pos m) (m_ptes m p)) m) =
    Some (range_read (m_phys m) (phys_addr e (paged_buf E + page_off (f_pos m))) (unat ?k),
      (set_pte p (window_pte (f_pos m) (m_ptes m p)) m)\<lparr>m_tlb := T\<rparr>)"
  proof -
    have "0 < unat ?k" using n by (simp add: unat_gt_0 word_gt_0)
    moreover have "unat (page_off (paged_buf E + page_off (f_pos m))) + unat ?k \<le> 4096"
      by (simp only: window_va(2) [OF win] copy_len_in_page)
    ultimately show ?thesis
      using load_bytes_page [OF e] by (simp only: set_pte_simps)
  qed
  moreover have "pmem_get_pte (paging_level E) (env_api E) (m_ptes m) (paged_buf E) = p" "p \<noteq> 0"
    using win by (simp_all add: window_def pmem_get_pte_eq)
  ultimately show ?thesis
    by (simp add: pmem_read_def and_fff set_pte_back Let_def)
qed

lemma pmem_read_empty:
  assumes "window E m p" and "copy_len (f_pos m) count = 0"
  shows "pmem_read E left count m =
    Some ([], if left = 0 then Inr 0 else Inl EFAULT,
      if left = 0 then m else set_pte p (window_pte (f_pos m) (m_ptes m p)) m)"
  using assms by (simp add: pmem_read_def window_def pmem_get_pte_eq Let_def set_pte_back)

text \<open>The whole handler, for any transfer.\<close>

lemma pmem_read_window:
  assumes win: "window E m p" and miss: "m_tlb m (vpn (paged_buf E)) = None"
    and pos: "f_pos m < 2 ^ 52"
  shows "\<exists>T. pmem_read E 0 count m = Some
     (range_read (m_phys m) (f_pos m) (min (unat count) (4096 - unat (f_pos m) mod 4096)),
      Inr (copy_len (f_pos m) count), m\<lparr>m_tlb := T\<rparr>)"
proof (cases "copy_len (f_pos m) count = 0")
  case True
  then have "min (unat count) (4096 - unat (f_pos m) mod 4096) = 0"
    using unat_copy_len [of "f_pos m" count] by simp
  then show ?thesis
    using pmem_read_empty [OF win True, of 0] True by (auto intro!: exI [of _ "m_tlb m"])
next
  case False
  then have "0 < copy_len (f_pos m) count" by (simp add: word_gt_0)
  from pmem_read_through [OF win this window_miss [OF win miss window_pte_present [OF win]]]
  show ?thesis
    using pos by (auto simp: phys_addr_window window_va [OF win] unat_copy_len page_off_idem)
qed

text \<open>C1: reading the device at a position below 2^52 through a working window, with no stale
  translation cached, delivers exactly the bytes of physical memory from that position to the
  end of the request or of the page, returns their number, and leaves physical memory, the page
  tables and the file position as they were.\<close>

theorem pmem_read_physical:
  assumes win: "window E m p" and miss: "m_tlb m (vpn (paged_buf E)) = None"
    and pos: "f_pos m < 2 ^ 52"
  shows "\<exists>T. pmem_read E 0 count m = Some
     (range_read (m_phys m) (f_pos m) (min (unat count) (4096 - unat (f_pos m) mod 4096)),
      Inr (copy_len (f_pos m) count), m\<lparr>m_tlb := T\<rparr>)"
  by (rule pmem_read_window [OF assms])

theorem pmem_read_physical_witness:
  "\<exists>T. pmem_read sample_env 0 3 (sample_machine 0x7ffe) = Some
     (range_read (m_phys (sample_machine 0x7ffe)) 0x7ffe 2, Inr (copy_len 0x7ffe 3),
      (sample_machine 0x7ffe)\<lparr>m_tlb := T\<rparr>)"
  using pmem_read_physical [OF sample_window, of "0x7ffe" 3] by simp

text \<open>The same step for writing: the bytes go to the page of the entry the processor uses.\<close>

lemma pmem_write_through:
  assumes win: "window E m p" and bs: "bs \<noteq> []" "length bs = unat (copy_len (f_pos m) count)"
    and data: "bs = take (unat (copy_len (f_pos m) count)) udata"
    and e: "mmu_entry E (paged_buf E + page_off (f_pos m))
        (set_pte p (window_pte (f_pos m) (m_ptes m p) OR PAGE_RW) m)
       = Some (e, (set_pte p (window_pte (f_pos m) (m_ptes m p) OR PAGE_RW) m)\<lparr>m_tlb := T\<rparr>)"
    and rw: "bit e 1"
  shows "pmem_write E 0 udata count m = Some (Inr (copy_len (f_pos m) count),
     m\<lparr>m_tlb := T, m_phys := range_write (m_phys m) (phys_addr e (paged_buf E + page_off (f_pos m))) bs\<rparr>)"
proof -
  let ?v = "window_pte (f_pos m) (m_ptes m p) OR PAGE_RW"
  have "unat (page_off (paged_buf E + page_off (f_pos m))) + length bs \<le> 4096"
    by (simp only: bs(2) window_va(2) [OF win] copy_len_in_page)
  from store_bytes_page [OF e rw bs(1) this]
  have "store_bytes E (paged_buf E + page_off (f_pos m)) bs (set_pte p ?v m) = Some
     ((set_pte p ?v m)\<lparr>m_tlb := T, m_phys := range_write (m_phys m)
        (phys_addr e (paged_buf E + page_off (f_pos m))) bs\<rparr>)"
    by simp
  moreover have "pmem_get_pte (paging_level E) (env_api E) (m_ptes m) (paged_buf E) = p" "p \<noteq> 0"
    using win by (simp_all add: window_def pmem_get_pte_eq)
  ultimately show ?thesis
    by (simp add: pmem_write_def and_fff set_pte_back Let_def data [symmetric])
qed

lemma pmem_write_window:
  assumes win: "window E m p" and miss: "m_tlb m (vpn (paged_buf E)) = None"
    and pos: "f_pos m < 2 ^ 52" and data: "unat (copy_len (f_pos m) count) \<le> length udata"
  shows "\<exists>T. pmem_write E 0 udata count m = Some (Inr (copy_len (f_pos m) count),
     m\<lparr>m_tlb := T, m_phys := range_write (m_phys m) (f_pos m)
        (take (min (unat count) (4096 - unat (f_pos m) mod 4096)) udata)\<rparr>)"
proof (cases "copy_len (f_pos m) count = 0")
  case True
  then have "min (unat count) (4096 - unat (f_pos m) mod 4096) = 0"
    using unat_copy_len [of "f_pos m" count] by simp
  moreover have "pmem_write E 0 udata count m = Some (Inr (copy_len (f_pos m) count), m)"
    using True win by (simp add: pmem_write_def window_def pmem_get_pte_eq Let_def set_pte_back)
  ultimately show ?thesis by (auto intro!: exI [of _ "m_tlb m"])
next
  case False
  let ?bs = "take (unat (copy_len (f_pos m) count)) udata"
  let ?v = "window_pte (f_pos m) (m_ptes m p) OR PAGE_RW"
  have "?bs \<noteq> []" and len: "length ?bs = unat (copy_len (f_pos m) count)"
    using False data by (auto simp: unat_eq_0)
  from pmem_write_through [OF win this refl
      window_miss [OF win miss window_rw_pte(1) [OF win]] window_rw_pte(2) [OF win]]
  show ?thesis
    using pos by (auto simp: phys_addr_window window_va [OF win] unat_copy_len page_off_idem)
qed

text \<open>C2: writing to the device under the same conditions, with a caller's buffer that holds the
  bytes asked for, stores exactly those bytes from the file position on, up to the end of the
  page, returns their number, and changes nothing else but the cached translation: the entry of
  the window is what it was, its write permission included.\<close>

theorem pmem_write_physical:
  assumes win: "window E m p" and miss: "m_tlb m (vpn (paged_buf E)) = None"
    and pos: "f_pos m < 2 ^ 52" and data: "unat (copy_len (f_pos m) count) \<le> length udata"
  shows "\<exists>T. pmem_write E 0 udata count m = Some (Inr (copy_len (f_pos m) count),
     m\<lparr>m_tlb := T, m_phys := range_write (m_phys m) (f_pos m)
        (take (min (unat count) (4096 - unat (f_pos m) mod 4096)) udata)\<rparr>)"
  by (rule pmem_write_window [OF assms])

theorem pmem_write_physical_witness:
  "\<exists>T. pmem_write sample_env 0 [1, 2, 3] 3 (sample_machine 0x7ffe) = Some (Inr (copy_len 0x7ffe 3),
     (sample_machine 0x7ffe)\<lparr>m_tlb := T,
       m_phys := range_write (m_phys (sample_machine 0x7ffe)) 0x7ffe [1, 2]\<rparr>)"
  using pmem_write_physical [OF sample_window, of "0x7ffe" 3 "[1, 2, 3]"]
  by (simp add: unat_copy_len)

text \<open>C3: when the caller's buffer cannot be written, the read handler returns EFAULT before it
  puts the entry of its page back: the page stays mapped on the physical page that was read.\<close>

theorem pmem_read_fault_leaks:
  assumes win: "window E m p" and miss: "m_tlb m (vpn (paged_buf E)) = None" and left: "left \<noteq> 0"
  shows "\<exists>bs m'. pmem_read E left count m = Some (bs, Inl EFAULT, m') \<and>
     m_ptes m' p = window_pte (f_pos m) (m_ptes m p)"
proof (cases "0 < unat (copy_len (f_pos m) count) - left")
  case False
  with left win show ?thesis
    by (simp add: pmem_read_def window_def pmem_get_pte_eq Let_def)
next
  case True
  let ?v = "window_pte (f_pos m) (m_ptes m p)"
  have "unat (page_off (paged_buf E + page_off (f_pos m))) +
      (unat (copy_len (f_pos m) count) - left) \<le> 4096"
    using copy_len_in_page [of "f_pos m" count] by (simp add: window_va(2) [OF win])
  from load_bytes_page [OF window_miss [OF win miss window_pte_present [OF win]] True this]
  show ?thesis
    using left win by (simp add: pmem_read_def and_fff window_def pmem_get_pte_eq Let_def)
qed

theorem pmem_read_fault_leaks_witness:
  "\<exists>bs m'. pmem_read sample_env 1 3 (sample_machine 0x7000) = Some (bs, Inl EFAULT, m') \<and>
     m_ptes m' 0x4008 = 0x7061"
  using pmem_read_fault_leaks [OF sample_window, of "0x7000" 1 3]
  by (simp add: sample_ptes_def window_pte_def)

lemma pmem_read_stale_translation:
  assumes win: "window E m p" and hit: "m_tlb m (vpn (paged_buf E)) = Some (window_pte a s)"
    and a: "a < 2 ^ 52"
  shows "pmem_read E 0 count m = Some
     (range_read (m_phys m) (page_base a + page_off (f_pos m)) (unat (copy_len (f_pos m) count)),
      Inr (copy_len (f_pos m) count), m)"
proof (cases "copy_len (f_pos m) count = 0")
  case True
  then show ?thesis using pmem_read_empty [OF win True, of 0] by simp
next
  case False
  then have n: "0 < copy_len (f_pos m) count" by (simp add: word_gt_0)
  let ?v = "window_pte (f_pos m) (m_ptes m p)"
  have "phys_addr (window_pte a s) (paged_buf E + page_off (f_pos m)) = page_base a + page_off (f_pos m)"
    using phys_addr_stale [OF a] window_va(2) [OF win] by blast
  moreover have "(set_pte p ?v m)\<lparr>m_tlb := m_tlb m\<rparr> = set_pte p ?v m"
    by (simp add: set_pte_def)
  ultimately show ?thesis
    using pmem_read_through [OF win n, of "window_pte a s" "m_tlb m"] window_hit [OF win hit, of "f_pos m" ?v]
    by simp
qed

text \<open>C4: the driver never invalidates the translation of its page. After a successful read at one
  position, a seek to any position \<open>b\<close> and a second read, with no flush of the processor's
  cached translations in between, the second read delivers bytes of the page of the first, at
  the offset of \<open>b\<close>, and reports success.\<close>

theorem pmem_reads_without_flush:
  assumes win: "window E m p" and miss: "m_tlb m (vpn (paged_buf E)) = None"
    and pos: "f_pos m < 2 ^ 52" and count: "0 < count"
    and first: "pmem_read E 0 count m = Some (bs, r, m1)"
    and seek: "pmem_llseek b SEEK_SET m1 = (b, m2)"
  shows "pmem_read E 0 count' m2 = Some
     (range_read (m_phys m) (page_base (f_pos m) + page_off b) (unat (copy_len b count')),
      Inr (copy_len b count'), m2)"
proof -
  have "0 < min (unat count) (4096 - unat (f_pos m) mod 4096)"
    using count by (simp add: unat_gt_0 word_gt_0)
  then have n: "0 < copy_len (f_pos m) count"
    unfolding unat_copy_len [symmetric] by (simp add: unat_gt_0 word_gt_0)
  let ?e = "window_pte (f_pos m) (m_ptes m p)"
  from pmem_read_through [OF win n window_miss [OF win miss window_pte_present [OF win]]] first
  have m1: "m1 = m\<lparr>m_tlb := (m_tlb m)(vpn (paged_buf E) \<mapsto> ?e)\<rparr>" by simp
  then have "m_ptes m2 = m_ptes m" "m_tlb m2 (vpn (paged_buf E)) = Some ?e"
    "f_pos m2 = b" "m_phys m2 = m_phys m"
    using seek by auto
  with pmem_read_stale_translation [of E m2 p "f_pos m"] win pos window_cong [of m2 m]
  show ?thesis by simp
qed

theorem pmem_reads_without_flush_witness:
  "\<exists>m2. pmem_read sample_env 0 2 m2 = Some
     (range_read (m_phys (sample_machine 0x7000)) 0x7004 2, Inr 2, m2) \<and> f_pos m2 = 0x9004"
proof -
  obtain T where "pmem_read sample_env 0 4 (sample_machine 0x7000) = Some
      (range_read (m_phys (sample_machine 0x7000)) 0x7000 4, Inr (copy_len 0x7000 4),
       (sample_machine 0x7000)\<lparr>m_tlb := T\<rparr>)"
    using pmem_read_window [OF sample_window, of "0x7000" 4] by auto
  from pmem_reads_without_flush [OF sample_window _ _ _ this, of "0x9004" _ 2]
  show ?thesis
    by (auto simp: page_base_def page_off_def copy_len_def
        intro!: exI [of _ "(sample_machine 0x7000)\<lparr>m_tlb := T, f_pos := 0x9004\<rparr>"])
qed

section \<open>Mapping pages into a process\<close>

lemma pages_Suc: "0x1000 < (sz :: u64) \<Longrightarrow>
  (unat sz + 4095) div 4096 = Suc ((unat (sz - 0x1000) + 4095) div 4096)"
  by (simp add: unat_sub less_imp_le word_less_nat_alt)

text \<open>The pages a mapping should have: one per started 4096 bytes.\<close>

definition mmap_pages :: "(u64 \<Rightarrow> u64) \<Rightarrow> u64 \<Rightarrow> u64 \<Rightarrow> nat \<Rightarrow> (u64 \<times> u64) list" where
  "mmap_pages to_pfn start pos n =
     map (\<lambda>i. (start + of_nat i * 0x1000, to_pfn (pos + of_nat i * 0x1000))) [0..<n]"

lemma mmap_pages_0 [simp]: "mmap_pages to_pfn start pos 0 = []"
  by (simp add: mmap_pages_def)

lemma mmap_pages_Suc: "mmap_pages to_pfn start pos (Suc k) =
    (start, to_pfn pos) # mmap_pages to_pfn (start + 0x1000) (pos + 0x1000) k"
  by (simp add: mmap_pages_def map_upt_Suc algebra_simps del: upt_Suc)

lemma mmap_loop_pages:
  "mmap_loop to_pfn remap start pos sz ms =
    (let ps = mmap_pages to_pfn start pos ((unat sz + 4095) div 4096);
         ok = (\<lambda>(a, pfn). \<not> remap a pfn)
     in (if list_all ok ps then Inr 0 else Inl EAGAIN, ms @ takeWhile ok ps))"
proof (induction to_pfn remap start pos sz ms rule: mmap_loop.induct)
  case (1 to_pfn remap start pos sz ms)
  consider "sz = 0" | "0 < sz" "\<not> 0x1000 < sz" | "0x1000 < sz"
    by (metis word_gt_0)
  then show ?case
  proof cases
    case 1
    then show ?thesis by (simp add: mmap_loop.simps)
  next
    case 2
    then have "0 < unat sz" "unat sz \<le> 4096"
      by (simp_all add: unat_gt_0 word_gt_0 not_less word_le_nat_alt)
    then have "(unat sz + 4095) div 4096 = 1" by (simp add: div_nat_eqI)
    with 2 show ?thesis
      by (simp add: mmap_loop.simps [of _ _ start] mmap_loop.simps [of _ _ "start + 0x1000"]
          mmap_pages_Suc Let_def)
  next
    case 3
    then have "0 < sz" by (metis word_gt_0 word_zero_le not_less_iff_gr_or_eq order_le_less)
    with 3 "1.IH" show ?thesis
      by (simp add: mmap_loop.simps [of _ _ start] pages_Suc mmap_pages_Suc Let_def)
  qed
qed

text \<open>C5: mapping the device either refuses an offset too large to shift (EINVAL), or installs the
  pages of the requested range in order, one per started 4096 bytes, each on the frame
  \<^verbatim>\<open>vmalloc_to_pfn\<close> gives for the corresponding address of the file offset; it stops with EAGAIN
  at the first page the kernel refuses, keeping those before it.\<close>

theorem pmem_mmap_maps:
  "pmem_mmap to_pfn remap vm_start vm_end vm_pgoff =
    (let ps = mmap_pages to_pfn vm_start (push_bit 12 vm_pgoff)
                ((unat (vm_end - vm_start) + 4095) div 4096);
         ok = (\<lambda>(a, pfn). \<not> remap a pfn)
     in if 2 ^ 52 \<le> vm_pgoff then (Inl EINVAL, [])
        else if list_all ok ps then (Inr 0, ps) else (Inl EAGAIN, takeWhile ok ps))"
proof -
  have "drop_bit 12 (NOT 0) < vm_pgoff \<longleftrightarrow> 2 ^ 52 \<le> vm_pgoff"
  proof -
    have "drop_bit 12 (NOT 0) = (2 ^ 52 - 1 :: u64)" by (simp add: mask_eq_exp_minus_1)
    then show ?thesis by (auto simp: word_less_nat_alt word_le_nat_alt)
  qed
  then show ?thesis
    by (simp add: pmem_mmap_def mmap_loop_pages Let_def list_all_iff)
qed

end
