(* ===== verification/Kmem.thy ===== *)
theory Kmem
  imports Pmem
begin

text \<open>
  The kernel-memory driver, \<^verbatim>\<open>src/kmem/kmem.c\<close>, as it is built for x86-64. A file position is
  a kernel address with its top four bits cut off (\<open>kmem_llseek\<close>); the handlers put them back
  (\<open>kmem_addr\<close>), find the frame of the address (\<open>kmem_phys\<close>: by a page-table walk, or by
  \<^verbatim>\<open>virt_to_phys\<close> for the range of the kernel image) and move the bytes through the window.
  An address with no page-table entry is a null dereference: the result \<open>None\<close>.
\<close>

section \<open>Addresses\<close>

definition kmem_addr :: "u64 \<Rightarrow> u64" where
  "kmem_addr pos = (if pos AND 0x0f00000000000000 \<noteq> 0 then pos OR 0xf000000000000000 else pos)"

definition kmem_phys :: "mem_env \<Rightarrow> ptes \<Rightarrow> u64 \<Rightarrow> u64 option" where
  "kmem_phys E t addr =
     (let by_walk = (let pte = kmem_get_pte (paging_level E) (env_api E) t addr
                     in if pte = 0 then None else Some (t pte AND NOT 0xfff))
      in if addr < 0xffffffff80000000 then by_walk
         else if addr < 0xffffffffc0000000 then Some (virt_to_phys E addr)
         else by_walk)"

fun kmem_llseek :: "u64 \<Rightarrow> whence \<Rightarrow> machine \<Rightarrow> u64 \<times> machine" where
  "kmem_llseek off w m =
     (let pos = (case w of SEEK_SET \<Rightarrow> off | SEEK_CUR \<Rightarrow> f_pos m + off | SEEK_END \<Rightarrow> NOT 0 + off);
          pos = pos AND 0x0fffffffffffffff
      in (pos, m\<lparr>f_pos := pos\<rparr>))"

section \<open>The handlers\<close>

definition kmem_read :: "mem_env \<Rightarrow> nat \<Rightarrow> u64 \<Rightarrow> machine \<Rightarrow> (u8 list \<times> u64 sysret \<times> machine) option" where
  "kmem_read E left count m =
     (let addr = kmem_addr (f_pos m); n = copy_len (f_pos m) count in do {
        phy_addr \<leftarrow> kmem_phys E (m_ptes m) addr;
        let pte = kmem_get_pte (paging_level E) (env_api E) (m_ptes m) (paged_buf E);
        let pte_save = m_ptes m pte;
        let m1 = (if pte \<noteq> 0 then set_pte pte (window_pte phy_addr pte_save) m else m);
        (bs, m2) \<leftarrow> load_bytes E (paged_buf E + (f_pos m AND 0xfff)) (unat n - left) m1;
        if left \<noteq> 0 then Some (bs, Inl EFAULT, m2)
        else Some (bs, Inr n, if pte \<noteq> 0 then set_pte pte pte_save m2 else m2)
      })"

text \<open>
  Writing first collects the caller's bytes in a buffer on the stack, after the window was
  opened, and then copies them into the window.
\<close>

definition kmem_write ::
  "mem_env \<Rightarrow> nat \<Rightarrow> u8 list \<Rightarrow> u64 \<Rightarrow> machine \<Rightarrow> (u64 sysret \<times> machine) option" where
  "kmem_write E left udata count m =
     (let addr = kmem_addr (f_pos m); n = copy_len (f_pos m) count in do {
        phy_addr \<leftarrow> kmem_phys E (m_ptes m) addr;
        let pte = kmem_get_pte (paging_level E) (env_api E) (m_ptes m) (paged_buf E);
        let pte_save = m_ptes m pte;
        let m1 = (if pte \<noteq> 0
                  then set_pte pte (window_pte phy_addr pte_save OR PAGE_RW) m else m);
        let tbuf = take (unat n) udata;
        if left \<noteq> 0 then Some (Inl EFAULT, m1)
        else do {
          m2 \<leftarrow> store_bytes E (paged_buf E + (f_pos m AND 0xfff)) tbuf m1;
          Some (Inr n, if pte \<noteq> 0 then set_pte pte pte_save m2 else m2)
        }
      })"

definition kmem_ioctl :: "u32 \<Rightarrow> u64 \<Rightarrow> u64 sysret" where
  "kmem_ioctl cmd arg = Inl ENOTTY"

definition kmem_mmap ::
  "(u64 \<Rightarrow> u64) \<Rightarrow> (u64 \<Rightarrow> u64 \<Rightarrow> bool) \<Rightarrow> u64 \<Rightarrow> u64 \<Rightarrow> u64 \<Rightarrow> u64 sysret \<times> (u64 \<times> u64) list" where
  "kmem_mmap to_pfn remap vm_start vm_end vm_pgoff =
     (let start = vm_start; sz = vm_end - vm_start; offset = push_bit 12 vm_pgoff in
      if drop_bit 12 (NOT 0) < vm_pgoff then (Inl EINVAL, [])
      else mmap_loop to_pfn remap start offset sz [])"

definition kmem_open :: "machine \<Rightarrow> u64 sysret \<times> machine" where
  "kmem_open m = (Inr 0, m)"

definition kmem_release :: "machine \<Rightarrow> u64 sysret \<times> machine" where
  "kmem_release m = (Inr 0, m)"

section \<open>The file position and the address\<close>

lemma bit_numeral_mask_tests:
  "bit (0x0fffffffffffffff :: u64) n \<longleftrightarrow> n < 60"
  "bit (0x0f00000000000000 :: u64) n \<longleftrightarrow> 56 \<le> n \<and> n < 60"
  "bit (0xf000000000000000 :: u64) n \<longleftrightarrow> 60 \<le> n \<and> n < 64"
proof -
  have "(0x0fffffffffffffff :: u64) = mask 60" "(0x0f00000000000000 :: u64) = mask 60 AND NOT (mask 56)"
    "(0xf000000000000000 :: u64) = NOT (mask 60)"
    by (simp_all add: mask_eq_exp_minus_1)
  then show "bit (0x0fffffffffffffff :: u64) n \<longleftrightarrow> n < 60"
    "bit (0x0f00000000000000 :: u64) n \<longleftrightarrow> 56 \<le> n \<and> n < 60"
    "bit (0xf000000000000000 :: u64) n \<longleftrightarrow> 60 \<le> n \<and> n < 64"
    by (simp_all only: bit_and_iff bit_not_iff bit_mask_iff) (auto simp: bit_simps)
qed

definition canonical57 :: "u64 \<Rightarrow> bool" where
  "canonical57 a \<longleftrightarrow> (\<forall>n \<in> {56..<64}. bit a n = bit a 63)"

lemma kmem_addr_roundtrip:
  assumes "canonical57 a"
  shows "kmem_addr (a AND 0x0fffffffffffffff) = a"
proof (cases "bit a 63")
  case True
  then have top: "bit a n" if "56 \<le> n" "n < 64" for n
    using assms that by (auto simp: canonical57_def)
  have "bit ((a AND 0x0fffffffffffffff) AND 0x0f00000000000000) 56"
    using top [of 56] by (simp add: bit_and_iff bit_numeral_mask_tests)
  then have "(a AND 0x0fffffffffffffff) AND 0x0f00000000000000 \<noteq> 0" by (metis bit_0_eq bot_apply bot_bool_def)
  moreover have "(a AND 0x0fffffffffffffff) OR 0xf000000000000000 = a"
    by (rule bit_word_eqI) (auto simp: bit_or_iff bit_and_iff bit_numeral_mask_tests intro: top simp del: bit_numeral_word_iff)
  ultimately show ?thesis by (simp add: kmem_addr_def)
next
  case False
  then have top: "\<not> bit a n" if "56 \<le> n" "n < 64" for n
    using assms that by (auto simp: canonical57_def)
  have "(a AND 0x0fffffffffffffff) AND 0x0f00000000000000 = 0"
    by (rule bit_word_eqI) (auto simp: bit_and_iff bit_numeral_mask_tests top simp del: bit_numeral_word_iff)
  moreover have "n < 60" if "bit a n" for n
    using top [of n] that bit_imp_le_length [OF that] by force
  then have "a AND 0x0fffffffffffffff = a"
    by (intro bit_word_eqI)
      (auto simp: bit_and_iff bit_numeral_mask_tests simp del: bit_numeral_word_iff)
  ultimately show ?thesis by (simp add: kmem_addr_def)
qed

lemma kmem_seek_address_facts:
  assumes "canonical57 a"
  shows "kmem_addr (f_pos (snd (kmem_llseek a SEEK_SET m))) = a"
    and "page_off (f_pos (snd (kmem_llseek a SEEK_SET m))) = page_off a"
proof -
  show "kmem_addr (f_pos (snd (kmem_llseek a SEEK_SET m))) = a"
    using kmem_addr_roundtrip [OF assms] by (simp add: Let_def)
  show "page_off (f_pos (snd (kmem_llseek a SEEK_SET m))) = page_off a"
    by (rule bit_word_eqI)
      (auto simp: bit_page_off bit_and_iff bit_numeral_mask_tests Let_def simp del: bit_numeral_word_iff)
qed

text \<open>C9: for every address that is canonical at either paging depth, seeking to it succeeds with a
  non-negative position, and the address the handlers rebuild from that position is the address
  itself.\<close>

theorem kmem_seek_address:
  assumes "canonical57 a" and "kmem_llseek a SEEK_SET m = (r, m')"
  shows "kmem_addr (f_pos m') = a \<and> r = f_pos m' \<and> \<not> bit r 63 \<and> page_off (f_pos m') = page_off a"
proof -
  have "r = a AND 0x0fffffffffffffff" "f_pos m' = r" "m' = snd (kmem_llseek a SEEK_SET m)"
    using assms(2) by (auto simp: Let_def)
  moreover have "\<not> bit (a AND 0x0fffffffffffffff) 63"
    by (simp add: bit_and_iff bit_numeral_mask_tests del: bit_numeral_word_iff)
  ultimately show ?thesis using kmem_seek_address_facts [OF assms(1)] by metis
qed

theorem kmem_seek_address_witness:
  "\<exists>r m'. kmem_llseek 0xffffffff81000123 SEEK_SET (sample_machine 0) = (r, m') \<and>
     kmem_addr (f_pos m') = 0xffffffff81000123 \<and> \<not> bit r 63"
proof -
  have "canonical57 0xffffffff81000123"
    by (auto simp: canonical57_def atLeastLessThan_nat_numeral atLeastLessThanSuc numeral_eq_Suc)
  from kmem_seek_address [OF this, of "sample_machine 0"] show ?thesis by (auto simp: Let_def)
qed

section \<open>Reading and writing kernel memory\<close>

lemma page_off_kmem_addr: "page_off (kmem_addr pos) = page_off pos"
  by (rule bit_word_eqI)
    (auto simp: kmem_addr_def bit_page_off bit_or_iff bit_numeral_mask_tests simp del: bit_numeral_word_iff)

lemma window_get_pte:
  "window E m p \<Longrightarrow> kmem_get_pte (paging_level E) (env_api E) (m_ptes m) (paged_buf E) = p \<and> p \<noteq> 0"
  by (simp add: window_def)

lemma kmem_read_through:
  assumes win: "window E m p" and miss: "m_tlb m (vpn (paged_buf E)) = None"
    and pa: "kmem_phys E (m_ptes m) (kmem_addr (f_pos m)) = Some pa"
  shows "\<exists>T. kmem_read E 0 count m = Some
    (range_read (m_phys m) ((pa AND phys_mask) OR page_off (f_pos m)) (unat (copy_len (f_pos m) count)),
     Inr (copy_len (f_pos m) count), m\<lparr>m_tlb := T\<rparr>)"
proof (cases "copy_len (f_pos m) count = 0")
  case True
  then show ?thesis
    using window_get_pte [OF win] pa
    by (auto simp: kmem_read_def Let_def set_pte_back intro!: exI [of _ "m_tlb m"])
next
  case False
  then have "0 < unat (copy_len (f_pos m) count)" by (simp add: unat_gt_0)
  from window_load [OF win miss this copy_len_in_page]
  show ?thesis
    using window_get_pte [OF win] pa
    by (auto simp: kmem_read_def and_fff Let_def set_pte_back)
qed

lemma kmem_write_through:
  assumes win: "window E m p" and miss: "m_tlb m (vpn (paged_buf E)) = None"
    and pa: "kmem_phys E (m_ptes m) (kmem_addr (f_pos m)) = Some pa"
  shows "\<exists>T. kmem_write E 0 udata count m = Some (Inr (copy_len (f_pos m) count),
    m\<lparr>m_tlb := T, m_phys := range_write (m_phys m) ((pa AND phys_mask) OR page_off (f_pos m))
        (take (unat (copy_len (f_pos m) count)) udata)\<rparr>)"
proof (cases "take (unat (copy_len (f_pos m) count)) udata = []")
  case True
  then show ?thesis
    using window_get_pte [OF win] pa
    by (auto simp: kmem_write_def Let_def set_pte_back intro!: exI [of _ "m_tlb m"])
next
  case False
  have "unat (page_off (f_pos m)) + length (take (unat (copy_len (f_pos m) count)) udata) \<le> 4096"
    using copy_len_in_page [of "f_pos m" count] by simp
  from window_store [OF win miss False this]
  show ?thesis
    using window_get_pte [OF win] pa
    by (auto simp: kmem_write_def and_fff Let_def set_pte_back)
qed

text \<open>
  Outside the range of the kernel image the frame comes from the page tables. \<open>mapped_leaf\<close>:
  the walk finds the entry the processor uses for the address, and the entry is present.
\<close>

definition image_range :: "u64 \<Rightarrow> bool" where
  "image_range a \<longleftrightarrow> 0xffffffff80000000 \<le> a \<and> a < 0xffffffffc0000000"

definition mapped_leaf :: "mem_env \<Rightarrow> ptes \<Rightarrow> u64 \<Rightarrow> u64 \<Rightarrow> bool" where
  "mapped_leaf E t a q \<longleftrightarrow> q \<noteq> 0 \<and> kmem_get_pte (paging_level E) (env_api E) t a = q \<and>
     env_leaf E t a = Some q \<and> bit (t q) 0"

lemma kmem_phys_walk:
  "\<not> image_range a \<Longrightarrow> kmem_phys E t a =
    (let pte = kmem_get_pte (paging_level E) (env_api E) t a
     in if pte = 0 then None else Some (page_base (t pte)))"
  by (auto simp: kmem_phys_def image_range_def Let_def not_le page_base_def)

lemma frame_of_leaf: "(page_base e AND phys_mask) OR page_off a = phys_addr e a"
proof -
  have "page_base e AND phys_mask = e AND phys_mask"
    by (rule bit_word_eqI) (auto simp: bit_and_iff bit_phys_mask bit_page_base)
  then show ?thesis by (simp add: phys_addr_def)
qed

text \<open>C10: at a position that stands for a mapped address outside the kernel image, reading the
  device delivers what the processor itself loads from that address on, up to the end of the
  request or of the page, and leaves memory, page tables and position unchanged.\<close>

theorem kmem_read_cpu_view:
  assumes win: "window E m p" and miss: "m_tlb m (vpn (paged_buf E)) = None"
    and addr: "kmem_addr (f_pos m) = a" "\<not> image_range a" and leaf: "mapped_leaf E (m_ptes m) a q"
  shows "\<exists>bs m' T. load_bytes E a (unat (copy_len (f_pos m) count)) (tlb_flush m) = Some (bs, m') \<and>
    kmem_read E 0 count m = Some (bs, Inr (copy_len (f_pos m) count), m\<lparr>m_tlb := T\<rparr>)"
proof -
  let ?n = "copy_len (f_pos m) count"
  have off: "page_off (f_pos m) = page_off a" using page_off_kmem_addr addr(1) by metis
  have "kmem_phys E (m_ptes m) (kmem_addr (f_pos m)) = Some (page_base (m_ptes m q))"
    using leaf addr by (simp add: kmem_phys_walk mapped_leaf_def)
  from kmem_read_through [OF win miss this] obtain T where
    T: "kmem_read E 0 count m = Some
      (range_read (m_phys m) (phys_addr (m_ptes m q) a) (unat ?n), Inr ?n, m\<lparr>m_tlb := T\<rparr>)"
    by (auto simp: frame_of_leaf off)
  show ?thesis
  proof (cases "?n = 0")
    case True
    with T show ?thesis by auto
  next
    case False
    have "mmu_entry E a (tlb_flush m) =
        Some (m_ptes m q, (tlb_flush m)\<lparr>m_tlb := (m_tlb (tlb_flush m))(vpn a \<mapsto> m_ptes m q)\<rparr>)"
      using leaf by (subst mmu_entry_miss [where p = q]) (auto simp: tlb_flush_def mapped_leaf_def)
    from load_bytes_page [OF this] False copy_len_in_page [of "f_pos m" count]
    have "\<exists>m'. load_bytes E a (unat ?n) (tlb_flush m) =
        Some (range_read (m_phys m) (phys_addr (m_ptes m q) a) (unat ?n), m')"
      by (simp add: off unat_gt_0 tlb_flush_def)
    with T show ?thesis by blast
  qed
qed

lemma sample_leaf:
  "mapped_leaf sample_env sample_ptes 0x2ffe 0x4010"
  "kmem_get_pte 4 (x86_api False 0 0x1000) sample_ptes 0x3000 = 0"
  "sample_ptes 0x4010 = 0x6061"
  by (simp_all add: mapped_leaf_def sample_env_def x86_env_def kmem_get_pte_def kmem_get_pte4_def
      x86_api_def x86_none_def sample_ptes_def phys_mask_def hw_entry_def hw_index_def hw_table_def Let_def)

lemma sample_addr: "\<not> image_range 0x2ffe" "\<not> image_range 0x3000" "kmem_addr 0x2ffe = 0x2ffe"
  "kmem_addr 0x3000 = 0x3000"
  by (simp_all add: image_range_def kmem_addr_def)

theorem kmem_read_cpu_view_witness:
  "\<exists>bs m' T. load_bytes sample_env 0x2ffe 2 (tlb_flush (sample_machine 0x2ffe)) = Some (bs, m') \<and>
    kmem_read sample_env 0 9 (sample_machine 0x2ffe) = Some (bs, Inr 2, (sample_machine 0x2ffe)\<lparr>m_tlb := T\<rparr>)"
  using kmem_read_cpu_view [OF sample_window, of "0x2ffe" "0x2ffe" "0x4010" 9]
  by (simp add: sample_leaf sample_addr copy_len_def)

text \<open>C11: under the same conditions writing stores the caller's bytes at the physical address the
  processor uses for the address, whether or not its entry allows writing, and changes nothing
  else.\<close>

theorem kmem_write_cpu_view:
  assumes win: "window E m p" and miss: "m_tlb m (vpn (paged_buf E)) = None"
    and addr: "kmem_addr (f_pos m) = a" "\<not> image_range a" and leaf: "mapped_leaf E (m_ptes m) a q"
  shows "\<exists>T. kmem_write E 0 udata count m = Some (Inr (copy_len (f_pos m) count),
    m\<lparr>m_tlb := T, m_phys := range_write (m_phys m) (phys_addr (m_ptes m q) a)
       (take (unat (copy_len (f_pos m) count)) udata)\<rparr>)"
proof -
  have off: "page_off (f_pos m) = page_off a" using page_off_kmem_addr addr(1) by metis
  have "kmem_phys E (m_ptes m) (kmem_addr (f_pos m)) = Some (page_base (m_ptes m q))"
    using leaf addr by (simp add: kmem_phys_walk mapped_leaf_def)
  from kmem_write_through [OF win miss this] show ?thesis
    by (simp add: frame_of_leaf off)
qed

theorem kmem_write_cpu_view_witness:
  "\<exists>T. kmem_write sample_env 0 [7, 8, 9] 3 (sample_machine 0x2ffe) = Some (Inr 2,
    (sample_machine 0x2ffe)\<lparr>m_tlb := T,
       m_phys := range_write (m_phys (sample_machine 0x2ffe)) 0x6ffe [7, 8]\<rparr>)"
  using kmem_write_cpu_view [OF sample_window, of "0x2ffe" "0x2ffe" "0x4010" "[7, 8, 9]" 3]
  by (simp add: sample_leaf sample_addr copy_len_def phys_addr_def phys_mask_def page_off_def)

text \<open>At a position that stands for an address without a page-table entry, outside the kernel
  image, both handlers dereference a null pointer: no request at all survives it.\<close>

theorem kmem_unmapped_crashes:
  assumes "\<not> image_range (kmem_addr (f_pos m))"
    and "kmem_get_pte (paging_level E) (env_api E) (m_ptes m) (kmem_addr (f_pos m)) = 0"
  shows "kmem_read E left count m = None \<and> kmem_write E left udata count m = None"
  using assms by (simp add: kmem_read_def kmem_write_def kmem_phys_walk)

theorem kmem_unmapped_crashes_witness:
  "kmem_read sample_env 0 1 (sample_machine 0x3000) = None \<and>
   kmem_write sample_env 0 [0] 1 (sample_machine 0x3000) = None"
  by (rule kmem_unmapped_crashes)
    (simp_all add: sample_addr sample_leaf sample_env_def x86_env_def)

text \<open>When the caller's buffer cannot be read, the write handler returns EFAULT with its page
  still mapped, writable, on the frame it was about to write.\<close>

theorem kmem_write_fault_leaks:
  assumes win: "window E m p" and left: "left \<noteq> 0"
    and pa: "kmem_phys E (m_ptes m) (kmem_addr (f_pos m)) = Some pa"
  shows "\<exists>m'. kmem_write E left udata count m = Some (Inl EFAULT, m') \<and>
    m_ptes m' p = window_pte pa (m_ptes m p) OR PAGE_RW"
  using assms window_get_pte [OF win] by (simp add: kmem_write_def Let_def)

theorem kmem_write_fault_leaks_witness:
  "\<exists>m'. kmem_write sample_env 1 [1, 2] 2 (sample_machine 0x2ffe) = Some (Inl EFAULT, m') \<and>
    m_ptes m' 0x4008 = 0x6063"
proof -
  have "kmem_phys sample_env (m_ptes (sample_machine 0x2ffe)) (kmem_addr (f_pos (sample_machine 0x2ffe)))
      = Some 0x6000"
    using sample_leaf(1)
    by (simp add: sample_addr kmem_phys_walk mapped_leaf_def sample_ptes_def page_base_def)
  from kmem_write_fault_leaks [OF sample_window _ this, of 1 "[1, 2]" 2]
  show ?thesis by (simp add: sample_ptes_def window_pte_def PAGE_RW_def)
qed

end
