(* ===== verification/Driver_Load.thy ===== *)
theory Driver_Load
  imports Pmem Kmem
begin

text \<open>
  Loading and unloading the two memory drivers: \<^verbatim>\<open>pmem_init\<close>, \<^verbatim>\<open>pmem_cleanup\<close> of
  \<^verbatim>\<open>src/pmem/pmem.c\<close> and their counterparts of \<^verbatim>\<open>src/kmem/kmem.c\<close>. Loading reads the paging
  depth off the control registers; that makes the window of the handlers work on a processor
  with four or with five levels.
\<close>

record driver =
  d_env :: mem_env
  registered :: bool

text \<open>\<open>misc\<close> is the answer of \<^verbatim>\<open>misc_register\<close>, \<open>junk3\<close> and \<open>junk4\<close> what the locals held.\<close>

definition pmem_init :: "u64 \<Rightarrow> u64 \<Rightarrow> u64 \<Rightarrow> u64 \<Rightarrow> int \<Rightarrow> driver \<Rightarrow> int \<times> driver" where
  "pmem_init junk3 junk4 cr3 cr4 misc D =
     (let D = D\<lparr>d_env := (d_env D)\<lparr>paging_level := pmem_get_paging_level junk3 junk4 cr3 cr4\<rparr>\<rparr>;
          ret = misc
      in if ret \<noteq> 0 then (ret, D) else (0, D\<lparr>registered := True\<rparr>))"

definition pmem_cleanup :: "driver \<Rightarrow> driver" where
  "pmem_cleanup D = D\<lparr>registered := False\<rparr>"

definition kmem_init :: "u64 \<Rightarrow> u64 \<Rightarrow> u64 \<Rightarrow> u64 \<Rightarrow> int \<Rightarrow> driver \<Rightarrow> int \<times> driver" where
  "kmem_init junk3 junk4 cr3 cr4 misc D =
     (let D = D\<lparr>d_env := (d_env D)\<lparr>paging_level := kmem_get_paging_level junk3 junk4 cr3 cr4\<rparr>\<rparr>;
          ret = misc
      in if ret \<noteq> 0 then (ret, D) else (0, D\<lparr>registered := True\<rparr>))"

definition kmem_cleanup :: "driver \<Rightarrow> driver" where
  "kmem_cleanup D = D\<lparr>registered := False\<rparr>"

section \<open>The window after loading\<close>

text \<open>The kernel and the processor of a machine with the control registers \<open>cr3\<close> and \<open>cr4\<close>.\<close>

abbreviation levels :: "u64 \<Rightarrow> nat list" where
  "levels cr4 \<equiv> if bit cr4 12 then levels5 else levels4"

definition x86_kernel :: "u64 \<Rightarrow> u64 \<Rightarrow> u64 \<Rightarrow> mem_env \<Rightarrow> bool" where
  "x86_kernel dm cr3 cr4 E \<longleftrightarrow> env_api E = x86_api (bit cr4 12) dm cr3 \<and>
     env_leaf E = (\<lambda>t. hw_walk dm t (cr3 AND phys_mask) (levels cr4))"

text \<open>The page of the driver is mapped by the entry \<open>p\<close>, which the walk reads on no higher level.\<close>

definition buf_mapped :: "u64 \<Rightarrow> u64 \<Rightarrow> u64 \<Rightarrow> ptes \<Rightarrow> u64 \<Rightarrow> u64 \<Rightarrow> bool" where
  "buf_mapped dm cr3 cr4 t buf p \<longleftrightarrow> page_off buf = 0 \<and> p \<noteq> 0 \<and> bit (t p) 0 \<and>
     hw_walk dm t (cr3 AND phys_mask) (levels cr4) buf = Some p \<and>
     p \<notin> set (hw_path dm t (cr3 AND phys_mask) (levels cr4) buf)"

lemma leaf_after_write:
  assumes "buf_mapped dm cr3 cr4 t buf p" and "page_base va = buf"
  shows "hw_walk dm (t(p := v)) (cr3 AND phys_mask) (levels cr4) va = Some p"
proof -
  have buf: "page_base buf = buf"
    using assms(1) page_base_plus_off [of buf] by (simp add: buf_mapped_def)
  have "hw_walk dm (t(p := v)) (cr3 AND phys_mask) (levels cr4) va =
      hw_walk dm (t(p := v)) (cr3 AND phys_mask) (levels cr4) buf"
    by (rule hw_walk_page) (use assms(2) buf in \<open>auto split: if_splits\<close>)
  also have "\<dots> = Some p"
    using assms(1) hw_walk_upd [of p dm t "cr3 AND phys_mask" "levels cr4" buf v]
    by (simp add: buf_mapped_def)
  finally show ?thesis .
qed

lemma get_pte_after_load:
  assumes "buf_mapped dm cr3 cr4 t buf p"
  shows "kmem_get_pte (if bit cr4 12 then 5 else 4) (x86_api (bit cr4 12) dm cr3) t buf = p"
proof (cases "bit cr4 12")
  case True
  with assms x86_5.get_pte5_finds(1) [where t = t and va = buf and p = p] show ?thesis
    by (simp add: buf_mapped_def kmem_get_pte_def)
next
  case False
  with assms x86_4.get_pte4_finds(1) [where t = t and va = buf and p = p] show ?thesis
    by (simp add: buf_mapped_def kmem_get_pte_def)
qed

lemma window_after_load:
  assumes "x86_kernel dm cr3 cr4 E" and "buf_mapped dm cr3 cr4 (m_ptes m) (paged_buf E) p"
  shows "window (E\<lparr>paging_level := if bit cr4 12 then 5 else 4\<rparr>) m p"
  using assms(1) get_pte_after_load [OF assms(2)] leaf_after_write [OF assms(2)] assms(2)
  by (simp add: window_def x86_kernel_def buf_mapped_def)


text \<open>A processor with five levels.\<close>

definition sample_ptes5 :: ptes where
  "sample_ptes5 = (\<lambda>_. 0)(0x1000 := 0x2003, 0x2000 := 0x3003, 0x3000 := 0x4003, 0x4000 := 0x5003, 0x5008 := 0x6061)"

definition sample_driver :: driver where
  "sample_driver = \<lparr>d_env = \<lparr>paging_level = 0, env_api = x86_api True 0 0x1000, paged_buf = 0x1000,
     virt_to_phys = (\<lambda>va. va), env_leaf = (\<lambda>t. hw_walk 0 t (0x1000 AND phys_mask) levels5)\<rparr>, registered = False\<rparr>"


end
