(* ===== verification/Pmem_Calls.thy ===== *)
theory Pmem_Calls
  imports Pmem
begin

text \<open>
  Calls of \<^verbatim>\<open>pmem_read\<close> and \<^verbatim>\<open>pmem_write\<close> that run at the same time: nothing in
  \<^verbatim>\<open>src/pmem/pmem.c\<close> keeps two processes from being in the handlers together, and there is
  one page \<^verbatim>\<open>paged_buf\<close> with one page-table entry for all of them. A handler is cut into the
  accesses it makes to that entry and the copy between them. Every call runs on a processor of
  its own, which has its own cached translations and copies with the one it looks up first; the
  callers' buffers can be accessed. A schedule is a list of the calls that make a step.
\<close>

section \<open>The steps of a call\<close>

datatype request = Read | Write "u8 list"

datatype stage = At_save | At_set | At_rw | At_copy | At_restore | Returned

record call =
  c_req :: request
  c_pos :: u64
  c_count :: u64
  c_tlb :: "u64 \<rightharpoonup> u64"
  c_stage :: stage
  c_pte :: u64
  c_save :: u64
  c_data :: "u8 list"

text \<open>The machine as the processor of a call sees it, and back.\<close>

definition enter :: "call \<Rightarrow> machine \<Rightarrow> machine" where
  "enter c m = m\<lparr>m_tlb := c_tlb c, f_pos := c_pos c\<rparr>"

definition leave :: "machine \<Rightarrow> machine \<Rightarrow> machine" where
  "leave m m' = m'\<lparr>m_tlb := m_tlb m, f_pos := f_pos m\<rparr>"

definition copy_step :: "mem_env \<Rightarrow> machine \<Rightarrow> call \<Rightarrow> (machine \<times> call) option" where
  "copy_step E m c =
     (let n = unat (copy_len (c_pos c) (c_count c)); va = paged_buf E + (c_pos c AND 0xfff) in
      case c_req c of
        Read \<Rightarrow> do {
          (bs, m') \<leftarrow> load_bytes E va n (enter c m);
          Some (leave m m', c\<lparr>c_data := bs, c_tlb := m_tlb m'\<rparr>)
        }
      | Write udata \<Rightarrow> do {
          m' \<leftarrow> store_bytes E va (take n udata) (enter c m);
          Some (leave m m', c\<lparr>c_tlb := m_tlb m'\<rparr>)
        })"

definition call_step :: "mem_env \<Rightarrow> machine \<Rightarrow> call \<Rightarrow> (machine \<times> call) option" where
  "call_step E m c = (case c_stage c of
     At_save \<Rightarrow>
       (let pte = pmem_get_pte (paging_level E) (env_api E) (m_ptes m) (paged_buf E) in
        Some (m, if pte \<noteq> 0 then c\<lparr>c_pte := pte, c_save := m_ptes m pte, c_stage := At_set\<rparr>
                 else c\<lparr>c_pte := pte, c_stage := At_copy\<rparr>))
   | At_set \<Rightarrow>
       Some (set_pte (c_pte c) (window_pte (c_pos c) (c_save c)) m,
             c\<lparr>c_stage := (case c_req c of Read \<Rightarrow> At_copy | Write _ \<Rightarrow> At_rw)\<rparr>)
   | At_rw \<Rightarrow> Some (set_pte (c_pte c) (m_ptes m (c_pte c) OR PAGE_RW) m, c\<lparr>c_stage := At_copy\<rparr>)
   | At_copy \<Rightarrow> do {
       (m, c) \<leftarrow> copy_step E m c;
       Some (m, c\<lparr>c_stage := if c_pte c \<noteq> 0 then At_restore else Returned\<rparr>)
     }
   | At_restore \<Rightarrow> Some (set_pte (c_pte c) (c_save c) m, c\<lparr>c_stage := Returned\<rparr>)
   | Returned \<Rightarrow> Some (m, c))"

fun run :: "mem_env \<Rightarrow> nat list \<Rightarrow> machine \<times> call list \<Rightarrow> (machine \<times> call list) option" where
  "run E [] s = Some s"
| "run E (i # is) (m, cs) =
     (if i < length cs then do {
        (m, c) \<leftarrow> call_step E m (cs ! i);
        run E is (m, cs[i := c])
      } else run E is (m, cs))"

section \<open>A call that is not interrupted\<close>

definition whole_call :: "mem_env \<Rightarrow> machine \<Rightarrow> call \<Rightarrow> (machine \<times> call) option" where
  "whole_call E m c =
     (let pte = pmem_get_pte (paging_level E) (env_api E) (m_ptes m) (paged_buf E);
          c = c\<lparr>c_pte := pte, c_save := (if pte \<noteq> 0 then m_ptes m pte else c_save c), c_stage := Returned\<rparr> in
      case c_req c of
        Read \<Rightarrow> do {
          (bs, _, m') \<leftarrow> pmem_read E 0 (c_count c) (enter c m);
          Some (leave m m', c\<lparr>c_data := bs, c_tlb := m_tlb m'\<rparr>)
        }
      | Write udata \<Rightarrow> do {
          (_, m') \<leftarrow> pmem_write E 0 udata (c_count c) (enter c m);
          Some (leave m m', c\<lparr>c_tlb := m_tlb m'\<rparr>)
        })"

fun run_whole :: "mem_env \<Rightarrow> nat list \<Rightarrow> machine \<times> call list \<Rightarrow> (machine \<times> call list) option" where
  "run_whole E [] s = Some s"
| "run_whole E (i # is) (m, cs) =
     (if i < length cs then do {
        (m, c) \<leftarrow> whole_call E m (cs ! i);
        run_whole E is (m, cs[i := c])
      } else run_whole E is (m, cs))"

lemma enter_leave_simps [simp]:
  "m_ptes (enter c m) = m_ptes m" "m_phys (enter c m) = m_phys m" "f_pos (enter c m) = c_pos c"
  "m_tlb (enter c m) = c_tlb c"
  "m_ptes (leave m m') = m_ptes m'" "m_phys (leave m m') = m_phys m'"
  "leave (set_pte p v m) m' = leave m m'"
  "enter (c\<lparr>c_stage := s\<rparr>) m = enter c m" "enter (c\<lparr>c_pte := q\<rparr>) m = enter c m"
  "enter (c\<lparr>c_save := v\<rparr>) m = enter c m"
  by (simp_all add: enter_def leave_def set_pte_def)

lemma enter_set: "enter c (set_pte p v m) = set_pte p v (enter c m)"
  by (simp add: enter_def set_pte_def)

lemma leave_set: "leave m (set_pte p v m') = set_pte p v (leave m m')"
  by (simp add: leave_def set_pte_def)

lemma set_pte_twice: "set_pte p v (set_pte p w m) = set_pte p v m"
  by (simp add: set_pte_def)

text \<open>The five steps of a call, one after another, are the handler.\<close>

fun steps :: "mem_env \<Rightarrow> nat \<Rightarrow> machine \<times> call \<Rightarrow> (machine \<times> call) option" where
  "steps E 0 s = Some s"
| "steps E (Suc n) (m, c) = do { s \<leftarrow> call_step E m c; steps E n s }"

lemma steps_whole:
  assumes "c_stage c = At_save"
  shows "steps E 5 (m, c) = whole_call E m c"
proof -
  have 5: "(5 :: nat) = Suc (Suc (Suc (Suc (Suc 0))))" by simp
  let ?pte = "pmem_get_pte (paging_level E) (env_api E) (m_ptes m) (paged_buf E)"
  show ?thesis
  proof (cases "c_req c")
    case Read
    with assms show ?thesis
      by (cases "?pte = 0")
        (auto simp: 5 call_step_def copy_step_def whole_call_def pmem_read_def Let_def enter_set leave_set
          split: bind_splits)
  next
    case (Write udata)
    with assms show ?thesis
      by (cases "?pte = 0")
        (auto simp: 5 call_step_def copy_step_def whole_call_def pmem_write_def Let_def enter_set leave_set
          set_pte_twice split: bind_splits)
  qed
qed

lemma run_append: "run E (is @ js) s = do { s \<leftarrow> run E is s; run E js s }"
  by (induction E "is" s rule: run.induct) (auto split: bind_splits)

lemma run_one:
  "i < length cs \<Longrightarrow> run E (replicate n i) (m, cs) = do { (m, c) \<leftarrow> steps E n (m, cs ! i); Some (m, cs[i := c]) }"
proof (induction n arbitrary: m cs)
  case (Suc n)
  then show ?case by (auto split: bind_splits)
qed simp


section \<open>Every interleaving\<close>

text \<open>
  The page's entry is present and writable, and whatever page the entry shows, the walk and the
  processor find the entry.
\<close>

definition shared_window :: "mem_env \<Rightarrow> machine \<Rightarrow> u64 \<Rightarrow> bool" where
  "shared_window E m p \<longleftrightarrow> bit (m_ptes m p) 0 \<and> bit (m_ptes m p) 1 \<and>
     (\<forall>v. bit v 0 \<longrightarrow> window E (set_pte p v m) p)"

text \<open>The entries the calls write and the pages these show, for the first entry and the positions.\<close>

definition entries :: "u64 \<Rightarrow> u64 set \<Rightarrow> u64 set" where
  "entries s P = insert s ((\<lambda>a. window_pte a s) ` P)"

definition pages :: "u64 \<Rightarrow> u64 set \<Rightarrow> u64 set" where
  "pages s P = (\<lambda>a. a AND phys_mask) ` insert s P"

lemma entries_page: "e \<in> entries s P \<Longrightarrow> e AND phys_mask \<in> pages s P"
proof -
  have "window_pte a s AND phys_mask = a AND phys_mask" for a
    by (intro bit_word_eqI) (auto simp: bit_and_iff bit_window_pte bit_phys_mask)
  then show "e \<in> entries s P \<Longrightarrow> e AND phys_mask \<in> pages s P" by (auto simp: entries_def pages_def)
qed

lemma entries_bits: "e \<in> entries s P \<Longrightarrow> n < 12 \<Longrightarrow> bit e n = bit s n"
  by (auto simp: entries_def bit_window_pte)

lemma entries_rw: "e \<in> entries s P \<Longrightarrow> bit s 1 \<Longrightarrow> e OR PAGE_RW = e"
  using entries_bits [of e s P 1] by (intro bit_word_eqI) (auto simp: bit_or_iff bit_PAGE_RW)

lemma entries_window: "e \<in> entries s P \<Longrightarrow> a \<in> P \<Longrightarrow> window_pte a e \<in> entries s P"
proof -
  assume e: "e \<in> entries s P" and a: "a \<in> P"
  have "window_pte a e = window_pte a s"
    using entries_bits [OF e] by (intro bit_word_eqI) (auto simp: bit_window_pte)
  with a show ?thesis by (auto simp: entries_def)
qed

lemma base_of_page: "page_base ((a AND phys_mask) OR page_off b) = a AND phys_mask"
  "page_off ((a AND phys_mask) OR page_off b) = page_off b"
  by (intro bit_word_eqI, auto simp: bit_page_base bit_page_off bit_or_iff bit_and_iff bit_phys_mask)+

text \<open>Copying, with whatever entry is there.\<close>

lemma copy_step_eq:
  assumes win: "window E m p" and miss: "c_tlb c (vpn (paged_buf E)) = None"
    and rw: "bit (m_ptes m p) 1"
  defines "pa \<equiv> (m_ptes m p AND phys_mask) OR page_off (c_pos c)"
    and "n \<equiv> unat (copy_len (c_pos c) (c_count c))"
  obtains T where "copy_step E m c = Some (case c_req c of
      Read \<Rightarrow> (m, c\<lparr>c_data := range_read (m_phys m) pa n, c_tlb := T\<rparr>)
    | Write udata \<Rightarrow> (m\<lparr>m_phys := range_write (m_phys m) pa (take n udata)\<rparr>, c\<lparr>c_tlb := T\<rparr>))"
proof -
  let ?m = "enter c m" and ?va = "paged_buf E + page_off (c_pos c)"
  let ?T = "(c_tlb c)(vpn (paged_buf E) \<mapsto> m_ptes m p)"
  have win': "window E ?m p" using win by (simp add: window_def)
  have same: "set_pte p (m_ptes m p) ?m = ?m" by (simp add: set_pte_def)
  have e: "mmu_entry E ?va ?m = Some (m_ptes m p, ?m\<lparr>m_tlb := ?T\<rparr>)"
    using window_miss [OF win', of "m_ptes m p" "c_pos c"] miss win by (simp add: same window_def)
  have pa: "phys_addr (m_ptes m p) ?va = pa"
    using window_va(2) [OF win] by (simp add: phys_addr_def pa_def)
  have ret: "leave m (?m\<lparr>m_tlb := t\<rparr>) = m" "leave m ?m = m"
    "leave m (?m\<lparr>m_tlb := t, m_phys := f\<rparr>) = m\<lparr>m_phys := f\<rparr>" for t f
    by (simp_all add: enter_def leave_def)
  have page: "unat (page_off ?va) + n \<le> 4096"
    unfolding n_def by (simp only: window_va(2) [OF win] copy_len_in_page)
  show thesis
  proof (cases "c_req c")
    case Read
    have "load_bytes E ?va n ?m = Some (range_read (m_phys m) pa n, if n = 0 then ?m else ?m\<lparr>m_tlb := ?T\<rparr>)"
      using load_bytes_page [OF e _ page] pa by (cases "n = 0") auto
    then show thesis using Read
      by (intro that [of "if n = 0 then c_tlb c else ?T"])
        (simp add: copy_step_def and_fff n_def [symmetric] ret)
  next
    case (Write udata)
    let ?bs = "take n udata"
    have len: "unat (page_off ?va) + length ?bs \<le> 4096" using page by auto
    have "store_bytes E ?va ?bs ?m = Some (if ?bs = [] then ?m
        else ?m\<lparr>m_tlb := ?T, m_phys := range_write (m_phys m) pa ?bs\<rparr>)"
    proof (cases "?bs = []")
      case True
      show ?thesis unfolding True by simp
    next
      case False
      from store_bytes_page [OF e rw False len] False pa show ?thesis by simp
    qed
    moreover have "m\<lparr>m_phys := range_write (m_phys m) pa ?bs\<rparr> = m" if "?bs = []"
      unfolding that by simp
    ultimately show thesis using Write
      by (intro that [of "if ?bs = [] then c_tlb c else ?T"])
        (cases "?bs = []"; simp only: copy_step_def and_fff n_def [symmetric] Let_def request.case bind.bind_lunit ret if_True if_False; simp add: ret)
  qed
qed

text \<open>What every step keeps.\<close>

definition call_ok :: "mem_env \<Rightarrow> u64 \<Rightarrow> u64 \<Rightarrow> u64 set \<Rightarrow> call \<Rightarrow> bool" where
  "call_ok E p s P c \<longleftrightarrow> c_pos c \<in> P \<and>
     (c_stage c \<noteq> At_restore \<and> c_stage c \<noteq> Returned \<longrightarrow> c_tlb c (vpn (paged_buf E)) = None) \<and>
     (c_stage c \<noteq> At_save \<longrightarrow> c_pte c = p \<and> c_save c \<in> entries s P)"

definition delivered_ok :: "(u64 \<Rightarrow> u8) \<Rightarrow> u64 set \<Rightarrow> call \<Rightarrow> bool" where
  "delivered_ok mem A c \<longleftrightarrow> (c_stage c = At_restore \<or> c_stage c = Returned \<longrightarrow>
     (\<exists>a\<in>A. c_data c = range_read mem (a OR page_off (c_pos c)) (unat (copy_len (c_pos c) (c_count c)))))"

definition reading :: "machine \<Rightarrow> u64 \<Rightarrow> u64 set \<Rightarrow> machine \<Rightarrow> call \<Rightarrow> bool" where
  "reading m0 p P m c \<longleftrightarrow>
     c_req c = Read \<and> m_phys m = m_phys m0 \<and> delivered_ok (m_phys m0) (pages (m_ptes m0 p) P) c"

definition machine_ok :: "machine \<Rightarrow> u64 \<Rightarrow> u64 set \<Rightarrow> machine \<Rightarrow> bool" where
  "machine_ok m0 p P m \<longleftrightarrow> (\<exists>v\<in>entries (m_ptes m0 p) P. m_ptes m = (m_ptes m0)(p := v)) \<and>
     (\<forall>x. m_phys m x \<noteq> m_phys m0 x \<longrightarrow> page_base x \<in> pages (m_ptes m0 p) P)"

lemma machine_ok_entry: "machine_ok m0 p P m \<Longrightarrow> m_ptes m p \<in> entries (m_ptes m0 p) P"
  by (auto simp: machine_ok_def)

lemma machine_ok_window:
  assumes "shared_window E m0 p" and "machine_ok m0 p P m"
  shows "window E m p" and "bit (m_ptes m p) 1"
proof -
  from assms(2) obtain v where v: "v \<in> entries (m_ptes m0 p) P" "m_ptes m = (m_ptes m0)(p := v)"
    by (auto simp: machine_ok_def)
  then have "bit v 0" using assms(1) entries_bits [OF v(1), of 0] by (simp add: shared_window_def)
  then have "window E (set_pte p v m0) p" using assms(1) by (simp add: shared_window_def)
  then show "window E m p" using v(2) window_cong [of m "set_pte p v m0"] by simp
  show "bit (m_ptes m p) 1" using assms(1) v entries_bits [OF v(1), of 1] by (simp add: shared_window_def)
qed

lemma machine_ok_set: "machine_ok m0 p P m \<Longrightarrow> v \<in> entries (m_ptes m0 p) P \<Longrightarrow> machine_ok m0 p P (set_pte p v m)"
  by (auto simp: machine_ok_def)

lemma machine_ok_write:
  assumes "machine_ok m0 p P m" and "e \<in> entries (m_ptes m0 p) P" and "unat (page_off b) + length bs \<le> 4096"
  shows "machine_ok m0 p P (m\<lparr>m_phys := range_write (m_phys m) ((e AND phys_mask) OR page_off b) bs\<rparr>)"
proof -
  let ?a = "(e AND phys_mask) OR page_off b"
  have "page_base x \<in> pages (m_ptes m0 p) P" if "range_write (m_phys m) ?a bs x \<noteq> m_phys m x" for x
  proof -
    from that obtain i where i: "i < length bs" "x = ?a + of_nat i" using range_write_other by metis
    then have "unat (page_off ?a) + i < 4096" using assms(3) by (simp add: base_of_page)
    from page_base_add [OF this] i(2) have "page_base x = e AND phys_mask" by (simp only: base_of_page)
    then show ?thesis using entries_page [OF assms(2)] by simp
  qed
  then show ?thesis using assms(1) by (auto simp: machine_ok_def) metis
qed

text \<open>One step of one call: the copy, and any step.\<close>

lemma call_copy_ok:
  assumes win: "shared_window E m0 p" and m: "machine_ok m0 p P m" and c: "call_ok E p (m_ptes m0 p) P c"
    and At_copy: "c_stage c = At_copy"
  obtains m' c' where "call_step E m c = Some (m', c')" "machine_ok m0 p P m'" "call_ok E p (m_ptes m0 p) P c'"
    "c_req c' = c_req c" "c_pos c' = c_pos c"
    "reading m0 p P m c \<longrightarrow> reading m0 p P m' c'"
proof -
  note w = machine_ok_window [OF win m] and e = machine_ok_entry [OF m]
  have p0: "p \<noteq> 0" using w(1) by (simp add: window_def)
  have miss: "c_tlb c (vpn (paged_buf E)) = None" and cp: "c_pte c = p"
    using c At_copy by (auto simp: call_ok_def)
  obtain T where T: "copy_step E m c = Some (case c_req c of
      Read \<Rightarrow> (m, c\<lparr>c_data := range_read (m_phys m) ((m_ptes m p AND phys_mask) OR page_off (c_pos c))
        (unat (copy_len (c_pos c) (c_count c))), c_tlb := T\<rparr>)
    | Write udata \<Rightarrow> (m\<lparr>m_phys := range_write (m_phys m) ((m_ptes m p AND phys_mask) OR page_off (c_pos c))
        (take (unat (copy_len (c_pos c) (c_count c))) udata)\<rparr>, c\<lparr>c_tlb := T\<rparr>))"
    by (rule copy_step_eq [OF w(1) miss w(2)])
  show thesis
  proof (cases "c_req c")
    case Read
    with T At_copy cp p0 m c entries_page [OF e] show thesis
      by (intro that [of m "c\<lparr>c_data := range_read (m_phys m) ((m_ptes m p AND phys_mask) OR page_off (c_pos c))
        (unat (copy_len (c_pos c) (c_count c))), c_tlb := T, c_stage := At_restore\<rparr>"])
        (auto simp: call_step_def call_ok_def reading_def delivered_ok_def)
  next
    case (Write udata)
    let ?bs = "take (unat (copy_len (c_pos c) (c_count c))) udata"
    have "unat (page_off (c_pos c)) + length ?bs \<le> 4096"
      using copy_len_in_page [of "c_pos c" "c_count c"] by simp
    from machine_ok_write [OF m e this] Write T At_copy cp p0 c show thesis
      by (intro that [of "m\<lparr>m_phys := range_write (m_phys m) ((m_ptes m p AND phys_mask) OR page_off (c_pos c)) ?bs\<rparr>"
          "c\<lparr>c_tlb := T, c_stage := At_restore\<rparr>"])
        (auto simp: call_step_def call_ok_def reading_def)
  qed
qed

lemma call_step_ok:
  assumes win: "shared_window E m0 p" and m: "machine_ok m0 p P m" and c: "call_ok E p (m_ptes m0 p) P c"
  obtains m' c' where "call_step E m c = Some (m', c')" "machine_ok m0 p P m'" "call_ok E p (m_ptes m0 p) P c'"
    "c_req c' = c_req c" "c_pos c' = c_pos c"
    "reading m0 p P m c \<longrightarrow> reading m0 p P m' c'"
proof -
  let ?s = "m_ptes m0 p"
  note w = machine_ok_window [OF win m] and e = machine_ok_entry [OF m]
  have pte: "pmem_get_pte (paging_level E) (env_api E) (m_ptes m) (paged_buf E) = p" "p \<noteq> 0"
    using w(1) by (simp_all add: window_def pmem_get_pte_eq)
  show thesis
  proof (cases "c_stage c")
    case At_save
    show thesis
      by (rule that [of m "c\<lparr>c_pte := p, c_save := m_ptes m p, c_stage := At_set\<rparr>"])
        (use At_save pte m c e in \<open>auto simp: call_step_def call_ok_def reading_def delivered_ok_def\<close>)
  next
    case At_set
    have v: "window_pte (c_pos c) (c_save c) \<in> entries ?s P"
      using c At_set by (intro entries_window) (auto simp: call_ok_def)
    show thesis
      by (rule that [of "set_pte p (window_pte (c_pos c) (c_save c)) m"
            "c\<lparr>c_stage := (case c_req c of Read \<Rightarrow> At_copy | Write _ \<Rightarrow> At_rw)\<rparr>"])
        (use At_set c machine_ok_set [OF m v] in
          \<open>auto simp: call_step_def call_ok_def reading_def delivered_ok_def split: request.splits\<close>)
  next
    case At_rw
    have "m_ptes m p OR PAGE_RW \<in> entries ?s P"
      using entries_rw [OF e] e win by (simp add: shared_window_def)
    from machine_ok_set [OF m this] show thesis
      by (intro that [of "set_pte p (m_ptes m p OR PAGE_RW) m" "c\<lparr>c_stage := At_copy\<rparr>"])
        (use At_rw c in \<open>auto simp: call_step_def call_ok_def reading_def delivered_ok_def\<close>)
  next
    case At_copy
    show thesis by (rule call_copy_ok [OF win m c At_copy]) (rule that)
  next
    case At_restore
    have "c_save c \<in> entries ?s P" "c_pte c = p" using c At_restore by (auto simp: call_ok_def)
    with machine_ok_set [OF m] show thesis
      by (intro that [of "set_pte p (c_save c) m" "c\<lparr>c_stage := Returned\<rparr>"])
        (use At_restore c in \<open>auto simp: call_step_def call_ok_def reading_def delivered_ok_def\<close>)
  next
    case Returned
    then show thesis by (intro that [of m c]) (use m c in \<open>auto simp: call_step_def\<close>)
  qed
qed

text \<open>Every step of every schedule.\<close>

lemma run_ok:
  assumes "shared_window E m0 p"
  shows "machine_ok m0 p P m \<Longrightarrow> \<forall>c\<in>set cs. call_ok E p (m_ptes m0 p) P c \<Longrightarrow>
    \<exists>m' cs'. run E is (m, cs) = Some (m', cs') \<and> machine_ok m0 p P m' \<and> map c_pos cs' = map c_pos cs \<and>
      ((\<forall>c\<in>set cs. reading m0 p P m c) \<longrightarrow> (\<forall>c\<in>set cs'. reading m0 p P m' c))"
proof (induction "is" arbitrary: m cs)
  case (Cons i "is")
  show ?case
  proof (cases "i < length cs")
    case True
    then have c: "call_ok E p (m_ptes m0 p) P (cs ! i)" using Cons.prems(2) by simp
    obtain m1 c1 where s: "call_step E m (cs ! i) = Some (m1, c1)" "machine_ok m0 p P m1"
      "call_ok E p (m_ptes m0 p) P c1" "c_pos c1 = c_pos (cs ! i)"
      and d: "reading m0 p P m (cs ! i) \<longrightarrow> reading m0 p P m1 c1"
      by (rule call_step_ok [OF assms Cons.prems(1) c])
    let ?cs = "cs[i := c1]"
    have sub: "set ?cs \<subseteq> insert c1 (set cs)" by (rule set_update_subset_insert)
    have pos: "map c_pos ?cs = map c_pos cs"
      using True s(4) by (simp add: map_update list_update_same_conv)
    have "\<forall>c\<in>set ?cs. call_ok E p (m_ptes m0 p) P c" using Cons.prems(2) s(3) sub by blast
    from Cons.IH [OF s(2) this] obtain m' cs' where r: "run E is (m1, ?cs) = Some (m', cs')" "machine_ok m0 p P m'"
      "map c_pos cs' = map c_pos ?cs"
      and q: "(\<forall>c\<in>set ?cs. reading m0 p P m1 c) \<longrightarrow> (\<forall>c\<in>set cs'. reading m0 p P m' c)"
      by blast
    have "\<forall>c\<in>set ?cs. reading m0 p P m1 c" if a: "\<forall>c\<in>set cs. reading m0 p P m c"
    proof -
      have "reading m0 p P m1 c1" using a d True by simp
      then have "\<forall>c\<in>set cs. reading m0 p P m1 c" "reading m0 p P m1 c1" using a by (auto simp: reading_def)
      then show ?thesis using sub by blast
    qed
    then show ?thesis using True s(1) r pos q by (intro exI [of _ m'] exI [of _ cs']) auto
  next
    case False
    with Cons show ?thesis by auto
  qed
qed auto

text \<open>Calls that have not begun.\<close>

definition waiting :: "mem_env \<Rightarrow> call \<Rightarrow> bool" where
  "waiting E c \<longleftrightarrow> c_stage c = At_save \<and> c_tlb c (vpn (paged_buf E)) = None"

text \<open>C6: However the calls of the device are interleaved, none crashes and the damage is confined:
  whatever is written lands in a page that one of the calls has positioned itself in or in the
  page the window showed at first, only the window's entry changes, and it shows one of these
  pages. If all calls are reads, memory does not change and each that has returned delivered the
  bytes at its own offset of one of these pages.\<close>

theorem interleaved_calls:
  assumes "shared_window E m p" and "\<forall>c\<in>set cs. waiting E c"
  shows "\<exists>m' cs'. run E is (m, cs) = Some (m', cs') \<and> map c_pos cs' = map c_pos cs \<and>
    (\<forall>x. m_phys m' x \<noteq> m_phys m x \<longrightarrow> page_base x \<in> pages (m_ptes m p) (c_pos ` set cs)) \<and>
    (\<forall>q. q \<noteq> p \<longrightarrow> m_ptes m' q = m_ptes m q) \<and>
    m_ptes m' p AND phys_mask \<in> pages (m_ptes m p) (c_pos ` set cs) \<and>
    (cs \<noteq> [] \<and> (\<forall>c\<in>set cs. c_req c = Read) \<longrightarrow> m_phys m' = m_phys m \<and>
      (\<forall>c\<in>set cs'. c_stage c = Returned \<longrightarrow> (\<exists>a\<in>pages (m_ptes m p) (c_pos ` set cs).
         c_data c = range_read (m_phys m) (a OR page_off (c_pos c)) (unat (copy_len (c_pos c) (c_count c))))))"
proof -
  let ?P = "c_pos ` set cs"
  have m: "machine_ok m p ?P m" by (auto simp: machine_ok_def entries_def fun_upd_idem)
  have "\<forall>c\<in>set cs. call_ok E p (m_ptes m p) ?P c" using assms(2) by (simp add: waiting_def call_ok_def)
  from run_ok [OF assms(1) m this, of "is"] obtain m' cs' where
    r: "run E is (m, cs) = Some (m', cs')" "machine_ok m p ?P m'" "map c_pos cs' = map c_pos cs"
    and d: "(\<forall>c\<in>set cs. reading m p ?P m c) \<longrightarrow> (\<forall>c\<in>set cs'. reading m p ?P m' c)"
    by blast
  have "m_phys m' = m_phys m \<and>
      (\<forall>c\<in>set cs'. c_stage c = Returned \<longrightarrow> (\<exists>a\<in>pages (m_ptes m p) ?P.
         c_data c = range_read (m_phys m) (a OR page_off (c_pos c)) (unat (copy_len (c_pos c) (c_count c)))))"
    if "cs \<noteq> []" "\<forall>c\<in>set cs. c_req c = Read"
  proof -
    have "\<forall>c\<in>set cs. reading m p ?P m c"
      using assms(2) that(2) by (simp add: waiting_def reading_def delivered_ok_def)
    with d have all: "\<forall>c\<in>set cs'. reading m p ?P m' c" by blast
    moreover have "cs' \<noteq> []" using r(3) that(1) by auto
    ultimately show ?thesis by (cases cs') (simp_all add: reading_def delivered_ok_def)
  qed
  moreover have "m_ptes m' p AND phys_mask \<in> pages (m_ptes m p) ?P"
    by (rule entries_page [OF machine_ok_entry [OF r(2)]])
  moreover have "\<forall>q. q \<noteq> p \<longrightarrow> m_ptes m' q = m_ptes m q"
    "\<forall>x. m_phys m' x \<noteq> m_phys m x \<longrightarrow> page_base x \<in> pages (m_ptes m p) ?P"
    using r(2) by (auto simp: machine_ok_def)
  ultimately show ?thesis using r(1,3) by blast
qed

section \<open>Two calls that race\<close>

lemma shared_entry:
  assumes "shared_window E m p" and "m_ptes m' = (m_ptes m)(p := v)" and "bit v 0"
  shows "window E m' p" and "pmem_get_pte (paging_level E) (env_api E) (m_ptes m') (paged_buf E) = p" and "p \<noteq> 0"
proof -
  have "window E (set_pte p v m) p" using assms(1,3) by (simp add: shared_window_def)
  then show "window E m' p" using assms(2) window_cong [of m' "set_pte p v m"] by simp
  then show "pmem_get_pte (paging_level E) (env_api E) (m_ptes m') (paged_buf E) = p" "p \<noteq> 0"
    by (simp_all add: window_def pmem_get_pte_eq)
qed

text \<open>From the start of a call to its copy, and from there to its end.\<close>

lemma steps_open:
  assumes "waiting E c" and "pmem_get_pte (paging_level E) (env_api E) (m_ptes m) (paged_buf E) = p" and "p \<noteq> 0"
  shows "c_req c = Read \<Longrightarrow> steps E 2 (m, c) = Some (set_pte p (window_pte (c_pos c) (m_ptes m p)) m,
      c\<lparr>c_pte := p, c_save := m_ptes m p, c_stage := At_copy\<rparr>)"
    and "c_req c = Write u \<Longrightarrow> steps E 3 (m, c) = Some (set_pte p (window_pte (c_pos c) (m_ptes m p) OR PAGE_RW) m,
      c\<lparr>c_pte := p, c_save := m_ptes m p, c_stage := At_copy\<rparr>)"
  using assms by (simp_all add: numeral_2_eq_2 numeral_3_eq_3 waiting_def call_step_def set_pte_twice)

lemma steps_close:
  assumes "c_stage c = At_copy" and "c_pte c = p" "p \<noteq> 0" and "copy_step E m c = Some (m', c')" and "c_pte c' = p"
  shows "steps E 2 (m, c) = Some (set_pte p (c_save c') m', c'\<lparr>c_stage := Returned\<rparr>)"
  using assms by (simp add: numeral_2_eq_2 call_step_def)

text \<open>C7: A read that begins between the steps of a write takes the write's page away: the write
  stores its bytes in the page of the read, the read delivers bytes of the page the window showed
  at first, and when both have returned the window stays on the page of the write. Both calls
  report success.\<close>

theorem write_races_read:
  assumes "shared_window E m p" and "waiting E w" "c_req w = Write udata" and "waiting E r" "c_req r = Read"
  defines "s \<equiv> m_ptes m p" and "bs \<equiv> take (unat (copy_len (c_pos w) (c_count w))) udata"
  shows "\<exists>m' w' r'. run E [0, 0, 0, 1, 1, 0, 0, 1, 1] (m, [w, r]) = Some (m', [w', r']) \<and>
    c_stage w' = Returned \<and> c_stage r' = Returned \<and>
    m_phys m' = range_write (m_phys m) ((c_pos r AND phys_mask) OR page_off (c_pos w)) bs \<and>
    c_data r' = range_read (m_phys m') ((s AND phys_mask) OR page_off (c_pos r)) (unat (copy_len (c_pos r) (c_count r))) \<and>
    m_ptes m' p = window_pte (c_pos w) s"
proof -
  let ?P = "{c_pos w, c_pos r}"
  define v where "v = window_pte (c_pos w) s"
  have sched: "[0, 0, 0, 1, 1, 0, 0, 1, 1] = replicate 3 0 @ replicate 2 1 @ replicate 2 0 @ replicate 2 (1 :: nat)"
    by (simp add: numeral_2_eq_2 numeral_3_eq_3)
  have bits: "bit s 0" "bit s 1" "bit v 0" "bit v 1" "bit (window_pte (c_pos r) v) 0" "bit (window_pte (c_pos r) v) 1"
    using assms(1) by (simp_all add: shared_window_def s_def v_def bit_window_pte)
  have rw: "v OR PAGE_RW = v" by (rule entries_rw [of v s ?P]) (use bits in \<open>simp_all add: entries_def v_def\<close>)
  have page: "window_pte (c_pos r) v AND phys_mask = c_pos r AND phys_mask"
    by (intro bit_word_eqI) (auto simp: bit_and_iff bit_window_pte bit_phys_mask)
  note any = shared_entry [OF assms(1)]
  have here: "m_ptes m = (m_ptes m)(p := s)" by (simp add: s_def)
  note pte = any(2) [OF here bits(1)] and p0 = any(3) [OF here bits(1)]
  define m1 m2 where "m1 = set_pte p v m" and "m2 = set_pte p (window_pte (c_pos r) v) m"
  define w1 r1 where "w1 = w\<lparr>c_pte := p, c_save := s, c_stage := At_copy\<rparr>"
    and "r1 = r\<lparr>c_pte := p, c_save := v, c_stage := At_copy\<rparr>"
  have 1: "steps E 3 (m, w) = Some (m1, w1)"
    using steps_open(2) [OF assms(2) pte p0 assms(3)] rw by (simp add: m1_def w1_def s_def v_def)
  have "pmem_get_pte (paging_level E) (env_api E) (m_ptes m1) (paged_buf E) = p"
    by (rule any(2) [OF _ bits(3)]) (simp add: m1_def)
  then have 2: "steps E 2 (m1, r) = Some (m2, r1)"
    using steps_open(1) [OF assms(4) _ p0 assms(5)] by (simp add: m1_def m2_def r1_def set_pte_twice)
  define mem where "mem = range_write (m_phys m) ((c_pos r AND phys_mask) OR page_off (c_pos w)) bs"
  define m3 where "m3 = m\<lparr>m_phys := mem\<rparr>"
  have "window E m2 p" by (rule any(1) [OF _ bits(5)]) (simp add: m2_def)
  then obtain T where "copy_step E m2 w1 = Some (m2\<lparr>m_phys := mem\<rparr>, w1\<lparr>c_tlb := T\<rparr>)"
    using copy_step_eq [of E m2 p w1] bits(6) assms(2,3) page
    by (auto simp: m2_def w1_def waiting_def mem_def bs_def)
  then have 3: "steps E 2 (m2, w1) = Some (m3, w1\<lparr>c_tlb := T, c_stage := Returned\<rparr>)"
    using p0 steps_close [of w1 p E m2 "m2\<lparr>m_phys := mem\<rparr>" "w1\<lparr>c_tlb := T\<rparr>"]
    by (simp add: w1_def m2_def m3_def s_def set_pte_def)
  have "window E m3 p" by (rule any(1) [OF _ bits(1)]) (simp add: m3_def s_def)
  then obtain T' where "copy_step E m3 r1 = Some (m3, r1\<lparr>c_data := range_read mem ((s AND phys_mask) OR page_off (c_pos r))
      (unat (copy_len (c_pos r) (c_count r))), c_tlb := T'\<rparr>)"
    using copy_step_eq [of E m3 p r1] bits(2) assms(4,5)
    by (auto simp: m3_def r1_def waiting_def s_def)
  then have 4: "steps E 2 (m3, r1) = Some (set_pte p v m3, r1\<lparr>c_data := range_read mem ((s AND phys_mask) OR page_off (c_pos r))
      (unat (copy_len (c_pos r) (c_count r))), c_tlb := T', c_stage := Returned\<rparr>)"
    using p0 steps_close [of r1 p E m3] by (simp add: r1_def s_def)
  show ?thesis
    unfolding sched by (simp add: run_append run_one 1 2 3 4 del: replicate.simps) (simp add: m3_def mem_def v_def w1_def r1_def)
qed

section \<open>Concrete calls\<close>

text \<open>The sample machine with its window writable, a write of two bytes and a read of two.\<close>

definition sample_shared :: machine where
  "sample_shared = set_pte 0x4008 0x5063 (sample_machine 0)"

definition sample_call :: "request \<Rightarrow> u64 \<Rightarrow> call" where
  "sample_call req a = \<lparr>c_req = req, c_pos = a, c_count = 2, c_tlb = Map.empty, c_stage = At_save,
     c_pte = 0, c_save = 0, c_data = []\<rparr>"

lemma sample_call_simps [simp]:
  "c_stage (sample_call req a) = At_save" "waiting E (sample_call req a)" "c_req (sample_call req a) = req"
  "c_pos (sample_call req a) = a" "c_count (sample_call req a) = 2"
  by (simp_all add: sample_call_def waiting_def)

lemma sample_shared_window: "shared_window sample_env sample_shared 0x4008"
proof -
  have "window sample_env (set_pte 0x4008 v sample_shared) 0x4008" if "bit v 0" for v
    unfolding sample_env_def
    by (rule x86_env_window)
      (use that in \<open>simp_all add: sample_shared_def sample_ptes_def page_off_def phys_mask_def hw_entry_def
        hw_index_def hw_table_def Let_def\<close>)
  then show ?thesis by (simp add: shared_window_def sample_shared_def)
qed


theorem interleaved_calls_witness:
  "\<exists>m' cs'. run sample_env [1, 0, 0, 1, 1, 0, 0, 1]
      (sample_shared, [sample_call Read 0x7000, sample_call Read 0x9000]) = Some (m', cs') \<and>
    m_phys m' = m_phys sample_shared \<and> m_ptes m' 0x4008 AND phys_mask \<in> {0x5000, 0x7000, 0x9000}"
  using interleaved_calls [OF sample_shared_window, of "[sample_call Read 0x7000, sample_call Read 0x9000]"
      "[1, 0, 0, 1, 1, 0, 0, 1]"]
  by (auto simp: pages_def phys_mask_def sample_shared_def)

theorem write_races_read_witness:
  "\<exists>m' w' r'. run sample_env [0, 0, 0, 1, 1, 0, 0, 1, 1]
      (sample_shared, [sample_call (Write [1, 2]) 0x7000, sample_call Read 0x9004]) = Some (m', [w', r']) \<and>
    m_phys m' = range_write (m_phys sample_shared) 0x9000 [1, 2] \<and> m_ptes m' 0x4008 = 0x7063"
  using write_races_read [OF sample_shared_window, of "sample_call (Write [1, 2]) 0x7000" "[1, 2]"
      "sample_call Read 0x9004"]
  by (auto simp: phys_mask_def sample_shared_def page_off_def window_pte_def unat_copy_len)

end
