(* ===== verification/Mem_Editor.thy ===== *)
theory Mem_Editor
  imports Prelude "HOL-Library.Char_ord"
begin

text \<open>
  The memory editor, \<^verbatim>\<open>src/memory/memory.c\<close>. Its state is the top address of the screen, the
  cursor (column \<open>ed_x\<close>, row \<open>ed_y\<close>, digit \<open>ed_n\<close> inside a byte), the digit typed last and
  the open device. The calls to the curses library are recorded, in order, with their formatted
  arguments. The device is reached through three operations, \<open>dev_ops\<close>: \<^verbatim>\<open>lseek64\<close> to an
  absolute position, \<^verbatim>\<open>read\<close> of one byte (\<open>None\<close> inside the result: the call failed and the
  caller's variable keeps its value) and \<^verbatim>\<open>write\<close> of one byte. An outer \<open>None\<close> is a crash of
  the kernel inside the call. What the editor relies on is stated in the locales
  \<open>byte_source\<close> and \<open>byte_device\<close>.
\<close>

section \<open>Characters and output\<close>

definition hexdig :: "nat \<Rightarrow> char" where
  "hexdig n = ''0123456789ABCDEF'' ! n"

text \<open>\<open>%0kX\<close>: \<open>k\<close> upper-case digits.\<close>

fun hex_digits :: "nat \<Rightarrow> nat \<Rightarrow> string" where
  "hex_digits 0 n = []"
| "hex_digits (Suc k) n = hex_digits k (n div 16) @ [hexdig (n mod 16)]"

definition isxdigit :: "int \<Rightarrow> bool" where
  "isxdigit c \<longleftrightarrow> (48 \<le> c \<and> c \<le> 57) \<or> (65 \<le> c \<and> c \<le> 70) \<or> (97 \<le> c \<and> c \<le> 102)"

definition islower :: "int \<Rightarrow> bool" where
  "islower c \<longleftrightarrow> 97 \<le> c \<and> c \<le> 122"

datatype curses =
    MvAddStr int int string
  | MvAddCh int int char
  | AddCh char
  | Move int int
  | Refresh

section \<open>The device and the environment\<close>

record 'd dev_ops =
  dev_seek :: "u64 \<Rightarrow> 'd \<Rightarrow> 'd"
  dev_read :: "'d \<Rightarrow> (u8 option \<times> 'd) option"
  dev_write :: "u8 \<Rightarrow> 'd \<Rightarrow> 'd option"

record ed_env =
  LINES :: int
  COLS :: int
  device_file :: string
  junk_c :: u8

section \<open>Drawing the screen\<close>

definition cell_addr :: "u64 \<Rightarrow> int \<Rightarrow> int \<Rightarrow> u64" where
  "cell_addr addr y x = addr + word_of_int (y * 16) + word_of_int x"

definition printable :: "u8 \<Rightarrow> char" where
  "printable c = (if 0x20 \<le> c \<and> c \<le> 0x7f then char_of (unat c) else CHR ''.'')"

fun display_row ::
  "'d dev_ops \<Rightarrow> u64 \<Rightarrow> int \<Rightarrow> nat list \<Rightarrow> u8 \<Rightarrow> 'd \<Rightarrow> (curses list \<times> u8 \<times> 'd) option" where
  "display_row D addr y [] c d = Some ([], c, d)"
| "display_row D addr y (x # xs) c d = do {
     (r, d1) \<leftarrow> dev_read D (dev_seek D (cell_addr addr y (int x)) d);
     let c1 = (case r of Some b \<Rightarrow> b | None \<Rightarrow> c) AND 0xff;
     let out = MvAddStr (y + 3) (int x * 3 + 18) (hex_digits 2 (unat c1))
               # (if x = 7 then [AddCh CHR ''-''] else [])
               @ [MvAddCh (y + 3) (int x + 66) (printable c1)];
     (rest, c2, d2) \<leftarrow> display_row D addr y xs c1 d1;
     Some (out @ rest, c2, d2)
   }"

fun display_rows ::
  "'d dev_ops \<Rightarrow> u64 \<Rightarrow> nat list \<Rightarrow> u8 \<Rightarrow> 'd \<Rightarrow> (curses list \<times> u8 \<times> 'd) option" where
  "display_rows D addr [] c d = Some ([], c, d)"
| "display_rows D addr (y # ys) c d = do {
     (row, c1, d1) \<leftarrow> display_row D addr (int y) [0..<16] c d;
     (rest, c2, d2) \<leftarrow> display_rows D addr ys c1 d1;
     Some (MvAddStr (int y + 3) 1 (hex_digits 16 (unat (addr + word_of_int (int y * 16)))) # row @ rest,
           c2, d2)
   }"

definition display_head :: "ed_env \<Rightarrow> curses list" where
  "display_head E =
     [MvAddStr 1 2 ''Address'', MvAddStr 1 67 (device_file E),
      MvAddStr (LINES E - 2) 1
        ''Exit:[Ctrl+X] PageDown:[Ctrl+F] PageUp:[Ctrl+B] Redraw On/Off:[Ctrl+L] Redraw:[ESC]'']
     @ map (\<lambda>i. MvAddStr 1 (int i * 3 + 18) [CHR ''+'', hexdig i]) [0..<16]
     @ map (\<lambda>x. MvAddCh 2 (int x) CHR ''-'') [1..<nat (COLS E - 2)]"

definition display_memory :: "ed_env \<Rightarrow> 'd dev_ops \<Rightarrow> u64 \<Rightarrow> 'd \<Rightarrow> (curses list \<times> 'd) option" where
  "display_memory E D addr d = do {
     let addr = addr AND 0xfffffffffffffff0;
     (out, c, d1) \<leftarrow> display_rows D addr [0..<nat (LINES E - 5)] (junk_c E) d;
     Some (display_head E @ out, d1)
   }"

section \<open>The key loop\<close>

record 'd editor =
  ed_dev :: 'd
  top_addr :: u64
  ed_x :: int
  ed_y :: int
  ed_n :: int
  idata :: int
  autoredraw :: bool
  ed_out :: "curses list"

abbreviation "KEY_DOWN \<equiv> (258 :: int)"
abbreviation "KEY_UP \<equiv> (259 :: int)"
abbreviation "KEY_LEFT \<equiv> (260 :: int)"
abbreviation "KEY_RIGHT \<equiv> (261 :: int)"

definition redraw :: "ed_env \<Rightarrow> 'd dev_ops \<Rightarrow> 'd editor \<Rightarrow> 'd editor option" where
  "redraw E D s = do {
     (out, d) \<leftarrow> display_memory E D (top_addr s) (ed_dev s);
     Some (s\<lparr>ed_dev := d, ed_out := ed_out s @ out\<rparr>)
   }"

definition digit_value :: "int \<Rightarrow> int" where
  "digit_value c = (if 48 \<le> c \<and> c \<le> 57 then c - 48 else c - 65 + 10)"

definition type_digit :: "ed_env \<Rightarrow> 'd dev_ops \<Rightarrow> int \<Rightarrow> 'd editor \<Rightarrow> 'd editor option" where
  "type_digit E D c s =
     (let c = (if islower c then c - 0x20 else c);
          s = s\<lparr>ed_out := ed_out s @ [AddCh (char_of (nat c))]\<rparr>
      in if ed_n s = 0 then Some (s\<lparr>idata := digit_value c, ed_n := 1\<rparr>)
         else do {
           let v = or (idata s * 16) (digit_value c);
           d \<leftarrow> dev_write D (word_of_int v)
                  (dev_seek D (cell_addr (top_addr s) (ed_y s) (ed_x s)) (ed_dev s));
           let s = s\<lparr>idata := v, ed_dev := d, ed_n := 0\<rparr>;
           Some (if ed_x s < 15 then s\<lparr>ed_x := ed_x s + 1\<rparr>
                 else (let s = s\<lparr>ed_x := 0\<rparr> in
                       if ed_y s < LINES E - 6 then s\<lparr>ed_y := ed_y s + 1\<rparr> else s))
         })"

definition editor_key :: "ed_env \<Rightarrow> 'd dev_ops \<Rightarrow> int \<Rightarrow> 'd editor \<Rightarrow> 'd editor option" where
  "editor_key E D c s =
     (if c = KEY_UP \<or> c = 107 \<or> c = 75 then
        (if 0 < ed_y s then Some (s\<lparr>ed_n := 0, ed_y := ed_y s - 1\<rparr>)
         else redraw E D (s\<lparr>top_addr := top_addr s - 0x10\<rparr>))
      else if c = KEY_DOWN \<or> c = 106 \<or> c = 74 then
        (if ed_y s < LINES E - 6 then Some (s\<lparr>ed_n := 0, ed_y := ed_y s + 1\<rparr>)
         else redraw E D (s\<lparr>top_addr := top_addr s + 0x10\<rparr>))
      else if c = KEY_LEFT \<or> c = 104 \<or> c = 72 then
        Some (if 0 < ed_x s then s\<lparr>ed_n := 0, ed_x := ed_x s - 1\<rparr> else s)
      else if c = KEY_RIGHT \<or> c = 108 \<or> c = 76 then
        Some (if ed_x s < 15 then s\<lparr>ed_n := 0, ed_x := ed_x s + 1\<rparr> else s)
      else if c = 70 - 0x40 then
        redraw E D (s\<lparr>top_addr := top_addr s + word_of_int ((LINES E - 6) * 0x10)\<rparr>)
      else if c = 66 - 0x40 then
        redraw E D (s\<lparr>top_addr := top_addr s - word_of_int ((LINES E - 6) * 0x10)\<rparr>)
      else if c = -1 then (if autoredraw s then redraw E D s else Some s)
      else if c = 0x1b then redraw E D s
      else if c = 76 - 0x40 then redraw E D (s\<lparr>autoredraw := \<not> autoredraw s\<rparr>)
      else if isxdigit c then type_digit E D c s
      else Some s)"

text \<open>
  The loop over the keys \<^verbatim>\<open>wgetch\<close> delivers, up to and including Ctrl+X. A list that ends
  before Ctrl+X stands for an editor waiting for the next key.
\<close>

fun editor_run :: "ed_env \<Rightarrow> 'd dev_ops \<Rightarrow> int list \<Rightarrow> 'd editor \<Rightarrow> 'd editor option" where
  "editor_run E D [] s = Some s"
| "editor_run E D (c # cs) s = do {
     s1 \<leftarrow> editor_key E D c
       (s\<lparr>ed_out := ed_out s @ [Refresh, Move (3 + ed_y s) (18 + 3 * ed_x s + ed_n s)]\<rparr>);
     if c = 88 - 0x40 then Some s1 else editor_run E D cs s1
   }"

definition editor_start :: "ed_env \<Rightarrow> 'd dev_ops \<Rightarrow> u64 \<Rightarrow> 'd \<Rightarrow> 'd editor option" where
  "editor_start E D input_addr d =
     redraw E D \<lparr>ed_dev = d, top_addr = input_addr AND NOT 0xf, ed_x = uint (input_addr AND 0xf),
       ed_y = 0, ed_n = 0, idata = 0, autoredraw = True, ed_out = []\<rparr>"

text \<open>
  The command line. \<open>strtoull\<close> is the library's conversion; copying a device name of 256 or
  more characters runs over the end of \<^verbatim>\<open>device_file\<close>, whose result is the constructor
  \<open>Overflow\<close>.
\<close>

datatype args_result = Usage | Overflow | Start string u64

fun editor_args :: "(string \<Rightarrow> u64) \<Rightarrow> string list \<Rightarrow> args_result" where
  "editor_args strtoull [prog, a] = Start ''/dev/mem'' (strtoull a)"
| "editor_args strtoull [prog, f, a] = (if 256 \<le> length f then Overflow else Start f (strtoull a))"
| "editor_args strtoull args = Usage"

section \<open>What the screen should show\<close>

definition cell_image :: "(u64 \<Rightarrow> u8) \<Rightarrow> u64 \<Rightarrow> int \<Rightarrow> nat \<Rightarrow> curses list" where
  "cell_image mem addr y x =
     (let b = mem (cell_addr addr y (int x)) in
      MvAddStr (y + 3) (int x * 3 + 18) (hex_digits 2 (unat b))
      # (if x = 7 then [AddCh CHR ''-''] else [])
      @ [MvAddCh (y + 3) (int x + 66) (printable b)])"

definition row_image :: "(u64 \<Rightarrow> u8) \<Rightarrow> u64 \<Rightarrow> nat \<Rightarrow> curses list" where
  "row_image mem addr y =
     MvAddStr (int y + 3) 1 (hex_digits 16 (unat (addr + word_of_int (int y * 16))))
     # concat (map (cell_image mem addr (int y)) [0..<16])"

definition screen_image :: "ed_env \<Rightarrow> (u64 \<Rightarrow> u8) \<Rightarrow> u64 \<Rightarrow> curses list" where
  "screen_image E mem addr =
     display_head E @ concat (map (row_image mem addr) [0..<nat (LINES E - 5)])"

section \<open>Devices the editor can work on\<close>

text \<open>
  \<open>peek\<close> is the memory a device gives access to, \<open>dinv\<close> its invariant, \<open>valid\<close> the addresses
  it serves. A source delivers the byte at the position sought to and never changes memory by
  reading.
\<close>

locale byte_source =
  fixes D :: "'d dev_ops" and peek :: "'d \<Rightarrow> u64 \<Rightarrow> u8" and dinv :: "'d \<Rightarrow> bool"
    and valid :: "'d \<Rightarrow> u64 \<Rightarrow> bool"
  assumes seek_frame: "dinv d \<Longrightarrow> dinv (dev_seek D a d) \<and> peek (dev_seek D a d) = peek d
                        \<and> valid (dev_seek D a d) = valid d"
    and read_frame: "dinv d \<Longrightarrow> dev_read D d = Some (r, d') \<Longrightarrow>
                       dinv d' \<and> peek d' = peek d \<and> valid d' = valid d"
    and read_at: "dinv d \<Longrightarrow> valid d a \<Longrightarrow>
                    \<exists>d'. dev_read D (dev_seek D a d) = Some (Some (peek d a), d')"
begin

abbreviation "same d d' \<equiv> dinv d' \<and> peek d' = peek d \<and> valid d' = valid d"

lemma and_ff: "(b :: u8) AND 0xff = b"
proof -
  have "(0xff :: u8) = - 1" by simp
  then show ?thesis by (simp only: and.right_neutral)
qed

lemma row_frame:
  "dinv d \<Longrightarrow> display_row D addr y xs c d = Some (out, c', d') \<Longrightarrow> same d d'"
proof (induction xs arbitrary: c d out)
  case (Cons x xs)
  from Cons.prems obtain r d1 c1 rest where
    rd: "dev_read D (dev_seek D (cell_addr addr y (int x)) d) = Some (r, d1)"
    and row: "display_row D addr y xs c1 d1 = Some (rest, c', d')"
    by (auto simp: Let_def split: bind_splits prod.splits)
  from Cons.prems(1) have "same d d1"
    using seek_frame [of d] read_frame [OF _ rd] by metis
  with Cons.IH [OF _ row] show ?case by metis
qed simp

lemma rows_frame:
  "dinv d \<Longrightarrow> display_rows D addr ys c d = Some (out, c', d') \<Longrightarrow> same d d'"
proof (induction ys arbitrary: c d out)
  case (Cons y ys)
  from Cons.prems obtain row d1 c1 rest where
    row: "display_row D addr (int y) [0..<16] c d = Some (row, c1, d1)"
    and rest: "display_rows D addr ys c1 d1 = Some (rest, c', d')"
    by (auto simp del: display_row.simps upt_Suc split: bind_splits prod.splits)
  from row_frame [OF Cons.prems(1) row] Cons.IH [OF _ rest] show ?case by metis
qed simp

lemma display_frame:
  "dinv d \<Longrightarrow> display_memory E D addr d = Some (out, d') \<Longrightarrow> same d d'"
  using rows_frame by (fastforce simp: display_memory_def split: bind_splits prod.splits)

lemma row_shows:
  assumes "dinv d" and "\<forall>x \<in> set xs. valid d (cell_addr addr y (int x))"
  shows "\<exists>c' d'. display_row D addr y xs c d =
    Some (concat (map (cell_image (peek d) addr y) xs), c', d') \<and> same d d'"
  using assms
proof (induction xs arbitrary: c d)
  case (Cons x xs)
  let ?a = "cell_addr addr y (int x)"
  from Cons.prems read_at [of d ?a] obtain d1 where
    rd: "dev_read D (dev_seek D ?a d) = Some (Some (peek d ?a), d1)" by auto
  from Cons.prems(1) have same: "same d d1"
    using seek_frame [of d] read_frame [OF _ rd] by metis
  with Cons.prems Cons.IH [of d1 "peek d ?a AND 0xff"] obtain c' d' where
    "display_row D addr y xs (peek d ?a AND 0xff) d1 =
       Some (concat (map (cell_image (peek d) addr y) xs), c', d') \<and> same d1 d'"
    by auto
  with rd same show ?case by (auto simp: Let_def cell_image_def [of "peek d" addr y x] and_ff)
qed simp

lemma rows_show:
  assumes "dinv d" and "\<forall>y \<in> set ys. \<forall>x < 16. valid d (cell_addr addr (int y) (int x))"
  shows "\<exists>c' d'. display_rows D addr ys c d =
    Some (concat (map (row_image (peek d) addr) ys), c', d') \<and> same d d'"
  using assms
proof (induction ys arbitrary: c d)
  case (Cons y ys)
  from Cons.prems row_shows [of d "[0..<16]" addr "int y" c] obtain c1 d1 where
    row: "display_row D addr (int y) [0..<16] c d =
       Some (concat (map (cell_image (peek d) addr (int y)) [0..<16]), c1, d1)" and same: "same d d1"
    by auto
  with Cons.prems Cons.IH [of d1 c1] obtain c' d' where
    "display_rows D addr ys c1 d1 = Some (concat (map (row_image (peek d) addr) ys), c', d')" "same d1 d'"
    by auto
  with row same show ?case by (simp add: row_image_def [of "peek d" addr y] del: upt_Suc display_row.simps)
qed simp

lemma display_shows:
  assumes "dinv d" and "addr AND 0xfffffffffffffff0 = base"
    and "\<forall>y < nat (LINES E - 5). \<forall>x < 16. valid d (cell_addr base (int y) (int x))"
  shows "\<exists>d'. display_memory E D addr d = Some (screen_image E (peek d) base, d') \<and> same d d'"
  using rows_show [of d "[0..<nat (LINES E - 5)]" base "junk_c E"] assms
  by (auto simp: display_memory_def screen_image_def simp del: upt_Suc)

end

locale byte_device = byte_source +
  assumes write_at: "dinv d \<Longrightarrow> valid d a \<Longrightarrow> \<exists>d'. dev_write D b (dev_seek D a d) = Some d' \<and>
                       dinv d' \<and> peek d' = (peek d)(a := b) \<and> valid d' = valid d"

end
