(* ===== verification/Editor_Keys.thy ===== *)
theory Editor_Keys
  imports Mem_Editor
begin

text \<open>
  The key loop of the memory editor: the cursor invariant and its preservation, and, for any
  device that meets \<open>byte_device\<close>, which keys change memory and what typing bytes does.
\<close>

section \<open>The cursor invariant\<close>

definition ed_inv :: "ed_env \<Rightarrow> 'd editor \<Rightarrow> bool" where
  "ed_inv E s \<longleftrightarrow>
     0 \<le> ed_x s \<and> ed_x s \<le> 15 \<and> 0 \<le> ed_y s \<and> ed_y s \<le> max 0 (LINES E - 6) \<and>
     (ed_n s = 0 \<or> ed_n s = 1) \<and> 0 \<le> idata s \<and> idata s \<le> 255 \<and> (ed_n s = 1 \<longrightarrow> idata s < 16) \<and>
     top_addr s AND 0xf = 0"

lemma aligned_iff: "(a :: u64) AND 0xf = 0 \<longleftrightarrow> (\<exists>k. a = k * 0x10)"
proof
  assume 0: "a AND 0xf = 0"
  have "a = push_bit 4 (drop_bit 4 a)"
  proof (rule bit_word_eqI)
    fix n :: nat
    have "bit (a AND mask 4) n = bit (0 :: u64) n"
      using 0 by (simp add: mask_eq_exp_minus_1)
    then show "bit a n = bit (push_bit 4 (drop_bit 4 a)) n"
      by (auto simp: bit_simps dest: bit_imp_le_length)
  qed
  then have "a = drop_bit 4 a * 0x10" by (simp add: push_bit_eq_mult)
  then show "\<exists>k. a = k * 0x10" ..
next
  assume "\<exists>k. a = k * 0x10"
  then obtain k where "a = push_bit 4 k" by (auto simp: push_bit_eq_mult)
  then have "a AND mask 4 = 0"
    by (intro bit_word_eqI) (auto simp: bit_simps)
  then show "a AND 0xf = 0" by (simp add: mask_eq_exp_minus_1)
qed

lemma aligned_add:
  assumes "(a :: u64) AND 0xf = 0"
  shows "(a + word_of_int (k * 0x10)) AND 0xf = 0" and "(a - word_of_int (k * 0x10)) AND 0xf = 0"
proof -
  from assms obtain j where j: "a = j * 0x10" unfolding aligned_iff ..
  have "a + word_of_int (k * 0x10) = (j + word_of_int k) * 0x10"
    and "a - word_of_int (k * 0x10) = (j - word_of_int k) * 0x10"
    by (simp_all add: j distrib_right left_diff_distrib)
  then show "(a + word_of_int (k * 0x10)) AND 0xf = 0" and "(a - word_of_int (k * 0x10)) AND 0xf = 0"
    unfolding aligned_iff by blast+
qed

lemma or_nibbles: "0 \<le> d \<Longrightarrow> d < 16 \<Longrightarrow> or (a * 16) d = a * 16 + (d :: int)"
  using concat_bit_eq [of 4 d a]
  by (simp add: concat_bit_def or.commute push_bit_eq_mult take_bit_int_eq_self)

definition upper :: "int \<Rightarrow> int" where
  "upper c = (if islower c then c - 0x20 else c)"

lemma digit_range: "isxdigit c \<Longrightarrow> 0 \<le> digit_value (upper c) \<and> digit_value (upper c) < 16"
  by (auto simp: isxdigit_def islower_def upper_def digit_value_def)

lemma redraw_SomeD:
  "redraw E D s = Some s' \<Longrightarrow> \<exists>d out. s' = s\<lparr>ed_dev := d, ed_out := out\<rparr>"
  by (auto simp: redraw_def split: bind_splits prod.splits)

lemma ed_inv_redraw: "redraw E D s = Some s' \<Longrightarrow> ed_inv E s' = ed_inv E s"
  by (auto dest!: redraw_SomeD simp: ed_inv_def)

lemma ed_inv_out [simp]: "ed_inv E (s\<lparr>ed_out := out\<rparr>) = ed_inv E s"
  by (simp add: ed_inv_def)

lemma type_digit_first:
  "ed_n s = 0 \<Longrightarrow> type_digit E D c s =
     Some (s\<lparr>ed_out := ed_out s @ [AddCh (char_of (nat (upper c)))], idata := digit_value (upper c), ed_n := 1\<rparr>)"
  by (simp add: type_digit_def upper_def Let_def)

text \<open>Where the cursor goes after a byte.\<close>

definition advance :: "ed_env \<Rightarrow> int \<Rightarrow> int \<Rightarrow> int \<times> int" where
  "advance E x y = (if x < 15 then (x + 1, y) else (0, if y < LINES E - 6 then y + 1 else y))"

lemma type_digit_second:
  assumes "ed_n s \<noteq> 0" and "0 \<le> digit_value (upper c)" and "digit_value (upper c) < 16"
    and "dev_write D (word_of_int (idata s * 16 + digit_value (upper c)))
           (dev_seek D (cell_addr (top_addr s) (ed_y s) (ed_x s)) (ed_dev s)) = r"
  shows "type_digit E D c s = map_option (\<lambda>d.
     s\<lparr>ed_out := ed_out s @ [AddCh (char_of (nat (upper c)))], ed_dev := d,
       idata := idata s * 16 + digit_value (upper c), ed_n := 0,
       ed_x := fst (advance E (ed_x s) (ed_y s)), ed_y := snd (advance E (ed_x s) (ed_y s))\<rparr>) r"
proof -
  have "or (idata s * 16) (digit_value (upper c)) = idata s * 16 + digit_value (upper c)"
    using assms(2,3) by (rule or_nibbles)
  with assms(1,4) show ?thesis
    by (cases r) (auto simp: type_digit_def Let_def advance_def upper_def)
qed

lemma type_digit_inv:
  assumes inv: "ed_inv E s" and c: "isxdigit c" and step: "type_digit E D c s = Some s'"
  shows "ed_inv E s'"
proof (cases "ed_n s = 0")
  case True
  with inv digit_range [OF c] type_digit_first [OF True, of E D c] step show ?thesis
    by (auto simp: ed_inv_def)
next
  case False
  with inv have "ed_n s = 1" "0 \<le> idata s" "idata s < 16" by (auto simp: ed_inv_def)
  note second = type_digit_second [OF False, of c D _ E, OF _ _ refl]
  from step second digit_range [OF c] obtain d where
    "s' = s\<lparr>ed_out := ed_out s @ [AddCh (char_of (nat (upper c)))], ed_dev := d,
       idata := idata s * 16 + digit_value (upper c), ed_n := 0,
       ed_x := fst (advance E (ed_x s) (ed_y s)), ed_y := snd (advance E (ed_x s) (ed_y s))\<rparr>"
    by auto
  with inv digit_range [OF c] \<open>idata s < 16\<close> show ?thesis
    by (auto simp: ed_inv_def advance_def)
qed

lemma editor_key_inv:
  assumes inv: "ed_inv E s" and step: "editor_key E D c s = Some s'"
  shows "ed_inv E s'"
proof -
  have move: "ed_inv E (s\<lparr>top_addr := top_addr s + word_of_int (k * 0x10)\<rparr>)"
    "ed_inv E (s\<lparr>top_addr := top_addr s - word_of_int (k * 0x10)\<rparr>)" for k
    using inv aligned_add by (auto simp: ed_inv_def)
  have flag: "ed_inv E (s\<lparr>autoredraw := b\<rparr>)" for b using inv by (simp add: ed_inv_def)
  show ?thesis
    using step inv move [of 1] move [of "LINES E - 6"] flag
    by (auto simp: editor_key_def dest: ed_inv_redraw type_digit_inv split: if_splits)
      (auto simp: ed_inv_def)
qed

lemma editor_run_inv:
  "ed_inv E s \<Longrightarrow> editor_run E D cs s = Some s' \<Longrightarrow> ed_inv E s'"
proof (induction cs arbitrary: s)
  case (Cons c cs)
  let ?s0 = "s\<lparr>ed_out := ed_out s @ [Refresh, Move (3 + ed_y s) (18 + 3 * ed_x s + ed_n s)]\<rparr>"
  from Cons.prems(2) obtain s1 where key: "editor_key E D c ?s0 = Some s1"
    and rest: "(if c = 88 - 0x40 then Some s1 else editor_run E D cs s1) = Some s'"
    by (auto split: bind_splits)
  have "ed_inv E s1" using editor_key_inv [OF _ key] Cons.prems(1) by simp
  with rest Cons.IH [of s1] show ?case by (auto split: if_splits)
qed simp

lemma editor_start_inv:
  assumes "editor_start E D a d = Some s"
  shows "ed_inv E s"
proof -
  have "uint (a AND 0xf) \<le> uint (0xf :: u64)"
    unfolding word_le_def [symmetric] by (rule word_and_le1)
  then have "uint (a AND 0xf) \<le> 15" by simp
  moreover have "(a AND NOT 0xf) AND 0xf = 0"
    by (rule bit_word_eqI) (simp only: bit_and_iff bit_not_iff, auto)
  ultimately have "ed_inv E \<lparr>ed_dev = d, top_addr = a AND NOT 0xf, ed_x = uint (a AND 0xf),
       ed_y = 0, ed_n = 0, idata = 0, autoredraw = True, ed_out = []\<rparr>"
    by (simp add: ed_inv_def)
  with assms show ?thesis by (simp add: editor_start_def ed_inv_redraw)
qed

section \<open>Keys and memory\<close>

lemma key_digit: "isxdigit c \<Longrightarrow> editor_key E D c s = type_digit E D c s"
  unfolding isxdigit_def by (elim disjE) (simp_all add: editor_key_def isxdigit_def)

definition hexkey :: "nat \<Rightarrow> int" where
  "hexkey v = (if v < 10 then 48 + int v else 55 + int v)"

definition byte_keys :: "u8 \<Rightarrow> int list" where
  "byte_keys b = [hexkey (unat b div 16), hexkey (unat b mod 16)]"

lemma hexkey: "v < 16 \<Longrightarrow> isxdigit (hexkey v) \<and> digit_value (upper (hexkey v)) = int v \<and> hexkey v \<noteq> 24"
  by (auto simp: hexkey_def isxdigit_def digit_value_def upper_def islower_def)

context byte_source
begin

lemma redraw_frame: "dinv (ed_dev s) \<Longrightarrow> redraw E D s = Some s' \<Longrightarrow> same (ed_dev s) (ed_dev s')"
  using display_frame by (fastforce simp: redraw_def split: bind_splits prod.splits)

text \<open>Only the second digit of a byte can change memory.\<close>

lemma key_no_write:
  assumes "dinv (ed_dev s)" and "editor_key E D c s = Some s'" and "ed_n s = 0 \<or> \<not> isxdigit c"
  shows "same (ed_dev s) (ed_dev s')"
proof (cases "isxdigit c")
  case True
  with assms show ?thesis by (auto simp: key_digit type_digit_first)
next
  case False
  have "same (ed_dev s) (ed_dev s1)" if "redraw E D (s\<lparr>top_addr := a\<rparr>) = Some s1" for a s1
    using redraw_frame [OF _ that] assms(1) by simp
  moreover have "same (ed_dev s) (ed_dev s1)" if "redraw E D (s\<lparr>autoredraw := b\<rparr>) = Some s1" for b s1
    using redraw_frame [OF _ that] assms(1) by simp
  moreover note redraw_frame [OF assms(1)]
  ultimately show ?thesis
    using assms(1,2) False by (auto simp: editor_key_def split: if_splits)
qed

end

section \<open>Typing bytes\<close>

definition cursor_pos :: "'d editor \<Rightarrow> nat" where
  "cursor_pos s = nat (16 * ed_y s + ed_x s)"

lemma cell_addr_pos:
  "ed_inv E s \<Longrightarrow> cell_addr (top_addr s) (ed_y s) (ed_x s) = top_addr s + of_nat (cursor_pos s)"
  by (simp add: ed_inv_def cell_addr_def cursor_pos_def of_nat_nat add.assoc mult.commute)

lemma advance_pos:
  assumes "0 \<le> x" "x \<le> 15" "0 \<le> y" and "16 * y + x + 1 < 16 * (LINES E - 5)"
  shows "16 * snd (advance E x y) + fst (advance E x y) = 16 * y + x + 1"
  using assms by (auto simp: advance_def)

context byte_device
begin

lemma second_digit:
  assumes inv: "ed_inv E s" and n: "ed_n s = 1" and c: "isxdigit c" and d: "dinv (ed_dev s)"
    and v: "valid (ed_dev s) (cell_addr (top_addr s) (ed_y s) (ed_x s))"
  shows "\<exists>s'. editor_key E D c s = Some s' \<and> ed_n s' = 0 \<and> top_addr s' = top_addr s \<and>
    (ed_x s', ed_y s') = advance E (ed_x s) (ed_y s) \<and> dinv (ed_dev s') \<and>
    valid (ed_dev s') = valid (ed_dev s) \<and> peek (ed_dev s') =
      (peek (ed_dev s))(cell_addr (top_addr s) (ed_y s) (ed_x s) :=
         word_of_int (idata s * 16 + digit_value (upper c)))"
proof -
  from write_at [OF d v] obtain d' where
    w: "dev_write D (word_of_int (idata s * 16 + digit_value (upper c)))
         (dev_seek D (cell_addr (top_addr s) (ed_y s) (ed_x s)) (ed_dev s)) = Some d'"
    and d': "dinv d'" "valid d' = valid (ed_dev s)" "peek d' = (peek (ed_dev s))
       (cell_addr (top_addr s) (ed_y s) (ed_x s) := word_of_int (idata s * 16 + digit_value (upper c)))"
    by blast
  have "ed_n s \<noteq> 0" using n by simp
  from type_digit_second [OF this _ _ w] digit_range [OF c] d' show ?thesis
    by (simp add: key_digit [OF c])
qed

lemma type_byte:
  assumes inv: "ed_inv E s" and n: "ed_n s = 0" and d: "dinv (ed_dev s)"
    and v: "valid (ed_dev s) (cell_addr (top_addr s) (ed_y s) (ed_x s))"
  shows "\<exists>s'. editor_run E D (byte_keys b @ ks) s = editor_run E D ks s' \<and> ed_inv E s' \<and> ed_n s' = 0 \<and>
    top_addr s' = top_addr s \<and> (ed_x s', ed_y s') = advance E (ed_x s) (ed_y s) \<and>
    dinv (ed_dev s') \<and> valid (ed_dev s') = valid (ed_dev s) \<and>
    peek (ed_dev s') = (peek (ed_dev s))(cell_addr (top_addr s) (ed_y s) (ed_x s) := b)"
proof -
  let ?hi = "unat b div 16" and ?lo = "unat b mod 16"
  let ?shown = "\<lambda>s :: 'd editor. s\<lparr>ed_out := ed_out s @ [Refresh, Move (3 + ed_y s) (18 + 3 * ed_x s + ed_n s)]\<rparr>"
  have "unat b < 256" using unsigned_less [where ?'a = nat and w = b] by simp
  then have hi: "?hi < 16" and lo: "?lo < 16" by (auto simp: div_less_iff_less_mult)
  have n': "ed_n (?shown s) = 0" using n by simp
  define s1 where "s1 = (?shown s)\<lparr>ed_out := ed_out (?shown s) @ [AddCh (char_of (nat (upper (hexkey ?hi))))],
     idata := int ?hi, ed_n := 1\<rparr>"
  have key1: "editor_key E D (hexkey ?hi) (?shown s) = Some s1"
    using hexkey [OF hi] type_digit_first [OF n'] by (simp add: key_digit s1_def)
  have inv1: "ed_inv E (?shown s1)"
    using editor_key_inv [OF _ key1] inv by simp
  have "ed_n (?shown s1) = 1" "dinv (ed_dev (?shown s1))"
    "valid (ed_dev (?shown s1)) (cell_addr (top_addr (?shown s1)) (ed_y (?shown s1)) (ed_x (?shown s1)))"
    using d v by (simp_all add: s1_def)
  from second_digit [OF inv1 this(1) _ this(2,3), of "hexkey ?lo"] hexkey [OF lo] obtain s2 where
    key2: "editor_key E D (hexkey ?lo) (?shown s1) = Some s2"
    and s2: "ed_n s2 = 0" "top_addr s2 = top_addr s" "(ed_x s2, ed_y s2) = advance E (ed_x s) (ed_y s)"
      "dinv (ed_dev s2)" "valid (ed_dev s2) = valid (ed_dev s)"
      "peek (ed_dev s2) = (peek (ed_dev s))
         (cell_addr (top_addr s) (ed_y s) (ed_x s) := word_of_int (int ?hi * 16 + int ?lo))"
    by (auto simp: s1_def)
  have "int ?hi * 16 + int ?lo = int (unat b)"
    by (metis div_mult_mod_eq of_nat_add of_nat_mult of_nat_numeral)
  then have "word_of_int (int ?hi * 16 + int ?lo) = b" by simp
  moreover have "editor_run E D (byte_keys b @ ks) s = editor_run E D ks s2"
    using key1 key2 hexkey [OF hi] hexkey [OF lo] by (simp add: byte_keys_def)
  ultimately show ?thesis
    using s2 editor_key_inv [OF inv1 key2] by auto
qed

lemma type_bytes:
  assumes "ed_inv E s" and "ed_n s = 0" and "dinv (ed_dev s)"
    and "cursor_pos s + length bs \<le> nat (16 * (LINES E - 5))"
    and "\<forall>i < length bs. valid (ed_dev s) (top_addr s + of_nat (cursor_pos s + i))"
  shows "\<exists>s'. editor_run E D (concat (map byte_keys bs)) s = Some s' \<and>
    dinv (ed_dev s') \<and> top_addr s' = top_addr s \<and>
    peek (ed_dev s') = range_write (peek (ed_dev s)) (top_addr s + of_nat (cursor_pos s)) bs"
  using assms
proof (induction bs arbitrary: s)
  case (Cons b bs)
  let ?a = "top_addr s + of_nat (cursor_pos s)"
  have cur: "cell_addr (top_addr s) (ed_y s) (ed_x s) = ?a"
    by (rule cell_addr_pos [OF Cons.prems(1)])
  have "valid (ed_dev s) ?a" using Cons.prems(5) by force
  from type_byte [OF Cons.prems(1-3), of b "concat (map byte_keys bs)"] this obtain s1 where
    run: "editor_run E D (byte_keys b @ concat (map byte_keys bs)) s =
       editor_run E D (concat (map byte_keys bs)) s1"
    and s1: "ed_inv E s1" "ed_n s1 = 0" "top_addr s1 = top_addr s"
      "(ed_x s1, ed_y s1) = advance E (ed_x s) (ed_y s)" "dinv (ed_dev s1)"
      "valid (ed_dev s1) = valid (ed_dev s)" "peek (ed_dev s1) = (peek (ed_dev s))(?a := b)"
    unfolding cur by blast
  show ?case
  proof (cases "bs = []")
    case True
    with run s1 show ?thesis by auto
  next
    case False
    then have "1 \<le> length bs" by (cases bs) auto
    with Cons.prems(4) have "nat (16 * ed_y s + ed_x s) + 2 \<le> nat (16 * (LINES E - 5))"
      by (simp add: cursor_pos_def)
    then have "16 * ed_y s + ed_x s + 1 < 16 * (LINES E - 5)" by linarith
    with Cons.prems(1) advance_pos [of "ed_x s" "ed_y s" E] s1(4)
    have "16 * ed_y s1 + ed_x s1 = 16 * ed_y s + ed_x s + 1"
      by (auto simp: ed_inv_def prod_eq_iff)
    then have pos: "cursor_pos s1 = cursor_pos s + 1"
      using Cons.prems(1) by (auto simp: cursor_pos_def ed_inv_def)
    have "\<forall>i < length bs. valid (ed_dev s1) (top_addr s1 + of_nat (cursor_pos s1 + i))"
    proof (intro allI impI)
      fix i assume "i < length bs"
      with Cons.prems(5) have "valid (ed_dev s) (top_addr s + of_nat (cursor_pos s + Suc i))"
        by (metis Suc_mono length_Cons)
      then show "valid (ed_dev s1) (top_addr s1 + of_nat (cursor_pos s1 + i))"
        by (simp only: s1(3,6) pos add_Suc_right add_Suc Suc_eq_plus1 add.assoc)
          (simp add: ac_simps)
    qed
    moreover have "cursor_pos s1 + length bs \<le> nat (16 * (LINES E - 5))"
      using Cons.prems(4) by (simp add: pos)
    ultimately show ?thesis
      using Cons.IH [of s1] s1 run by (simp add: pos ac_simps fun_upd_def)
  qed
qed auto

end

end
