(* ===== verification/Editor_Devices.thy ===== *)
theory Editor_Devices
  imports Kmem Editor_Keys
begin

text \<open>
  The memory editor on the two memory drivers. A system call enters the kernel with no cached
  translation of the driver's page (a kernel with page-table isolation flushes it), runs the
  driver's handler on a one-byte request and hands the byte to the editor. The physical-memory
  driver is a \<open>byte_device\<close> on physical memory below 2^52; the kernel-memory driver is a
  \<open>byte_source\<close> on the mapped kernel addresses outside the kernel image. Two virtual addresses
  may share a frame, so the second is no \<open>byte_device\<close>: a write changes every alias.
\<close>

definition read1 :: "(u8 list \<times> u64 sysret \<times> machine) option \<Rightarrow> (u8 option \<times> machine) option" where
  "read1 r = map_option (\<lambda>(bs, res, m).
     (case res of Inl _ \<Rightarrow> None | Inr _ \<Rightarrow> (case bs of [] \<Rightarrow> None | b # _ \<Rightarrow> Some b), m)) r"

definition pmem_ops :: "mem_env \<Rightarrow> machine dev_ops" where
  "pmem_ops E = \<lparr>
     dev_seek = (\<lambda>a m. snd (pmem_llseek a SEEK_SET m)),
     dev_read = (\<lambda>m. read1 (pmem_read E 0 1 (tlb_flush m))),
     dev_write = (\<lambda>b m. map_option snd (pmem_write E 0 [b] 1 (tlb_flush m))) \<rparr>"

definition kmem_ops :: "mem_env \<Rightarrow> machine dev_ops" where
  "kmem_ops E = \<lparr>
     dev_seek = (\<lambda>a m. snd (kmem_llseek a SEEK_SET m)),
     dev_read = (\<lambda>m. read1 (kmem_read E 0 1 (tlb_flush m))),
     dev_write = (\<lambda>b m. map_option snd (kmem_write E 0 [b] 1 (tlb_flush m))) \<rparr>"

text \<open>The memory the kernel-memory driver shows: the processor's view of an address.\<close>

definition cpu_byte :: "mem_env \<Rightarrow> machine \<Rightarrow> u64 \<Rightarrow> u8" where
  "cpu_byte E m a = (case env_leaf E (m_ptes m) a of
     None \<Rightarrow> 0 | Some q \<Rightarrow> m_phys m (phys_addr (m_ptes m q) a))"

definition kmem_valid :: "mem_env \<Rightarrow> machine \<Rightarrow> u64 \<Rightarrow> bool" where
  "kmem_valid E m a \<longleftrightarrow> canonical57 a \<and> \<not> image_range a \<and> (\<exists>q. mapped_leaf E (m_ptes m) a q)"

lemma copy_len_1: "copy_len pos 1 = 1"
proof -
  have "unat (copy_len pos 1) = 1"
    by (simp add: unat_copy_len)
  then show ?thesis by (metis unat_1 word_unat_eq_iff)
qed

lemma tlb_flush_simps [simp]:
  "m_phys (tlb_flush m) = m_phys m" "m_ptes (tlb_flush m) = m_ptes m" "f_pos (tlb_flush m) = f_pos m"
  "m_tlb (tlb_flush m) = Map.empty" "window E (tlb_flush m) p = window E m p"
  by (simp_all add: tlb_flush_def window_def)

lemma cpu_byte_cong: "m_phys m' = m_phys m \<Longrightarrow> m_ptes m' = m_ptes m \<Longrightarrow> cpu_byte E m' = cpu_byte E m"
  by (rule ext) (simp add: cpu_byte_def split: option.split)

lemma kmem_valid_cong: "m_ptes m' = m_ptes m \<Longrightarrow> kmem_valid E m' = kmem_valid E m"
  by (rule ext) (simp add: kmem_valid_def)

lemma range_read_1 [simp]: "range_read mem a (Suc 0) = [mem a]"
  by (simp add: range_read_def)

interpretation pmem_dev: byte_device "pmem_ops E" m_phys "\<lambda>m. window E m p" "\<lambda>_ a. a < 2 ^ 52"
  for E p
proof (unfold_locales, goal_cases)
  case (1 m a)
  then show ?case by (simp add: pmem_ops_def window_def)
next
  case (2 m r m')
  let ?m = "tlb_flush m"
  have win: "window E ?m p" and n: "0 < copy_len (f_pos ?m) 1" using 2 by (simp_all add: copy_len_1)
  from pmem_read_through [OF win n window_miss [OF win _ window_pte_present [OF win]]]
  obtain bs T where "pmem_read E 0 1 ?m = Some (bs, Inr (copy_len (f_pos ?m) 1), ?m\<lparr>m_tlb := T\<rparr>)"
    by auto
  with 2 show ?case by (auto simp: pmem_ops_def read1_def window_def split: list.splits)
next
  case (3 m a)
  then have "window E (tlb_flush (m\<lparr>f_pos := a\<rparr>)) p" by (simp add: window_def)
  from pmem_read_window [OF this, of 1] 3 show ?case
    by (auto simp: pmem_ops_def read1_def)
next
  case (4 m a b)
  then have "window E (tlb_flush (m\<lparr>f_pos := a\<rparr>)) p" by (simp add: window_def)
  from pmem_write_window [OF this, of 1 "[b]"] 4 show ?case
    by (auto simp: pmem_ops_def copy_len_1 window_def)
qed

interpretation kmem_src: byte_source "kmem_ops E" "cpu_byte E" "\<lambda>m. window E m p" "kmem_valid E"
  for E p
proof (unfold_locales, goal_cases)
  case (1 m a)
  then show ?case
    by (auto simp: kmem_ops_def Let_def intro: window_cong [THEN iffD2] cpu_byte_cong kmem_valid_cong)
next
  case (2 m r m')
  let ?m = "tlb_flush m"
  have win: "window E ?m p" using 2 by simp
  from 2 obtain pa where pa: "kmem_phys E (m_ptes ?m) (kmem_addr (f_pos ?m)) = Some pa"
    by (cases "kmem_phys E (m_ptes ?m) (kmem_addr (f_pos ?m))") (auto simp: kmem_ops_def read1_def kmem_read_def)
  from kmem_read_through [OF win _ pa, of 1] obtain bs r' T where
    "kmem_read E 0 1 ?m = Some (bs, r', ?m\<lparr>m_tlb := T\<rparr>)" by auto
  with 2(2) have "m' = ?m\<lparr>m_tlb := T\<rparr>" by (simp add: kmem_ops_def read1_def)
  then have "m_phys m' = m_phys m" "m_ptes m' = m_ptes m" by auto
  with 2(1) window_cong [of m' m] cpu_byte_cong [of m' m] kmem_valid_cong [of m' m] show ?case
    by simp
next
  case (3 m a)
  let ?m = "tlb_flush (snd (kmem_llseek a SEEK_SET m))"
  from 3 obtain q where a: "canonical57 a" "\<not> image_range a" and q: "mapped_leaf E (m_ptes m) a q"
    by (auto simp: kmem_valid_def)
  have win: "window E ?m p" using 3 by (simp add: window_def Let_def)
  have pos: "kmem_addr (f_pos ?m) = a" "page_off (f_pos ?m) = page_off a"
    using kmem_seek_address_facts [OF a(1), of m] by (simp_all add: Let_def)
  have "kmem_phys E (m_ptes ?m) (kmem_addr (f_pos ?m)) = Some (page_base (m_ptes m q))"
    using q a(2) unfolding pos(1) by (simp add: kmem_phys_walk mapped_leaf_def Let_def)
  moreover have "(page_base (m_ptes m q) AND phys_mask) OR page_off (f_pos ?m) = phys_addr (m_ptes m q) a"
    using pos(2) frame_of_leaf by metis
  ultimately obtain T where "kmem_read E 0 1 ?m =
      Some (range_read (m_phys ?m) (phys_addr (m_ptes m q) a) 1, Inr 1, ?m\<lparr>m_tlb := T\<rparr>)"
    using kmem_read_through [OF win, of "page_base (m_ptes m q)" 1] by (auto simp only: copy_len_1 unat_1 tlb_flush_simps)
  moreover have "m_phys ?m (phys_addr (m_ptes m q) a) = cpu_byte E m a"
    using q by (simp add: cpu_byte_def mapped_leaf_def Let_def)
  ultimately show ?case by (simp add: kmem_ops_def read1_def)
qed

section \<open>The screen over the two drivers\<close>

lemma below_2_52: "unat (a :: u64) + k < 2 ^ 52 \<Longrightarrow> a + of_nat k < 2 ^ 52"
  by (simp add: word_less_nat_alt unat_word_ariths unat_of_nat)

lemma cell_addr_nat: "cell_addr a (int y) (int x) = a + of_nat (16 * y + x)"
  by (simp add: cell_addr_def mult.commute add.assoc)

lemma screen_below:
  assumes "unat base + 16 * nat (LINES E - 5) \<le> 2 ^ 52"
  shows "\<forall>y < nat (LINES E - 5). \<forall>x < 16. cell_addr base (int y) (int x) < 2 ^ 52"
  unfolding cell_addr_nat
proof (intro allI impI below_2_52)
  fix x y :: nat assume "y < nat (LINES E - 5)" and "x < 16"
  then show "unat base + (16 * y + x) < 2 ^ 52" using assms by linarith
qed


abbreviation "sample_ed_env \<equiv> \<lparr>LINES = 24, COLS = 80, device_file = ''/dev/pmem'', junk_c = 0\<rparr>"



lemma sample_valid: "unat k < 16 \<Longrightarrow> kmem_valid sample_env (sample_machine 0) (0x2ff0 + k)"
proof -
  assume k: "unat k < 16"
  then have "0x2ff0 + k < 2 ^ 56"
    by (simp add: word_less_nat_alt unat_word_ariths)
  then have low: "(0x2ff0 + k) AND mask 56 = 0x2ff0 + k" by (rule less_mask_eq)
  have "n < 56" if "bit (0x2ff0 + k) n" for n
    using that by (subst (asm) low [symmetric]) (simp add: bit_and_iff bit_mask_iff)
  then have "canonical57 (0x2ff0 + k)" by (force simp: canonical57_def)
  moreover have "\<not> image_range (0x2ff0 + k)"
    using \<open>0x2ff0 + k < 2 ^ 56\<close> by (auto simp: image_range_def word_less_nat_alt word_le_nat_alt)
  moreover have "mapped_leaf sample_env sample_ptes (0x2ff0 + k) 0x4010"
  proof -
    have "page_base (0x2ff0 + k) = page_base 0x2ff0"
      using page_base_add [of "0x2ff0" "unat k"] k by (simp add: unat_page_off)
    then have walk: "hw_walk 0 sample_ptes (0x1000 AND phys_mask) levels4 (0x2ff0 + k) = Some 0x4010"
      by (subst hw_walk_page [of _ "0x2ff0"]) (auto simp: sample_ptes_def phys_mask_def hw_entry_def
          hw_index_def hw_table_def Let_def)
    have "bit (sample_ptes 0x4010) 0" by (simp add: sample_leaf(3))
    with walk x86_4.get_pte4_finds(1) [OF _ walk] show ?thesis
      by (simp add: mapped_leaf_def sample_env_def x86_env_def kmem_get_pte_def)
  qed
  ultimately show ?thesis by (auto simp: kmem_valid_def)
qed


section \<open>Typing over the physical-memory driver\<close>


definition sample_editor :: "machine editor" where
  "sample_editor = \<lparr>ed_dev = sample_machine 0, top_addr = 0x5ff0, ed_x = 15, ed_y = 0, ed_n = 0,
     idata = 0, autoredraw = True, ed_out = []\<rparr>"

lemma sample_editor_inv: "ed_inv sample_ed_env sample_editor"
  by (simp add: ed_inv_def sample_editor_def)


lemma and_line:
  assumes "(a :: u64) AND 0xf = 0"
  shows "a AND 0xfffffffffffffff0 = a"
proof -
  have "a = (a AND 0xf) OR (a AND NOT 0xf)"
    by (rule bit_word_eqI) (simp only: bit_and_iff bit_or_iff bit_not_iff, auto)
  moreover have "(0xfffffffffffffff0 :: u64) = NOT 0xf" by simp
  ultimately show ?thesis using assms by (metis or.left_neutral)
qed

lemma first_then_scroll:
  assumes win: "window E (ed_dev s) p" and inv: "ed_inv Ed s" and n: "ed_n s = 0" and y: "ed_y s = 0"
    and c: "isxdigit c" and below: "unat (top_addr s - 0x10) + 16 * nat (LINES Ed - 5) \<le> 2 ^ 52"
  shows "\<exists>s'. editor_run Ed (pmem_ops E) [c, KEY_UP] s = Some s' \<and> ed_inv Ed s' \<and> ed_n s' = 1 \<and>
    ed_x s' = ed_x s \<and> ed_y s' = 0 \<and> idata s' = digit_value (upper c) \<and>
    top_addr s' = top_addr s - 0x10 \<and> window E (ed_dev s') p \<and> m_phys (ed_dev s') = m_phys (ed_dev s)"
proof -
  let ?shown = "\<lambda>s :: machine editor. s\<lparr>ed_out := ed_out s @ [Refresh, Move (3 + ed_y s) (18 + 3 * ed_x s + ed_n s)]\<rparr>"
  have n': "ed_n (?shown s) = 0" using n by simp
  let ?s1 = "(?shown s)\<lparr>ed_out := ed_out (?shown s) @ [AddCh (char_of (nat (upper c)))],
     idata := digit_value (upper c), ed_n := 1\<rparr>"
  have key1: "editor_key Ed (pmem_ops E) c (?shown s) = Some ?s1"
    using c type_digit_first [OF n'] by (simp add: key_digit)
  have inv1: "ed_inv Ed ?s1" using editor_key_inv [OF _ key1] inv by simp
  let ?s2 = "(?shown ?s1)\<lparr>top_addr := top_addr s - 0x10\<rparr>"
  have al: "(top_addr s - 0x10) AND 0xf = 0"
    using aligned_add(2) [of "top_addr s" 1] inv by (simp add: ed_inv_def)
  from pmem_dev.display_shows [OF win and_line [OF al] screen_below [OF below]] obtain out m' where
    "display_memory Ed (pmem_ops E) (top_addr s - 0x10) (ed_dev s) = Some (out, m')"
    and m': "window E m' p" "m_phys m' = m_phys (ed_dev s)"
    by blast
  then have key2: "editor_key Ed (pmem_ops E) KEY_UP (?shown ?s1) = Some
      ((?shown ?s1)\<lparr>top_addr := top_addr s - 0x10, ed_dev := m', ed_out := ed_out (?shown ?s1) @ out\<rparr>)"
    using y by (simp add: editor_key_def redraw_def)
  have inv2: "ed_inv Ed ((?shown ?s1)\<lparr>top_addr := top_addr s - 0x10, ed_dev := m',
      ed_out := ed_out (?shown ?s1) @ out\<rparr>)"
    by (rule editor_key_inv [OF _ key2]) (simp only: ed_inv_out inv1)
  from key1 key2 have
    "editor_run Ed (pmem_ops E) [c, KEY_UP] s = Some
      ((?shown ?s1)\<lparr>top_addr := top_addr s - 0x10, ed_dev := m', ed_out := ed_out (?shown ?s1) @ out\<rparr>)"
    using c by (auto simp: isxdigit_def)
  with m' y inv2 show ?thesis by simp
qed

text \<open>A byte begun on the top line and interrupted by moving up is completed on the line the
  screen scrolled to: the key handler keeps the first digit, and the second writes the byte made
  of both digits sixteen addresses lower than the one the first was typed on.\<close>

theorem editor_digit_survives_scroll:
  assumes win: "window E (ed_dev s) p" and inv: "ed_inv Ed s" and n: "ed_n s = 0" and y: "ed_y s = 0"
    and c: "isxdigit c" "isxdigit c'" and "5 < LINES Ed"
    and below: "unat (top_addr s - 0x10) + 16 * nat (LINES Ed - 5) \<le> 2 ^ 52"
  shows "\<exists>s'. editor_run Ed (pmem_ops E) [c, KEY_UP, c'] s = Some s' \<and>
    top_addr s' = top_addr s - 0x10 \<and> m_phys (ed_dev s') = (m_phys (ed_dev s))
      (top_addr s - 0x10 + word_of_int (ed_x s) :=
         word_of_int (digit_value (upper c) * 16 + digit_value (upper c')))"
proof -
  from first_then_scroll [OF win inv n y c(1) below] obtain s1 where
    run: "editor_run Ed (pmem_ops E) [c, KEY_UP] s = Some s1" and
    s1: "ed_inv Ed s1" "ed_n s1 = 1" "ed_x s1 = ed_x s" "ed_y s1 = 0" "idata s1 = digit_value (upper c)"
      "top_addr s1 = top_addr s - 0x10" "window E (ed_dev s1) p" "m_phys (ed_dev s1) = m_phys (ed_dev s)"
    by blast
  let ?s1 = "s1\<lparr>ed_out := ed_out s1 @ [Refresh, Move (3 + ed_y s1) (18 + 3 * ed_x s1 + ed_n s1)]\<rparr>"
  have x: "0 \<le> ed_x s" "ed_x s \<le> 15" using inv by (auto simp: ed_inv_def)
  have "cell_addr (top_addr s1) (ed_y s1) (ed_x s1) = top_addr s - 0x10 + of_nat (nat (ed_x s))"
    using x by (simp add: cell_addr_def s1)
  moreover have "top_addr s - 0x10 + of_nat (nat (ed_x s)) < 2 ^ 52"
    using x \<open>5 < LINES Ed\<close> below by (intro below_2_52) linarith
  ultimately have "cell_addr (top_addr ?s1) (ed_y ?s1) (ed_x ?s1) < 2 ^ 52" by simp
  with pmem_dev.second_digit [of Ed ?s1 c' E p] s1 c(2) obtain s2 where
    "editor_key Ed (pmem_ops E) c' ?s1 = Some s2" "top_addr s2 = top_addr s - 0x10"
    "m_phys (ed_dev s2) = (m_phys (ed_dev s))(cell_addr (top_addr s1) 0 (ed_x s) :=
         word_of_int (digit_value (upper c) * 16 + digit_value (upper c')))"
    by (auto simp: s1)
  moreover have "editor_run Ed (pmem_ops E) [c, KEY_UP, c'] s = editor_run Ed (pmem_ops E) [c'] s1"
    using run c(1) by (auto split: bind_splits if_splits simp: isxdigit_def)
  ultimately show ?thesis by (auto simp: cell_addr_def s1)
qed

theorem editor_digit_survives_scroll_witness:
  "\<exists>s'. editor_run sample_ed_env (pmem_ops sample_env) [52, KEY_UP, 49] sample_editor = Some s' \<and>
     m_phys (ed_dev s') = (m_phys (sample_machine 0))(0x5fef := 0x41)"
  using editor_digit_survives_scroll [of sample_env sample_editor "0x4008" sample_ed_env 52 49]
    sample_editor_inv sample_window [of 0]
  by (auto simp: sample_editor_def isxdigit_def upper_def islower_def digit_value_def)

section \<open>The cursor over any device\<close>

text \<open>C16: whatever the device, the keys and the start address, the cursor stays on one of the
  sixteen columns and on a line of the screen, the top address stays on a line boundary, and the
  value being typed fits its digits.\<close>

theorem editor_cursor_invariant:
  assumes "editor_start Ed D a d = Some s" and "editor_run Ed D cs s = Some s'"
  shows "0 \<le> ed_x s' \<and> ed_x s' \<le> 15 \<and> 0 \<le> ed_y s' \<and> ed_y s' \<le> max 0 (LINES Ed - 6) \<and>
    (ed_n s' = 0 \<or> ed_n s' = 1 \<and> idata s' < 16) \<and> 0 \<le> idata s' \<and> idata s' \<le> 255 \<and>
    top_addr s' AND 0xf = 0"
  using editor_run_inv [OF editor_start_inv [OF assms(1)] assms(2)] by (auto simp: ed_inv_def)

theorem editor_cursor_invariant_witness:
  "\<exists>s s'. editor_start sample_ed_env (pmem_ops sample_env) 0x2ffe (sample_machine 0) = Some s \<and>
     editor_run sample_ed_env (pmem_ops sample_env) [KEY_RIGHT, KEY_RIGHT, KEY_DOWN, 97] s = Some s' \<and>
     ed_x s' \<le> 15 \<and> ed_n s' = 1 \<and> idata s' = 10 \<and> top_addr s' AND 0xf = 0"
proof -
  have a: "(0x2ffe AND NOT 0xf) AND 0xfffffffffffffff0 = (0x2ff0 :: u64)" by simp
  from pmem_dev.display_shows [OF sample_window a screen_below [of _ sample_ed_env], of 0] obtain out m' where
    "display_memory sample_ed_env (pmem_ops sample_env) 0x2ff0 (sample_machine 0) = Some (out, m')"
    by auto
  then have start: "editor_start sample_ed_env (pmem_ops sample_env) 0x2ffe (sample_machine 0) = Some
    \<lparr>ed_dev = m', top_addr = 0x2ff0, ed_x = 14, ed_y = 0, ed_n = 0, idata = 0, autoredraw = True,
     ed_out = out\<rparr>"
    by (simp add: editor_start_def redraw_def)
  obtain s' where run: "editor_run sample_ed_env (pmem_ops sample_env) [KEY_RIGHT, KEY_RIGHT, KEY_DOWN, 97]
    \<lparr>ed_dev = m', top_addr = 0x2ff0, ed_x = 14, ed_y = 0, ed_n = 0, idata = 0, autoredraw = True,
     ed_out = out\<rparr> = Some s'" and s': "ed_n s' = 1" "idata s' = 10"
    by (simp add: editor_key_def isxdigit_def type_digit_def islower_def digit_value_def Let_def)
  from editor_cursor_invariant [OF start run] start run s' show ?thesis by blast
qed

end
