(* ===== verification/Genpipe_Counters.thy ===== *)
theory Genpipe_Counters
  imports Prelude "HOL-Library.Char_ord"
begin

text \<open>
  The counters of the packet driver and the program that reads them: \<^verbatim>\<open>genpipe_read\<close> of
  \<^verbatim>\<open>src/bypass_ipstack/genpipe.c\<close> formats the three totals as one line of text, and
  \<^verbatim>\<open>src/bypass_ipstack/count.c\<close> scans two such lines and prints the difference of the first
  fields. The totals are C ints formatted with \<^verbatim>\<open>%lu\<close>: what the upper half of the argument
  holds is the argument \<open>junk\<close> (zero when the compiler clears it).
\<close>

record counters =
  rx_count :: "u64 list"
  alloc_count :: "u64 list"
  free_count :: "u64 list"

section \<open>Formatting and scanning numbers\<close>

definition digit_char :: "nat \<Rightarrow> char" where
  "digit_char n = char_of (n + 48)"

fun dec :: "nat \<Rightarrow> string" where
  "dec n = (if n < 10 then [digit_char n] else dec (n div 10) @ [digit_char (n mod 10)])"

declare dec.simps [simp del]

definition pad :: "nat \<Rightarrow> string \<Rightarrow> string" where
  "pad w s = replicate (w - length s) CHR '' '' @ s"

definition is_space :: "char \<Rightarrow> bool" where
  "is_space c \<longleftrightarrow> c \<in> {CHR '' '', CHR 0x09, CHR 0x0A, CHR 0x0B, CHR 0x0C, CHR 0x0D}"

definition is_digit :: "char \<Rightarrow> bool" where
  "is_digit c \<longleftrightarrow> 48 \<le> (of_char c :: nat) \<and> (of_char c :: nat) \<le> 57"

definition digits_val :: "string \<Rightarrow> nat" where
  "digits_val s = foldl (\<lambda>n c. n * 10 + (of_char c - 48)) 0 s"

text \<open>\<^verbatim>\<open>%d\<close>: white space, an optional sign, digits; \<open>None\<close> is a matching failure.\<close>

definition scan_int :: "string \<Rightarrow> (int \<times> string) option" where
  "scan_int s =
     (let s1 = dropWhile is_space s;
          (sgn, s2) = (case s1 of c # r \<Rightarrow> (if c = CHR ''-'' then (-1, r) else if c = CHR ''+'' then (1, r) else (1, s1))
                       | [] \<Rightarrow> (1, s1));
          ds = takeWhile is_digit s2
      in if ds = [] then None else Some (sgn * int (digits_val ds), dropWhile is_digit s2))"

text \<open>\<^verbatim>\<open>%d,%d,...\<close>: the values assigned before the first failure, and the rest of the input.\<close>

fun scan_ints :: "nat \<Rightarrow> string \<Rightarrow> int list \<times> string" where
  "scan_ints 0 s = ([], s)"
| "scan_ints (Suc k) s = (case scan_int s of
     None \<Rightarrow> ([], s)
   | Some (v, r) \<Rightarrow>
       if k = 0 then ([v], r)
       else (case r of
               c # r' \<Rightarrow> if c = CHR '','' then (let (vs, r'') = scan_ints k r' in (v # vs, r'')) else ([v], r)
             | [] \<Rightarrow> ([v], r)))"

section \<open>The read handler\<close>

text \<open>\<^verbatim>\<open>rxcounts += rx_count[i]\<close>: an int plus an unsigned long, cut back to an int.\<close>

definition total :: "u64 list \<Rightarrow> u32" where
  "total cs = foldl (\<lambda>acc c. ucast ((scast acc :: u64) + c)) 0 cs"

definition va_ulong :: "u32 \<Rightarrow> u32 \<Rightarrow> u64" where
  "va_ulong junk v = push_bit 32 (ucast junk) OR ucast v"

definition counter_line :: "u32 \<Rightarrow> counters \<Rightarrow> string" where
  "counter_line junk s =
     pad 11 (dec (unat (va_ulong junk (total (rx_count s))))) @ '','' @
     pad 11 (dec (unat (va_ulong junk (total (alloc_count s))))) @ '','' @
     pad 11 (dec (unat (va_ulong junk (total (free_count s))))) @ [CHR 0x0D, CHR 0x0A]"

text \<open>
  \<open>None\<close>: the text and its terminating zero run over the end of \<^verbatim>\<open>tmp[40]\<close>. Otherwise the
  result and the bytes stored in the caller's buffer.
\<close>

definition genpipe_read :: "u32 \<Rightarrow> nat \<Rightarrow> nat \<Rightarrow> counters \<Rightarrow> (nat sysret \<times> string) option" where
  "genpipe_read junk left count s =
     (let tmp = counter_line junk s in
      if 40 < length tmp + 1 then None
      else if left \<noteq> 0 then Some (Inl EFAULT, take (37 - left) tmp)
      else Some (Inr 37, take 37 tmp))"

section \<open>The counting program\<close>

text \<open>
  \<open>uninit\<close> is what an int holds that \<^verbatim>\<open>scanf\<close> did not assign. Standard input delivers the
  bytes of one read of the device after the other. A number too large for an int is cut to its
  low 32 bits, as the C library does for any number that fits a long.
\<close>

definition count_main :: "int \<Rightarrow> string \<Rightarrow> u32 \<times> u32 \<times> u32" where
  "count_main uninit input =
     (let (vs, rest) = scan_ints 3 input;
          (ws, _) = scan_ints 3 rest;
          start = word_of_int (case vs of v # _ \<Rightarrow> v | [] \<Rightarrow> uninit);
          end = word_of_int (case ws of w # _ \<Rightarrow> w | [] \<Rightarrow> uninit)
      in (start, end, end - start))"

section \<open>Decimal numbers\<close>

lemma digit_char: "n < 10 \<Longrightarrow> is_digit (digit_char n) \<and> (of_char (digit_char n) :: nat) = n + 48"
  by (simp add: is_digit_def digit_char_def)

lemma dec_digits: "\<forall>c \<in> set (dec n). is_digit c"
  by (induction n rule: dec.induct) (subst dec.simps, auto simp: digit_char)

lemma dec_val: "digits_val (dec n) = n"
proof (induction n rule: dec.induct)
  case (1 n)
  then show ?case
    by (cases "n < 10"; subst dec.simps) (auto simp: digits_val_def digit_char)
qed

lemma dec_nonempty [simp]: "dec n \<noteq> []"
  by (subst dec.simps) simp

lemma dec_length: "n < 10 ^ k \<Longrightarrow> 0 < k \<Longrightarrow> length (dec n) \<le> k"
proof (induction n arbitrary: k rule: dec.induct)
  case (1 n)
  show ?case
  proof (cases "n < 10")
    case False
    with "1.prems" obtain j where k: "k = Suc j" "0 < j"
      by (cases k; cases "k - 1") auto
    with "1.prems" have "n div 10 < 10 ^ j" by (simp add: less_mult_imp_div_less mult.commute)
    with 1 False k show ?thesis by (subst dec.simps) simp
  qed (use 1 in \<open>subst dec.simps, simp\<close>)
qed

lemma digit_not_space: "is_digit c \<Longrightarrow> \<not> is_space c \<and> c \<noteq> CHR ''-'' \<and> c \<noteq> CHR ''+''"
  by (auto simp: is_digit_def is_space_def)

lemma scan_int_pad:
  assumes "r = [] \<or> \<not> is_digit (hd r)" and "\<forall>c \<in> set ws. is_space c"
  shows "scan_int (ws @ pad w (dec n) @ r) = Some (int n, r)"
proof -
  have sp: "is_space CHR '' ''" by (simp add: is_space_def)
  obtain c cs where dn: "dec n = c # cs" using dec_nonempty [of n] by (cases "dec n") blast+
  then have c: "is_digit c" using dec_digits [of n] by simp
  have "dropWhile is_space (ws @ pad w (dec n) @ r) = dec n @ r"
    using assms(2) sp digit_not_space [OF c] by (simp add: pad_def dn dropWhile_append)
  moreover have "takeWhile is_digit (dec n @ r) = dec n" "dropWhile is_digit (dec n @ r) = r"
    using dec_digits [of n] assms(1) by (auto simp: takeWhile_append dropWhile_append) (cases r; simp)+
  ultimately show ?thesis
    using dec_val [of n] digit_not_space [OF c] by (simp add: scan_int_def dn Let_def)
qed

section \<open>The totals\<close>

definition packets :: "u64 list \<Rightarrow> nat" where
  "packets cs = sum_list (map unat cs)"

lemma int_plus_ulong: "(ucast ((scast (a :: u32) :: u64) + c) :: u32) = a + ucast c"
proof (transfer, goal_cases)
  case (1 a c)
  have "take_bit 32 (signed_take_bit 31 a + c) = take_bit 32 (take_bit 32 (signed_take_bit 31 a) + take_bit 32 c)"
    by (simp add: take_bit_add)
  also have "\<dots> = take_bit 32 (take_bit 32 a + take_bit 32 (take_bit 64 c))"
    by (simp add: take_bit_signed_take_bit)
  also have "\<dots> = take_bit 32 (a + take_bit 64 c)"
    by (rule take_bit_add)
  finally show ?case by simp
qed

lemma total_packets: "total cs = word_of_nat (packets cs)"
proof -
  have "foldl (\<lambda>acc c. acc + ucast c) a cs = a + word_of_nat (packets cs)" for a :: u32
    by (induction cs arbitrary: a) (simp_all add: packets_def unsigned_ucast_eq)
  then show ?thesis by (simp add: total_def int_plus_ulong)
qed

lemma va_ulong_0: "unat (va_ulong 0 v) = unat v"
proof -
  have "unat v < 2 ^ 64" using unsigned_less [where ?'a = nat and w = v] by simp
  then show ?thesis by (simp add: va_ulong_def unsigned_ucast_eq take_bit_nat_eq_self)
qed

lemma pad_dec_u32: "length (pad 11 (dec (unat (v :: u32)))) = 11"
proof -
  have "unat v < 10 ^ 11" using unsigned_less [where ?'a = nat and w = v] by simp
  from dec_length [OF this] show ?thesis by (simp add: pad_def)
qed

lemma counter_line_length: "length (counter_line 0 s) = 37"
  by (simp add: counter_line_def va_ulong_0 pad_dec_u32)

lemma scan_counter_line:
  assumes "\<forall>c \<in> set ws. is_space c"
  shows "scan_ints 3 (ws @ counter_line 0 s @ r) =
    ([uint (total (rx_count s)), uint (total (alloc_count s)), uint (total (free_count s))],
     [CHR 0x0D, CHR 0x0A] @ r)"
proof -
  have nd: "\<not> is_digit CHR '',''" "\<not> is_digit CHR 0x0D" by (simp_all add: is_digit_def)
  let ?f = "\<lambda>n r. pad 11 (dec (unat (n :: u32))) @ r"
  have one: "scan_int (ws @ ?f n (CHR '','' # r)) = Some (uint n, CHR '','' # r)"
    "scan_int (?f n (CHR '','' # r)) = Some (uint n, CHR '','' # r)"
    "scan_int (?f n (CHR 0x0D # r)) = Some (uint n, CHR 0x0D # r)" for n r
    using scan_int_pad [of "CHR '','' # r" ws 11 "unat n"] scan_int_pad [of "CHR '','' # r" "[]" 11 "unat n"]
      scan_int_pad [of "CHR 0x0D # r" "[]" 11 "unat n"] assms nd by simp_all
  show ?thesis
    by (simp add: counter_line_def va_ulong_0 numeral_3_eq_3 one)
qed

section \<open>Properties\<close>

text \<open>When the compiler clears the upper halves of the arguments, reading the device never
  overruns the line buffer and delivers a line of exactly 37 bytes, whatever the counters hold
  and however many bytes the caller asked for; scanned with the format of the counting program
  it gives back the three totals modulo 2^32.\<close>

theorem genpipe_read_line:
  "\<exists>t. genpipe_read 0 0 count s = Some (Inr 37, t) \<and> length t = 37 \<and>
     scan_ints 3 t = ([int (packets (rx_count s) mod 2 ^ 32), int (packets (alloc_count s) mod 2 ^ 32),
       int (packets (free_count s) mod 2 ^ 32)], [CHR 0x0D, CHR 0x0A])"
proof -
  have "uint (word_of_nat n :: u32) = int (n mod 2 ^ 32)" for n
    by (simp add: unsigned_of_nat take_bit_eq_mod of_nat_mod)
  with scan_counter_line [of "[]" s "[]"] counter_line_length [of s] show ?thesis
    by (simp add: genpipe_read_def total_packets)
qed

text \<open>Two reads of the device fed to the counting program make it print, modulo 2^32, the
  number of packets received before the first read, before the second, and between the two.\<close>

lemma count_prints_difference:
  "\<exists>ta tb. genpipe_read 0 0 count a = Some (Inr 37, ta) \<and> genpipe_read 0 0 count b = Some (Inr 37, tb) \<and>
     count_main uninit (ta @ tb) = (word_of_nat (packets (rx_count a)), word_of_nat (packets (rx_count b)),
       word_of_int (int (packets (rx_count b)) - int (packets (rx_count a))))"
proof -
  let ?ta = "counter_line 0 a" and ?tb = "counter_line 0 b"
  have ws: "\<forall>c \<in> set [CHR 0x0D, CHR 0x0A]. is_space c" by (simp add: is_space_def)
  have "scan_ints 3 (?ta @ ?tb) = ([uint (total (rx_count a)), uint (total (alloc_count a)),
      uint (total (free_count a))], [CHR 0x0D, CHR 0x0A] @ ?tb)"
    using scan_counter_line [of "[]" a ?tb] by simp
  moreover have "fst (scan_ints 3 ([CHR 0x0D, CHR 0x0A] @ ?tb)) = [uint (total (rx_count b)),
      uint (total (alloc_count b)), uint (total (free_count b))]"
    using scan_counter_line [OF ws, of b "[]"] by simp
  ultimately have "count_main uninit (?ta @ ?tb) = (word_of_nat (packets (rx_count a)),
      word_of_nat (packets (rx_count b)), word_of_int (int (packets (rx_count b)) - int (packets (rx_count a))))"
    by (simp add: count_main_def case_prod_beta total_packets Let_def)
  then show ?thesis
    using counter_line_length [of a] counter_line_length [of b] by (simp add: genpipe_read_def)
qed

end
