(* ===== verification/Genpipe_Symbols.thy ===== *)
theory Genpipe_Symbols
  imports Genpipe_Counters
begin

text \<open>
  How the packet driver finds the kernel's functions: \<^verbatim>\<open>get_table_entry\<close> of
  \<^verbatim>\<open>src/bypass_ipstack/genpipe.c\<close> reads \<^verbatim>\<open>/proc/kallsyms\<close> in pieces of 64 bytes into the
  second half of a buffer of 128 bytes, searches the whole buffer for the names it knows, and
  moves the second half to the first. The file is a string; \<open>granted pos\<close> is the number of bytes
  the kernel's \<^verbatim>\<open>vfs_read\<close> is willing to deliver at a position. The buffer starts with what
  the stack holds. \<open>None\<close> is a read outside the buffer.
\<close>

section \<open>Searching and scanning\<close>

text \<open>The kernel's \<^verbatim>\<open>strnstr\<close> over the whole buffer: the first occurrence, zero bytes included.\<close>

fun strnstr :: "string \<Rightarrow> string \<Rightarrow> nat option" where
  "strnstr [] p = (if p = [] then Some 0 else None)"
| "strnstr (c # cs) p =
     (if take (length p) (c # cs) = p then Some 0 else map_option Suc (strnstr cs p))"

definition hex_val :: "char \<Rightarrow> nat option" where
  "hex_val c = (let n = of_char c in
     if 48 \<le> n \<and> n \<le> 57 then Some (n - 48)
     else if 65 \<le> n \<and> n \<le> 70 then Some (n - 55)
     else if 97 \<le> n \<and> n \<le> 102 then Some (n - 87) else None)"

definition is_xdigit :: "char \<Rightarrow> bool" where
  "is_xdigit c \<longleftrightarrow> hex_val c \<noteq> None"

definition hex_number :: "string \<Rightarrow> u64" where
  "hex_number ds = foldl (\<lambda>n c. n * 16 + word_of_nat (the (hex_val c))) 0 ds"

text \<open>
  \<^verbatim>\<open>%llx\<close>: white space, an optional \<^verbatim>\<open>0x\<close>, digits. \<open>Some None\<close> is a matching failure, which
  assigns nothing; running off the end of the buffer is \<open>None\<close>.
\<close>

definition scan_hex :: "string \<Rightarrow> u64 option option" where
  "scan_hex s =
     (let s1 = dropWhile is_space s;
          s2 = (case s1 of a # x # d # r \<Rightarrow>
                  if a = CHR ''0'' \<and> (x = CHR ''x'' \<or> x = CHR ''X'') \<and> is_xdigit d then d # r else s1
                | _ \<Rightarrow> s1);
          ds = takeWhile is_xdigit s2
      in if ds = s2 then None
         else if ds = [] then Some None
         else Some (Some (hex_number ds)))"

section \<open>The table\<close>

definition PTYPE_HASH_SIZE :: nat where
  "PTYPE_HASH_SIZE = 16"

record symbols =
  kfreeskb :: u64
  devkfreeskbany :: u64
  netdevallocskb :: u64
  netifrx :: u64
  napigroreceive :: u64
  netifreceiveskb :: u64
  ixgbecleanrxirq :: u64
  arprcv :: u64
  iprcv :: u64
  ipv6rcv :: u64
  ptypeall :: u64
  ptypebase :: "u64 list"
  driver_top :: u64
  driver_bottom :: u64

definition NL :: char where
  "NL = CHR 0x0A"

definition entry :: "string \<Rightarrow> string" where
  "entry name = CHR '' '' # name @ [NL]"

text \<open>One symbol: \<^verbatim>\<open>ptr-19\<close> is the end of the line before, when the name is where it should be.\<close>

definition look :: "string \<Rightarrow> string \<Rightarrow> u64 \<Rightarrow> u64 option" where
  "look buf p cur =
     (case strnstr buf p of
        None \<Rightarrow> Some cur
      | Some i \<Rightarrow>
          if cur \<noteq> 0 then Some cur
          else if i < 19 then None
          else map_option (\<lambda>r. case r of None \<Rightarrow> cur | Some v \<Rightarrow> v) (scan_hex (drop (i - 19) buf)))"

text \<open>The functions of the driver's module: back to the start of the line, then its address.\<close>

primrec line_back :: "string \<Rightarrow> nat \<Rightarrow> nat" where
  "line_back buf 0 = 0"
| "line_back buf (Suc i) = (if buf ! Suc i = NL then Suc i else line_back buf i)"

definition look_driver :: "string \<Rightarrow> u64 \<times> symbols \<Rightarrow> (u64 \<times> symbols) option" where
  "look_driver buf = (\<lambda>(adr, s).
     case strnstr buf (''[ixgbe]'' @ [NL]) of
       None \<Rightarrow> Some (adr, s)
     | Some i \<Rightarrow>
         let i = line_back buf i in
         if i = 0 then Some (adr, s)
         else do {
           r \<leftarrow> scan_hex (drop (i + 1) buf);
           let adr = (case r of None \<Rightarrow> adr | Some v \<Rightarrow> v);
           let s = (if adr < driver_top s \<or> driver_top s = 0 then s\<lparr>driver_top := adr\<rparr> else s);
           let s = (if driver_bottom s < adr \<or> driver_bottom s = 0 then s\<lparr>driver_bottom := adr\<rparr> else s);
           Some (adr, s)
         })"

definition look_base :: "string \<Rightarrow> symbols \<Rightarrow> symbols option" where
  "look_base buf s = do {
     v \<leftarrow> look buf (entry ''ptype_base'') (ptypebase s ! 0);
     if strnstr buf (entry ''ptype_base'') \<noteq> None \<and> ptypebase s ! 0 = 0
     then Some (s\<lparr>ptypebase := map (\<lambda>i. v + word_of_nat i * 0x10) [0..<PTYPE_HASH_SIZE]\<rparr>)
     else Some s
   }"

definition look_all :: "string \<Rightarrow> u64 \<times> symbols \<Rightarrow> (u64 \<times> symbols) option" where
  "look_all buf st = do {
     (adr, s) \<leftarrow> look_driver buf st;
     v1 \<leftarrow> look buf (entry ''kfree_skb'') (kfreeskb s);
     v2 \<leftarrow> look buf (entry ''__dev_kfree_skb_any'') (devkfreeskbany s);
     v3 \<leftarrow> look buf (entry ''__netdev_alloc_skb'') (netdevallocskb s);
     v4 \<leftarrow> look buf (entry ''netif_rx'') (netifrx s);
     v5 \<leftarrow> look buf (entry ''napi_gro_receive'') (napigroreceive s);
     v6 \<leftarrow> look buf (entry ''netif_receive_skb'') (netifreceiveskb s);
     v7 \<leftarrow> look buf ''ixgbe_clean_rx_irq'' (ixgbecleanrxirq s);
     v8 \<leftarrow> look buf (entry ''arp_rcv'') (arprcv s);
     v9 \<leftarrow> look buf (entry ''ip_rcv'') (iprcv s);
     v10 \<leftarrow> look buf (entry ''ipv6_rcv'') (ipv6rcv s);
     v11 \<leftarrow> look buf (entry ''ptype_all'') (ptypeall s);
     s \<leftarrow> look_base buf (s\<lparr>kfreeskb := v1, devkfreeskbany := v2, netdevallocskb := v3, netifrx := v4,
            napigroreceive := v5, netifreceiveskb := v6, ixgbecleanrxirq := v7, arprcv := v8,
            iprcv := v9, ipv6rcv := v10, ptypeall := v11\<rparr>);
     Some (adr, s)
   }"

section \<open>Reading the file\<close>

definition HALF :: nat where
  "HALF = 64"

definition file_read :: "string \<Rightarrow> (nat \<Rightarrow> nat) \<Rightarrow> nat \<Rightarrow> nat \<Rightarrow> string" where
  "file_read file granted offset n = take (min n (granted offset)) (drop offset file)"

function read_loop ::
  "string \<Rightarrow> (nat \<Rightarrow> nat) \<Rightarrow> nat \<Rightarrow> string \<Rightarrow> u64 \<times> symbols \<Rightarrow> (u64 \<times> symbols) option" where
  "read_loop file granted pos buf st =
     (let data = file_read file granted pos HALF;
          buf = take HALF buf @ data @ drop (HALF + length data) buf
      in if 0 < length data then do {
           st \<leftarrow> look_all buf st;
           read_loop file granted (pos + length data) (drop HALF buf @ drop HALF buf) st
         } else Some st)"
  by pat_completeness auto
termination
  by (relation "measure (\<lambda>(file, _, pos, _). length file - pos)") (auto simp: file_read_def)

declare read_loop.simps [simp del]

definition no_symbols :: "symbols \<Rightarrow> symbols" where
  "no_symbols s = s\<lparr>kfreeskb := 0, devkfreeskbany := 0, netdevallocskb := 0, netifrx := 0,
     napigroreceive := 0, netifreceiveskb := 0, ixgbecleanrxirq := 0, arprcv := 0, iprcv := 0,
     ipv6rcv := 0, ptypeall := 0, ptypebase := replicate PTYPE_HASH_SIZE 0\<rparr>"

text \<open>\<open>kallsyms\<close> is \<open>None\<close> when the file cannot be opened; \<open>adr\<close> and \<open>buf\<close> are the locals' leftovers.\<close>

definition get_table_entry ::
  "string option \<Rightarrow> (nat \<Rightarrow> nat) \<Rightarrow> string \<Rightarrow> u64 \<Rightarrow> symbols \<Rightarrow> (int \<times> symbols) option" where
  "get_table_entry kallsyms granted buf adr s =
     (case kallsyms of
        None \<Rightarrow> Some (-1, no_symbols s)
      | Some file \<Rightarrow> do {
          (_, s) \<leftarrow> read_loop file granted 0 buf (adr, no_symbols s);
          Some (0, s)
        })"

end
