(* ===== verification/Genpipe_Hook.thy ===== *)
theory Genpipe_Hook
  imports Window Genpipe_Symbols
begin

text \<open>
  How the packet driver takes the packets of a network driver: \<^verbatim>\<open>hook_ixgbe\<close> of
  \<^verbatim>\<open>src/bypass_ipstack/genpipe.c\<close> scans the machine code of the module byte by byte and
  redirects every call of six kernel functions to its own. The code is a store of bytes, the
  page-table entries a store of their own; a store of a byte needs a present, writable entry
  (\<open>env_leaf\<close> is the entry the processor uses), and \<open>None\<close> is a page fault in the kernel.
  Cached translations play no part: the kernel repeats an access refused by a stale entry.
\<close>

record kcode =
  code :: "u64 \<Rightarrow> u8"
  entries :: ptes

text \<open>The addresses the linker gives the replacements.\<close>

record hooks =
  genpipe_netif_receive_skb :: u64
  genpipe_napi_gro_receive :: u64
  genpipe_netif_rx :: u64
  genpipe__netdev_alloc_skb :: u64
  genpipe_kfree_skb :: u64
  genpipe__dev_kfree_skb_any :: u64

section \<open>The scan\<close>

definition dword :: "(u64 \<Rightarrow> u8) \<Rightarrow> u64 \<Rightarrow> u32" where
  "dword m a = ucast (m a) OR push_bit 8 (ucast (m (a + 1))) OR
     push_bit 16 (ucast (m (a + 2))) OR push_bit 24 (ucast (m (a + 3)))"

definition dbyte :: "nat \<Rightarrow> u32 \<Rightarrow> u8" where
  "dbyte i v = ucast (drop_bit (8 * i) v)"

definition store8 :: "mem_env \<Rightarrow> u64 \<Rightarrow> u8 \<Rightarrow> kcode \<Rightarrow> kcode option" where
  "store8 E a b st =
     (case env_leaf E (entries st) a of
        None \<Rightarrow> None
      | Some p \<Rightarrow>
          if bit (entries st p) 0 \<and> bit (entries st p) 1
          then Some (st\<lparr>code := (code st)(a := b)\<rparr>) else None)"

definition store32 :: "mem_env \<Rightarrow> u64 \<Rightarrow> u32 \<Rightarrow> kcode \<Rightarrow> kcode option" where
  "store32 E a v st = do {
     st \<leftarrow> store8 E a (dbyte 0 v) st;
     st \<leftarrow> store8 E (a + 1) (dbyte 1 v) st;
     st \<leftarrow> store8 E (a + 2) (dbyte 2 v) st;
     store8 E (a + 3) (dbyte 3 v) st
   }"

text \<open>One of the six tests: the call at \<open>ptr\<close> goes to \<open>old\<close>, and is made to go to \<open>new\<close>.\<close>

definition redirect :: "mem_env \<Rightarrow> u64 \<Rightarrow> u32 \<Rightarrow> u64 \<Rightarrow> u64 \<Rightarrow> kcode \<Rightarrow> kcode option" where
  "redirect E ptr dest old new st =
     (if ucast ptr + 5 + dest = (ucast old :: u32) then
        (let pte = genpipe_get_pte (env_api E) (entries st) ptr in
         if pte \<noteq> 0 then do {
           let st = st\<lparr>entries := (entries st)(pte := entries st pte OR PAGE_RW)\<rparr>;
           st \<leftarrow> store32 E (ptr + 1) (ucast new - (ucast ptr + 5)) st;
           Some (st\<lparr>entries := (entries st)(pte := entries st pte AND NOT PAGE_RW)\<rparr>)
         } else Some st)
      else Some st)"

definition hook_call :: "mem_env \<Rightarrow> int \<Rightarrow> symbols \<Rightarrow> hooks \<Rightarrow> u64 \<Rightarrow> kcode \<Rightarrow> kcode option" where
  "hook_call E level S H ptr st =
     (if code st ptr = 0xe8 then do {
        let dest = dword (code st) (ptr + 1);
        st \<leftarrow> redirect E ptr dest (netifreceiveskb S) (genpipe_netif_receive_skb H) st;
        st \<leftarrow> redirect E ptr dest (napigroreceive S) (genpipe_napi_gro_receive H) st;
        st \<leftarrow> redirect E ptr dest (netifrx S) (genpipe_netif_rx H) st;
        st \<leftarrow> (if 1 < level then redirect E ptr dest (netdevallocskb S) (genpipe__netdev_alloc_skb H) st
               else Some st);
        st \<leftarrow> (if level div 2 \<noteq> 0 then redirect E ptr dest (kfreeskb S) (genpipe_kfree_skb H) st
               else Some st);
        if level div 2 \<noteq> 0 then redirect E ptr dest (devkfreeskbany S) (genpipe__dev_kfree_skb_any H) st
        else Some st
      } else Some st)"

function hook_scan :: "mem_env \<Rightarrow> int \<Rightarrow> symbols \<Rightarrow> hooks \<Rightarrow> u64 \<Rightarrow> kcode \<Rightarrow> kcode option" where
  "hook_scan E level S H ptr st =
     (if ptr < driver_bottom S then do {
        st \<leftarrow> hook_call E level S H ptr st;
        hook_scan E level S H (ptr + 1) st
      } else Some st)"
  by pat_completeness auto
termination
  by (relation "measure (\<lambda>(_, _, S, _, ptr, _). unat (driver_bottom S - ptr))") (auto intro: unat_gap_less)

declare hook_scan.simps [simp del]

definition hook_ixgbe :: "mem_env \<Rightarrow> int \<Rightarrow> symbols \<Rightarrow> hooks \<Rightarrow> kcode \<Rightarrow> (int \<times> kcode) option" where
  "hook_ixgbe E level S H st =
     (if netifreceiveskb S = 0 \<or> ixgbecleanrxirq S = 0 then Some (-1, st)
      else if napigroreceive S = 0 \<or> ixgbecleanrxirq S = 0 \<or> netifrx S = 0 then Some (-1, st)
      else if netdevallocskb S = 0 then Some (-1, st)
      else do {
        st \<leftarrow> hook_scan E level S H (driver_top S) st;
        Some (0, st)
      })"

section \<open>What the scan is to do\<close>

text \<open>The calls to replace and what they go to instead; of equal symbols the last wins.\<close>

definition hook_list :: "int \<Rightarrow> symbols \<Rightarrow> hooks \<Rightarrow> (u64 \<times> u64) list" where
  "hook_list level S H =
     [(netifreceiveskb S, genpipe_netif_receive_skb H),
      (napigroreceive S, genpipe_napi_gro_receive H),
      (netifrx S, genpipe_netif_rx H)] @
     (if 1 < level then [(netdevallocskb S, genpipe__netdev_alloc_skb H)] else []) @
     (if level div 2 \<noteq> 0 then [(kfreeskb S, genpipe_kfree_skb H),
        (devkfreeskbany S, genpipe__dev_kfree_skb_any H)] else [])"

definition replacement :: "(u64 \<times> u64) list \<Rightarrow> u32 \<Rightarrow> u64 option" where
  "replacement hs t = map_of (rev (map (\<lambda>(old, new). (ucast old, new)) hs)) t"

definition call_target :: "(u64 \<Rightarrow> u8) \<Rightarrow> u64 \<Rightarrow> u32" where
  "call_target m ptr = ucast ptr + 5 + dword m (ptr + 1)"

definition site :: "int \<Rightarrow> symbols \<Rightarrow> hooks \<Rightarrow> (u64 \<Rightarrow> u8) \<Rightarrow> u64 \<Rightarrow> bool" where
  "site level S H m p \<longleftrightarrow> driver_top S \<le> p \<and> p < driver_bottom S \<and> m p = 0xe8 \<and>
     replacement (hook_list level S H) (call_target m p) \<noteq> None"

definition new_disp :: "int \<Rightarrow> symbols \<Rightarrow> hooks \<Rightarrow> (u64 \<Rightarrow> u8) \<Rightarrow> u64 \<Rightarrow> u32" where
  "new_disp level S H m p =
     ucast (the (replacement (hook_list level S H) (call_target m p))) - (ucast p + 5)"

text \<open>The code after the sites below \<open>n\<close> have been redirected.\<close>

definition hooked_upto :: "int \<Rightarrow> symbols \<Rightarrow> hooks \<Rightarrow> (u64 \<Rightarrow> u8) \<Rightarrow> u64 \<Rightarrow> u64 \<Rightarrow> u8" where
  "hooked_upto level S H m n a =
     (let P = (\<lambda>p. site level S H m p \<and> p < n); D = new_disp level S H m in
      if P (a - 1) then dbyte 0 (D (a - 1))
      else if P (a - 2) then dbyte 1 (D (a - 2))
      else if P (a - 3) then dbyte 2 (D (a - 3))
      else if P (a - 4) then dbyte 3 (D (a - 4))
      else m a)"

definition hooked_code :: "int \<Rightarrow> symbols \<Rightarrow> hooks \<Rightarrow> (u64 \<Rightarrow> u8) \<Rightarrow> u64 \<Rightarrow> u8" where
  "hooked_code level S H m = hooked_upto level S H m (driver_bottom S)"

definition same_but_rw :: "ptes \<Rightarrow> ptes \<Rightarrow> bool" where
  "same_but_rw t t' \<longleftrightarrow> (\<forall>p. t' p OR PAGE_RW = t p OR PAGE_RW)"

text \<open>
  Code that can be hooked: the calls to replace do not overlap, no new displacement contains
  the opcode of a call, and each call lies within one page of 4 KB whose entry the walk finds,
  whatever the write permissions in the tables are.
\<close>

definition hookable :: "mem_env \<Rightarrow> int \<Rightarrow> symbols \<Rightarrow> hooks \<Rightarrow> kcode \<Rightarrow> bool" where
  "hookable E level S H st \<longleftrightarrow>
     driver_bottom S < - 4 \<and>
     (\<forall>p. site level S H (code st) p \<longrightarrow>
        (\<forall>i\<in>{1, 2, 3, 4}. \<not> site level S H (code st) (p + i)) \<and>
        (\<forall>i\<in>{0, 1, 2, 3}. dbyte i (new_disp level S H (code st) p) \<noteq> 0xe8) \<and>
        (\<exists>e. e \<noteq> 0 \<and> bit (entries st e) 0 \<and>
           (\<forall>t'. same_but_rw (entries st) t' \<longrightarrow> genpipe_get_pte (env_api E) t' p = e \<and>
              (\<forall>i\<in>{1, 2, 3, 4}. env_leaf E t' (p + i) = Some e))))"

section \<open>A store and its effect\<close>

lemma dbyte_simps: "bit (dbyte i v) n \<longleftrightarrow> n < 8 \<and> bit v (8 * i + n)"
  by (auto simp: dbyte_def bit_simps ac_simps dest: bit_imp_le_length)

lemma dword_of_bytes:
  assumes "m a = dbyte 0 v" "m (a + 1) = dbyte 1 v" "m (a + 2) = dbyte 2 v" "m (a + 3) = dbyte 3 v"
  shows "dword m a = v"
proof (rule bit_word_eqI)
  fix n :: nat
  assume "n < LENGTH(32)"
  then consider "n < 8" | "8 \<le> n" "n < 16" | "16 \<le> n" "n < 24" | "24 \<le> n" "n < 32"
    by fastforce
  then show "bit (dword m a) n = bit v n"
    by cases (auto simp: dword_def assms bit_simps dbyte_simps)
qed

lemma same_but_rw_simps:
  "same_but_rw t t" "same_but_rw t t' \<Longrightarrow> same_but_rw t (t'(p := t' p OR PAGE_RW))"
  "same_but_rw t t' \<Longrightarrow> same_but_rw t (t'(p := t' p AND NOT PAGE_RW))"
proof -
  have *: "(x AND NOT y) OR y = x OR y" for x y :: u64
    by (rule bit_word_eqI) (auto simp: bit_simps)
  show "same_but_rw t t" by (simp add: same_but_rw_def)
  show "same_but_rw t t' \<Longrightarrow> same_but_rw t (t'(p := t' p OR PAGE_RW))"
    by (auto simp: same_but_rw_def or.assoc)
  show "same_but_rw t t' \<Longrightarrow> same_but_rw t (t'(p := t' p AND NOT PAGE_RW))"
    by (auto simp: same_but_rw_def *)
qed

lemma bit_rw: "bit (x OR PAGE_RW) (Suc 0)" "bit (x OR PAGE_RW) 0 = bit x 0"
  by (simp_all add: PAGE_RW_def bit_simps)

lemma same_but_rw_present: "same_but_rw t t' \<Longrightarrow> bit (t' p) 0 = bit (t p) 0"
  by (metis bit_rw(2) same_but_rw_def)

text \<open>The bytes at \<open>a\<close> to \<open>a + 3\<close> replaced by those of \<open>v\<close>.\<close>

definition with_dword :: "(u64 \<Rightarrow> u8) \<Rightarrow> u64 \<Rightarrow> u32 \<Rightarrow> u64 \<Rightarrow> u8" where
  "with_dword m a v = m(a := dbyte 0 v, a + 1 := dbyte 1 v, a + 2 := dbyte 2 v, a + 3 := dbyte 3 v)"

lemma store32_ok:
  assumes "\<And>i. i \<in> {0, 1, 2, 3} \<Longrightarrow> env_leaf E (entries st) (a + i) = Some e"
    and "bit (entries st e) 0" and "bit (entries st e) 1"
  shows "store32 E a v st = Some (st\<lparr>code := with_dword (code st) a v\<rparr>)"
  using assms(1) [of 0] assms(1) [of 1] assms(1) [of 2] assms(1) [of 3] assms(2,3)
  by (simp add: store32_def store8_def with_dword_def)

lemma redirect_ok:
  assumes "genpipe_get_pte (env_api E) (entries st) ptr = e" and "e \<noteq> 0" and "bit (entries st e) 0"
    and "\<And>t i. same_but_rw (entries st) t \<Longrightarrow> i \<in> {1, 2, 3, 4} \<Longrightarrow> env_leaf E t (ptr + i) = Some e"
  shows "redirect E ptr dest old new st =
    Some (if ucast ptr + 5 + dest = (ucast old :: u32)
          then st\<lparr>code := with_dword (code st) (ptr + 1) (ucast new - (ucast ptr + 5)),
                  entries := (entries st)(e := entries st e AND NOT PAGE_RW)\<rparr>
          else st)"
proof -
  define t where "t = (entries st)(e := entries st e OR PAGE_RW)"
  have "same_but_rw (entries st) t" unfolding t_def by (intro same_but_rw_simps)
  from assms(4) [OF this, of 1] assms(4) [OF this, of 2] assms(4) [OF this, of 3] assms(4) [OF this, of 4]
  have "env_leaf E t (ptr + 1 + i) = Some e" if "i \<in> {0, 1, 2, 3}" for i
    using that by (auto simp: add.assoc)
  then have "store32 E (ptr + 1) v (st\<lparr>entries := t\<rparr>) =
      Some (st\<lparr>entries := t, code := with_dword (code st) (ptr + 1) v\<rparr>)" for v
    using assms(3) by (subst store32_ok [where e = e]) (simp_all add: t_def bit_rw)
  moreover have "(x OR PAGE_RW) AND NOT PAGE_RW = x AND NOT PAGE_RW" for x :: u64
    by (rule bit_word_eqI) (auto simp: bit_simps)
  ultimately show ?thesis
    using assms(1,2) by (simp add: redirect_def Let_def t_def)
qed

lemma with_dword_twice: "with_dword (with_dword m a v) a w = with_dword m a w"
  by (rule ext) (simp add: with_dword_def)

text \<open>The six tests as one list: the last matching symbol wins.\<close>

primrec redirect_all :: "mem_env \<Rightarrow> u64 \<Rightarrow> u32 \<Rightarrow> (u64 \<times> u64) list \<Rightarrow> kcode \<Rightarrow> kcode option" where
  "redirect_all E ptr dest [] st = Some st"
| "redirect_all E ptr dest (h # hs) st = do {
     st \<leftarrow> redirect E ptr dest (fst h) (snd h) st;
     redirect_all E ptr dest hs st
   }"

lemma redirect_all_eta:
  "redirect_all E ptr dest [] = Some"
  "redirect_all E ptr dest (h # hs) =
     (\<lambda>st. redirect E ptr dest (fst h) (snd h) st \<bind> redirect_all E ptr dest hs)"
  by (rule ext, simp)+

lemma hook_call_list:
  "hook_call E level S H ptr st =
     (if code st ptr = 0xe8 then redirect_all E ptr (dword (code st) (ptr + 1)) (hook_list level S H) st
      else Some st)"
  by (simp add: hook_call_def hook_list_def Let_def redirect_all_eta del: redirect_all.simps)

lemma replacement_Cons:
  "replacement (h # hs) t =
     (case replacement hs t of Some f \<Rightarrow> Some f
      | None \<Rightarrow> if ucast (fst h) = t then Some (snd h) else None)"
  by (simp add: replacement_def map_add_def case_prod_beta split: option.splits)

lemma redirect_all_none:
  "replacement hs (ucast ptr + 5 + dest) = None \<Longrightarrow> redirect_all E ptr dest hs st = Some st"
proof (induction hs)
  case (Cons h hs)
  then show ?case
    by (auto simp: replacement_Cons redirect_def split: option.splits if_splits)
qed simp

lemma redirect_all_ok:
  assumes "\<And>t. same_but_rw (entries st) t \<Longrightarrow> genpipe_get_pte (env_api E) t ptr = e" and "e \<noteq> 0"
    and "bit (entries st e) 0"
    and "\<And>t i. same_but_rw (entries st) t \<Longrightarrow> i \<in> {1, 2, 3, 4} \<Longrightarrow> env_leaf E t (ptr + i) = Some e"
  shows "redirect_all E ptr dest hs st =
    Some (case replacement hs (ucast ptr + 5 + dest) of
       None \<Rightarrow> st
     | Some f \<Rightarrow> st\<lparr>code := with_dword (code st) (ptr + 1) (ucast f - (ucast ptr + 5)),
                  entries := (entries st)(e := entries st e AND NOT PAGE_RW)\<rparr>)"
  using assms
proof (induction hs arbitrary: st)
  case Nil
  then show ?case by (simp add: replacement_def)
next
  case (Cons h hs)
  note r = redirect_ok [OF Cons.prems(1) [OF same_but_rw_simps(1)] Cons.prems(2,3,4), of dest "fst h" "snd h"]
  define st1 where "st1 = (if ucast ptr + 5 + dest = (ucast (fst h) :: u32)
          then st\<lparr>code := with_dword (code st) (ptr + 1) (ucast (snd h) - (ucast ptr + 5)),
                  entries := (entries st)(e := entries st e AND NOT PAGE_RW)\<rparr>
          else st)"
  have sm: "same_but_rw (entries st) (entries st1)"
    by (simp add: st1_def same_but_rw_simps)
  then have tr: "same_but_rw (entries st) t" if "same_but_rw (entries st1) t" for t
    using that by (simp add: same_but_rw_def)
  have "redirect_all E ptr dest hs st1 =
    Some (case replacement hs (ucast ptr + 5 + dest) of
       None \<Rightarrow> st1
     | Some f \<Rightarrow> st1\<lparr>code := with_dword (code st1) (ptr + 1) (ucast f - (ucast ptr + 5)),
                  entries := (entries st1)(e := entries st1 e AND NOT PAGE_RW)\<rparr>)"
    using Cons.prems tr same_but_rw_present [OF sm] by (intro Cons.IH) auto
  moreover have "(x AND NOT PAGE_RW) AND NOT PAGE_RW = x AND NOT PAGE_RW" for x
    by (simp add: and.assoc)
  ultimately show ?case
    using r unfolding st1_def [symmetric]
    by (auto simp: replacement_Cons st1_def with_dword_twice split: option.splits)
qed

section \<open>The scan meets its specification\<close>

lemma above_simps:
  assumes "unat (n :: u64) + 5 < 2 ^ 64"
  shows "i \<in> {0, 1, 2, 3, 4} \<Longrightarrow> \<not> n + i < n" and "i \<in> {1, 2, 3, 4} \<Longrightarrow> \<not> n + i < n + 1"
    and "p < n + 1 \<longleftrightarrow> p = n \<or> p < n"
proof -
  have u: "unat (n + i) = unat n + unat i" if "i \<in> {0, 1, 2, 3, 4}" for i
    using assms that by (auto simp: unat_word_ariths)
  show "i \<in> {0, 1, 2, 3, 4} \<Longrightarrow> \<not> n + i < n"
    by (auto simp only: word_less_nat_alt u)
  show "i \<in> {1, 2, 3, 4} \<Longrightarrow> \<not> n + i < n + 1"
    using u [of 1] u [of i] by (auto simp: word_less_nat_alt)
  show "p < n + 1 \<longleftrightarrow> p = n \<or> p < n"
    using u [of 1] by (auto simp: word_less_nat_alt word_unat_eq_iff less_Suc_eq)
qed

lemma hooked_upto_step:
  assumes "unat n + 5 < 2 ^ 64"
  shows "hooked_upto level S H m (n + 1) =
    (if site level S H m n then with_dword (hooked_upto level S H m n) (n + 1) (new_disp level S H m n)
     else hooked_upto level S H m n)"
proof (rule ext)
  fix a
  let ?P = "site level S H m" and ?D = "new_disp level S H m"
  note lt = above_simps(3) [OF assms]
  note up = above_simps(1) [OF assms, of 1] above_simps(1) [OF assms, of 2] above_simps(1) [OF assms, of 3]
    above_simps(2) [OF assms, of 1] above_simps(2) [OF assms, of 2] above_simps(2) [OF assms, of 3]
  have upto: "hooked_upto level S H m k a =
      (if ?P (a - 1) \<and> a - 1 < k then dbyte 0 (?D (a - 1)) else if ?P (a - 2) \<and> a - 2 < k then dbyte 1 (?D (a - 2))
       else if ?P (a - 3) \<and> a - 3 < k then dbyte 2 (?D (a - 3))
       else if ?P (a - 4) \<and> a - 4 < k then dbyte 3 (?D (a - 4)) else m a)" for k
    by (simp add: hooked_upto_def Let_def)
  have wd: "with_dword f (n + 1) v a =
      (if a = n + 4 then dbyte 3 v else if a = n + 3 then dbyte 2 v else if a = n + 2 then dbyte 1 v
       else if a = n + 1 then dbyte 0 v else f a)" for f v
    by (simp add: with_dword_def add.assoc)
  consider "a = n + 1" | "a = n + 2" | "a = n + 3" | "a = n + 4"
    | "a - 1 \<noteq> n" "a - 2 \<noteq> n" "a - 3 \<noteq> n" "a - 4 \<noteq> n" by (metis diff_add_cancel)
  then have "hooked_upto level S H m (n + 1) a =
    (if ?P n then with_dword (hooked_upto level S H m n) (n + 1) (?D n) a
     else hooked_upto level S H m n a)"
  proof cases
    case 1
    then have "a - 1 = n" by simp
    with 1 show ?thesis unfolding upto wd by (simp add: lt)
  next
    case 2
    then have "a - 1 = n + 1" "a - 2 = n" by simp_all
    with 2 show ?thesis unfolding upto wd using up by (simp add: lt lt [unfolded add.commute [of n 1]] add.commute [of n])
  next
    case 3
    then have "a - 1 = n + 2" "a - 2 = n + 1" "a - 3 = n" by simp_all
    with 3 show ?thesis unfolding upto wd using up by (simp add: lt lt [unfolded add.commute [of n 1]] add.commute [of n])
  next
    case 4
    then have "a - 1 = n + 3" "a - 2 = n + 2" "a - 3 = n + 1" "a - 4 = n" by simp_all
    with 4 show ?thesis unfolding upto wd using up by (simp add: lt lt [unfolded add.commute [of n 1]] add.commute [of n])
  next
    case 5
    then have "a \<noteq> n + 1" "a \<noteq> n + 2" "a \<noteq> n + 3" "a \<noteq> n + 4" by auto
    with 5 show ?thesis unfolding upto wd by (simp add: lt)
  qed
  then show "hooked_upto level S H m (n + 1) a =
    (if ?P n then with_dword (hooked_upto level S H m n) (n + 1) (?D n)
     else hooked_upto level S H m n) a" by simp
qed

text \<open>The state when the scan has reached \<open>n\<close>.\<close>

definition scanned :: "int \<Rightarrow> symbols \<Rightarrow> hooks \<Rightarrow> kcode \<Rightarrow> u64 \<Rightarrow> kcode \<Rightarrow> bool" where
  "scanned level S H st n st' \<longleftrightarrow>
     code st' = hooked_upto level S H (code st) n \<and> same_but_rw (entries st) (entries st') \<and>
     (\<forall>p. entries st' p \<in> {entries st p, entries st p AND NOT PAGE_RW})"

lemma hook_call_scanned:
  assumes h: "hookable E level S H st" and sc: "scanned level S H st n st'"
    and n: "driver_top S \<le> n" "n < driver_bottom S"
  shows "\<exists>st''. hook_call E level S H n st' = Some st'' \<and> scanned level S H st (n + 1) st''"
proof -
  let ?m = "code st" and ?P = "\<lambda>p. site level S H (code st) p \<and> p < n"
  have code: "code st' = hooked_upto level S H ?m n" and sm: "same_but_rw (entries st) (entries st')"
    and rw: "\<And>p. entries st' p \<in> {entries st p, entries st p AND NOT PAGE_RW}"
    using sc by (auto simp: scanned_def)
  have "unat (driver_bottom S) < unat (- 4 :: u64)" using h by (simp add: hookable_def word_less_nat_alt)
  then have nn: "unat n + 5 < 2 ^ 64" using n by (simp add: word_less_nat_alt)
  note above = above_simps(1) [OF nn] and step = hooked_upto_step [OF nn, of level S H ?m]
  have clean: "\<And>p i. site level S H ?m p \<Longrightarrow> i \<in> {1, 2, 3, 4} \<Longrightarrow> \<not> site level S H ?m (p + i)"
    "\<And>p i. site level S H ?m p \<Longrightarrow> i \<in> {0, 1, 2, 3} \<Longrightarrow> dbyte i (new_disp level S H ?m p) \<noteq> 0xe8"
    using h unfolding hookable_def by blast+
  show ?thesis
  proof (cases "\<exists>k\<in>{1, 2, 3, 4}. ?P (n - k)")
    case True
    then obtain k where k: "k \<in> {1, 2, 3, 4}" "?P (n - k)" by blast
    then have "\<not> site level S H ?m n" using clean(1) [of "n - k" k] by simp
    moreover have "code st' n \<noteq> 0xe8"
      using k by (auto simp: code hooked_upto_def Let_def clean(2))
    ultimately show ?thesis
      using code sm rw by (auto simp: hook_call_list scanned_def step)
  next
    case False
    then have none: "\<not> ?P (n - 1)" "\<not> ?P (n - 2)" "\<not> ?P (n - 3)" "\<not> ?P (n - 4)" by blast+
    have c0: "code st' n = ?m n" using none by (auto simp: code hooked_upto_def Let_def)
    have "code st' (n + i) = ?m (n + i)" if "i \<in> {1, 2, 3, 4}" for i
    proof -
      have "\<not> ?P (n + i - k)" if "k \<in> {1, 2, 3, 4}" for k
      proof -
        have "\<not> ?P x" if "x \<in> {n, n + 1, n + 2, n + 3, n - 1, n - 2, n - 3}" for x
          using that none above [of 1] above [of 2] above [of 3] by blast
        moreover have "n + i - k \<in> {n, n + 1, n + 2, n + 3, n - 1, n - 2, n - 3}"
          using \<open>i \<in> {1, 2, 3, 4}\<close> that by auto
        ultimately show ?thesis by blast
      qed
      from this [of 1] this [of 2] this [of 3] this [of 4]
      have "\<not> ?P (n + i - 1)" "\<not> ?P (n + i - 2)" "\<not> ?P (n + i - 3)" "\<not> ?P (n + i - 4)" by simp_all
      then show ?thesis unfolding code hooked_upto_def Let_def by (simp only: if_False)
    qed
    from this [of 1] this [of 2] this [of 3] this [of 4]
    have dw: "dword (code st') (n + 1) = dword ?m (n + 1)" by (simp add: dword_def add.assoc)
    have ct: "ucast n + 5 + dword (code st') (n + 1) = call_target ?m n" by (simp add: call_target_def dw)
    show ?thesis
    proof (cases "?m n = 0xe8 \<and> replacement (hook_list level S H) (call_target ?m n) \<noteq> None")
      case True
      then have s: "site level S H ?m n" using n by (simp add: site_def)
      then obtain e where e: "e \<noteq> 0" "bit (entries st e) 0"
        "\<And>t. same_but_rw (entries st) t \<Longrightarrow> genpipe_get_pte (env_api E) t n = e"
        "\<And>t i. same_but_rw (entries st) t \<Longrightarrow> i \<in> {1, 2, 3, 4} \<Longrightarrow> env_leaf E t (n + i) = Some e"
        using h unfolding hookable_def by blast
      have tr: "same_but_rw (entries st) t" if "same_but_rw (entries st') t" for t
        using that sm by (simp add: same_but_rw_def)
      from True obtain f where f: "replacement (hook_list level S H) (call_target ?m n) = Some f" by blast
      define st2 where "st2 = st'\<lparr>code := with_dword (code st') (n + 1) (new_disp level S H ?m n),
                  entries := (entries st')(e := entries st' e AND NOT PAGE_RW)\<rparr>"
      have "redirect_all E n (dword (code st') (n + 1)) (hook_list level S H) st' = Some st2"
        using redirect_all_ok [of st' E n e, OF e(3) [OF tr] e(1)] e(2,4) tr same_but_rw_present [OF sm]
        by (simp add: ct f st2_def new_disp_def)
      then have "hook_call E level S H n st' = Some st2"
        using True c0 by (simp add: hook_call_list)
      moreover have "(x AND NOT PAGE_RW) AND NOT PAGE_RW = x AND NOT PAGE_RW" for x
        by (simp add: and.assoc)
      then have "entries st' e AND NOT PAGE_RW = entries st e AND NOT PAGE_RW"
        using rw [of e] by auto
      then have "scanned level S H st (n + 1) st2"
        using s code same_but_rw_simps(3) [OF sm, of e] rw
        by (auto simp: scanned_def st2_def step)
      ultimately show ?thesis by blast
    next
      case False
      then have "\<not> site level S H ?m n" by (auto simp: site_def)
      moreover have "hook_call E level S H n st' = Some st'"
        using False c0 ct by (auto simp: hook_call_list redirect_all_none)
      ultimately show ?thesis using code sm rw by (auto simp: scanned_def step)
    qed
  qed
qed

lemma hook_scan_scanned:
  assumes "hookable E level S H st" and "scanned level S H st n st'"
    and "driver_top S \<le> n" and "n \<le> driver_bottom S"
  shows "\<exists>st''. hook_scan E level S H n st' = Some st'' \<and> scanned level S H st (driver_bottom S) st''"
  using assms
proof (induction E level S H n st' rule: hook_scan.induct)
  case (1 E level S H ptr st')
  show ?case
  proof (cases "ptr < driver_bottom S")
    case True
    from hook_call_scanned [OF "1.prems"(1,2,3) True] obtain st2 where
      st2: "hook_call E level S H ptr st' = Some st2" "scanned level S H st (ptr + 1) st2" by blast
    have "ptr + 1 \<le> driver_bottom S" "ptr \<le> ptr + 1"
      unfolding word_le_nat_alt unat_next [OF True] using True
      by (simp_all only: word_less_nat_alt Suc_le_eq le_SucI)
    from "1.IH" [OF True st2(1) "1.prems"(1) st2(2) order.trans [OF "1.prems"(3) this(2)] this(1)]
    have "\<exists>st''. hook_scan E level S H (ptr + 1) st2 = Some st'' \<and> scanned level S H st (driver_bottom S) st''" .
    with True st2(1) show ?thesis by (subst hook_scan.simps) simp
  next
    case False
    then have "ptr = driver_bottom S" using "1.prems"(4) by simp
    with False "1.prems"(2) show ?thesis by (subst hook_scan.simps) simp
  qed
qed

lemma hooked_call_target:
  assumes "hookable E level S H st" and "site level S H (code st) p"
  shows "call_target (hooked_code level S H (code st)) p =
    ucast (the (replacement (hook_list level S H) (call_target (code st) p)))"
proof -
  let ?m = "code st" and ?H = "hooked_code level S H (code st)"
  have lt: "p < driver_bottom S" using assms(2) by (simp add: site_def)
  have no: "\<not> site level S H ?m (p + i)" if "i \<in> {1, 2, 3, 4}" for i
    using assms that unfolding hookable_def by blast
  have "?H (p + 1) = dbyte 0 (new_disp level S H ?m p)" "?H (p + 1 + 1) = dbyte 1 (new_disp level S H ?m p)"
    "?H (p + 1 + 2) = dbyte 2 (new_disp level S H ?m p)" "?H (p + 1 + 3) = dbyte 3 (new_disp level S H ?m p)"
    using lt assms(2) no [of 1] no [of 2] no [of 3]
    by (simp_all add: hooked_code_def hooked_upto_def Let_def add.assoc add.commute [of p] add_diff_eq)
  then have "dword ?H (p + 1) = new_disp level S H ?m p" by (rule dword_of_bytes)
  then show ?thesis by (simp add: call_target_def [of ?H] new_disp_def)
qed

text \<open>C21: Over code that can be hooked, \<^verbatim>\<open>hook_ixgbe\<close> returns: it fails and changes nothing when
  one of the symbols it needs was not found; otherwise it returns 0 and the code it leaves is
  exactly the code it found with the displacement of every call of a hooked function (by the low
  32 bits of its target) replaced, each such call now goes to the replacement, and no page-table entry differs from the one it found but for
  a cleared write permission.\<close>

theorem hook_ixgbe_rewrites_calls:
  assumes "hookable E level S H st" and "driver_top S \<le> driver_bottom S"
  shows "\<exists>r st'. hook_ixgbe E level S H st = Some (r, st') \<and>
    (if 0 \<in> {netifreceiveskb S, ixgbecleanrxirq S, napigroreceive S, netifrx S, netdevallocskb S}
     then r = -1 \<and> st' = st
     else r = 0 \<and> code st' = hooked_code level S H (code st) \<and>
          (\<forall>p. site level S H (code st) p \<longrightarrow> call_target (code st') p =
             ucast (the (replacement (hook_list level S H) (call_target (code st) p)))) \<and>
          (\<forall>p. entries st' p \<in> {entries st p, entries st p AND NOT PAGE_RW}))"
proof -
  have "scanned level S H st (driver_top S) st"
    by (auto simp: scanned_def hooked_upto_def site_def Let_def same_but_rw_def fun_eq_iff leD)
  from hook_scan_scanned [OF assms(1) this order_refl assms(2)] obtain st' where
    st': "hook_scan E level S H (driver_top S) st = Some st'" "scanned level S H st (driver_bottom S) st'"
    by blast
  show ?thesis
  proof (cases "0 \<in> {netifreceiveskb S, ixgbecleanrxirq S, napigroreceive S, netifrx S, netdevallocskb S}")
    case True
    then have "hook_ixgbe E level S H st = Some (-1, st)" by (auto simp: hook_ixgbe_def)
    with True show ?thesis by simp
  next
    case False
    then have "hook_ixgbe E level S H st = Some (0, st')"
      using st'(1) by (auto simp: hook_ixgbe_def)
    with False st'(2) hooked_call_target [OF assms(1)] show ?thesis
      by (simp add: scanned_def hooked_code_def)
  qed
qed

section \<open>A processor with four levels\<close>

text \<open>The walks do not depend on the write permissions, so on such a processor a page is enough.\<close>

lemma same_but_rw_bit: "same_but_rw t t' \<Longrightarrow> n \<noteq> 1 \<Longrightarrow> bit (t' p) n = bit (t p) n"
proof -
  assume "same_but_rw t t'" and n: "n \<noteq> 1"
  then have "bit (t' p OR PAGE_RW) n = bit (t p OR PAGE_RW) n" by (simp add: same_but_rw_def)
  moreover have "\<not> bit PAGE_RW n"
    using n by (auto simp: PAGE_RW_def bit_2_iff)
  ultimately show ?thesis by (simp add: bit_or_iff)
qed

lemma same_but_rw_table:
  assumes "same_but_rw t t'"
  shows "hw_table (t' p) = hw_table (t p)" "t' p AND phys_mask = t p AND phys_mask"
  using same_but_rw_bit [OF assms]
  by (auto simp: hw_table_def bit_and_iff bit_phys_mask intro!: bit_word_eqI)

lemma hw_walk_rw: "same_but_rw t t' \<Longrightarrow> hw_walk dm t' tab ss va = hw_walk dm t tab ss va"
  by (induction dm t tab ss va rule: hw_walk.induct) (auto simp: Let_def same_but_rw_table)

lemma x86_env_leaf_ok:
  assumes "hw_walk dm t (cr3 AND phys_mask) levels4 p = Some e" and "e \<noteq> 0"
    and "unat (page_off p) + 5 \<le> 4096" and "same_but_rw t t'"
  shows "genpipe_get_pte (x86_api False dm cr3) t' p = e"
    and "i \<in> {1, 2, 3, 4} \<Longrightarrow> env_leaf (x86_env dm cr3 buf v2p) t' (p + i) = Some e"
proof -
  have w: "hw_walk dm t' (cr3 AND phys_mask) levels4 p = Some e"
    using assms(1) by (simp only: hw_walk_rw [OF assms(4)])
  have "hw_walk dm t' (cr3 AND phys_mask) levels4 (p + of_nat k) = Some e" if "k < 5" for k
  proof -
    have "page_base (p + of_nat k) = page_base p"
      using assms(3) that by (intro page_base_add) simp
    then show ?thesis using w hw_walk_page [of "p + of_nat k" p levels4] by simp
  qed
  from this [of 1] this [of 2] this [of 3] this [of 4]
  show "i \<in> {1, 2, 3, 4} \<Longrightarrow> env_leaf (x86_env dm cr3 buf v2p) t' (p + i) = Some e"
    by (auto simp: x86_env_def)
  have "\<not> bit (t' (pgd_offset (x86_api False dm cr3) p)) 7"
    using w by (auto simp: x86_api_def Let_def hw_table_def split: if_splits)
  with x86_4.genpipe_get_pte_walk [of dm cr3 t' p] w
  show "genpipe_get_pte (x86_api False dm cr3) t' p = e"
    by (simp add: x86_api_def)
qed

lemma x86_hookable:
  assumes "driver_bottom S < - 4"
    and "\<And>p. site level S H (code st) p \<Longrightarrow>
      (\<forall>i\<in>{1, 2, 3, 4}. \<not> site level S H (code st) (p + i)) \<and>
      (\<forall>i\<in>{0, 1, 2, 3}. dbyte i (new_disp level S H (code st) p) \<noteq> 0xe8) \<and>
      unat (page_off p) + 5 \<le> 4096 \<and>
      (\<exists>e. e \<noteq> 0 \<and> bit (entries st e) 0 \<and> hw_walk dm (entries st) (cr3 AND phys_mask) levels4 p = Some e)"
  shows "hookable (x86_env dm cr3 buf v2p) level S H st"
  unfolding hookable_def
proof (intro conjI allI impI)
  fix p
  assume s: "site level S H (code st) p"
  from assms(2) [OF s] obtain e where e: "e \<noteq> 0" "bit (entries st e) 0"
    "hw_walk dm (entries st) (cr3 AND phys_mask) levels4 p = Some e" and off: "unat (page_off p) + 5 \<le> 4096"
    by blast
  have api: "env_api (x86_env dm cr3 buf v2p) = x86_api False dm cr3" by (simp add: x86_env_def)
  note ok = x86_env_leaf_ok [OF e(3,1) off]
  show "\<exists>e. e \<noteq> 0 \<and> bit (entries st e) 0 \<and>
      (\<forall>t'. same_but_rw (entries st) t' \<longrightarrow>
        genpipe_get_pte (env_api (x86_env dm cr3 buf v2p)) t' p = e \<and>
        (\<forall>i\<in>{1, 2, 3, 4}. env_leaf (x86_env dm cr3 buf v2p) t' (p + i) = Some e))"
    unfolding api using e ok by blast
qed (use assms in blast)+

text \<open>A page of code with one call of \<^verbatim>\<open>netif_rx\<close>, mapped read-only.\<close>

definition sample_symbols :: symbols where
  "sample_symbols = \<lparr>kfreeskb = 0, devkfreeskbany = 0, netdevallocskb = 0x5000, netifrx = 0x2105,
     napigroreceive = 0x6000, netifreceiveskb = 0x7000, ixgbecleanrxirq = 0x1000, arprcv = 0, iprcv = 0,
     ipv6rcv = 0, ptypeall = 0, ptypebase = replicate PTYPE_HASH_SIZE 0,
     driver_top = 0x1000, driver_bottom = 0x1200\<rparr>"

definition sample_hooks :: hooks where
  "sample_hooks = \<lparr>genpipe_netif_receive_skb = 0x9000, genpipe_napi_gro_receive = 0x9100,
     genpipe_netif_rx = 0x9305, genpipe__netdev_alloc_skb = 0x9400, genpipe_kfree_skb = 0x9500,
     genpipe__dev_kfree_skb_any = 0x9600\<rparr>"

definition sample_kcode :: kcode where
  "sample_kcode = \<lparr>code = (\<lambda>_. 0)(0x1100 := 0xe8, 0x1102 := 0x10), entries = sample_ptes\<rparr>"

theorem hook_ixgbe_rewrites_calls_witness:
  "\<exists>st'. hook_ixgbe sample_env 1 sample_symbols sample_hooks sample_kcode = Some (0, st') \<and>
     call_target (code st') 0x1100 = 0x9305"
proof -
  have t: "call_target (code sample_kcode) 0x1100 = 0x2105"
    by (simp add: call_target_def dword_def sample_kcode_def)
  have r: "replacement (hook_list 1 sample_symbols sample_hooks) 0x2105 = Some 0x9305"
    by (simp add: replacement_def hook_list_def sample_symbols_def sample_hooks_def)
  have site: "site 1 sample_symbols sample_hooks (code sample_kcode) p \<longleftrightarrow> p = 0x1100" for p
    using t r by (auto simp: site_def sample_kcode_def sample_symbols_def split: if_splits)
  have "hookable sample_env 1 sample_symbols sample_hooks sample_kcode"
    unfolding sample_env_def
  proof (rule x86_hookable)
    show "driver_bottom sample_symbols < - 4" by (simp add: sample_symbols_def)
    fix p
    assume "site 1 sample_symbols sample_hooks (code sample_kcode) p"
    then have p: "p = 0x1100" by (simp add: site)
    have nd: "new_disp 1 sample_symbols sample_hooks (code sample_kcode) p = 0x8200"
      by (simp add: new_disp_def p t r)
    have "hw_walk 0 (entries sample_kcode) (0x1000 AND phys_mask) levels4 p = Some 0x4008"
      by (simp add: p sample_kcode_def sample_ptes_def phys_mask_def hw_entry_def
          hw_index_def hw_table_def Let_def)
    moreover have "bit (entries sample_kcode 0x4008) 0"
      by (simp add: sample_kcode_def sample_ptes_def)
    ultimately show "(\<forall>i\<in>{1, 2, 3, 4}. \<not> site 1 sample_symbols sample_hooks (code sample_kcode) (p + i)) \<and>
      (\<forall>i\<in>{0, 1, 2, 3}. dbyte i (new_disp 1 sample_symbols sample_hooks (code sample_kcode) p) \<noteq> 0xe8) \<and>
      unat (page_off p) + 5 \<le> 4096 \<and>
      (\<exists>e. e \<noteq> 0 \<and> bit (entries sample_kcode e) 0 \<and>
         hw_walk 0 (entries sample_kcode) (0x1000 AND phys_mask) levels4 p = Some e)"
      unfolding nd site by (auto simp: p dbyte_def page_off_def)
  qed
  moreover have "driver_top sample_symbols \<le> driver_bottom sample_symbols"
    by (simp add: sample_symbols_def)
  ultimately show ?thesis
    using hook_ixgbe_rewrites_calls [of sample_env 1 sample_symbols sample_hooks sample_kcode] t r site
    by (simp add: sample_symbols_def) blast
qed

end
