(* ===== verification/Genpipe_Rx.thy ===== *)
theory Genpipe_Rx
  imports Genpipe_Counters
begin

text \<open>
  The receive side of the packet driver: the packet-type handlers it puts in place of the
  kernel's (\<^verbatim>\<open>genpipe_arprcv\<close>, \<^verbatim>\<open>genpipe_iprcv\<close>, \<^verbatim>\<open>genpipe_ipv6rcv\<close>, \<^verbatim>\<open>genpipe_nop\<close>,
  \<^verbatim>\<open>genpipe_pack_rcv\<close>) and the functions it makes the network driver call instead of the
  kernel's, all of \<^verbatim>\<open>src/bypass_ipstack/genpipe.c\<close>. The kernel's functions are the fields of
  a record \<open>net_api\<close> over a kernel state of any type; a pointer is its address. Reading a field of
  a buffer that has been freed sets \<open>uaf\<close>: the value read is whatever the memory holds.
\<close>

record 'k net_api =
  skb_share_check :: "u64 \<Rightarrow> 'k \<Rightarrow> u64 \<times> 'k"
  kfree_skb :: "u64 \<Rightarrow> 'k \<Rightarrow> 'k"
  dev_kfree_skb_any :: "u64 \<Rightarrow> int \<Rightarrow> 'k \<Rightarrow> 'k"
  netdev_alloc_skb :: "u64 \<Rightarrow> u32 \<Rightarrow> u32 \<Rightarrow> 'k \<Rightarrow> u64 \<times> 'k"
  netif_rx :: "u64 \<Rightarrow> 'k \<Rightarrow> int \<times> 'k"
  call_receive :: "u64 \<Rightarrow> 'k \<Rightarrow> int \<times> 'k"
  call_rcv :: "u64 \<Rightarrow> u64 \<Rightarrow> u64 \<Rightarrow> u64 \<Rightarrow> u64 \<Rightarrow> 'k \<Rightarrow> int \<times> 'k"
  skb_alive :: "'k \<Rightarrow> u64 \<Rightarrow> bool"
  skb_len :: "'k \<Rightarrow> u64 \<Rightarrow> u32"
  skb_pkt_type :: "'k \<Rightarrow> u64 \<Rightarrow> u8"

record 'k rx_state =
  kern :: 'k
  cnts :: counters
  uaf :: bool

text \<open>The globals the handlers read: the device of \<^verbatim>\<open>genpipe_pack\<close> and the saved handlers.\<close>

record rx_env =
  pack_dev :: u64
  saved_arp :: u64
  saved_ip :: u64
  saved_ipv6 :: u64

definition PACKET_OUTGOING :: u8 where
  "PACKET_OUTGOING = 4"

definition bump :: "nat \<Rightarrow> u64 list \<Rightarrow> u64 list" where
  "bump cpu xs = xs[cpu := xs ! cpu + 1]"

definition read_len :: "'k net_api \<Rightarrow> u64 \<Rightarrow> 'k rx_state \<Rightarrow> int \<times> 'k rx_state" where
  "read_len K skb st =
     (sint (skb_len K (kern st) skb), st\<lparr>uaf := uaf st \<or> \<not> skb_alive K (kern st) skb\<rparr>)"

section \<open>The packet handlers\<close>

text \<open>The end all five handlers have in common, from the comment on shared buffers on.\<close>

definition drop_packet :: "'k net_api \<Rightarrow> u64 \<Rightarrow> 'k rx_state \<Rightarrow> int \<times> 'k rx_state" where
  "drop_packet K skb st =
     (let (skb, k) = skb_share_check K skb (kern st); st = st\<lparr>kern := k\<rparr> in
      if skb = 0 then (0, st)
      else read_len K skb (st\<lparr>kern := kfree_skb K skb (kern st)\<rparr>))"

definition genpipe_arprcv ::
  "'k net_api \<Rightarrow> rx_env \<Rightarrow> u64 \<Rightarrow> u64 \<Rightarrow> u64 \<Rightarrow> u64 \<Rightarrow> 'k rx_state \<Rightarrow> int \<times> 'k rx_state" where
  "genpipe_arprcv K E skb dev pt dev2 st =
     (if dev \<noteq> pack_dev E then
        (let (r, k) = call_rcv K (saved_arp E) skb dev pt dev2 (kern st) in (r, st\<lparr>kern := k\<rparr>))
      else
        drop_packet K skb st)"

definition genpipe_iprcv ::
  "'k net_api \<Rightarrow> rx_env \<Rightarrow> nat \<Rightarrow> u64 \<Rightarrow> u64 \<Rightarrow> u64 \<Rightarrow> u64 \<Rightarrow> 'k rx_state \<Rightarrow> int \<times> 'k rx_state" where
  "genpipe_iprcv K E cpu skb dev pt dev2 st =
     (if dev \<noteq> pack_dev E then
        (let (r, k) = call_rcv K (saved_ip E) skb dev pt dev2 (kern st) in (r, st\<lparr>kern := k\<rparr>))
      else
        let st = (if skb_pkt_type K (kern st) skb = PACKET_OUTGOING then st
                  else st\<lparr>cnts := (cnts st)\<lparr>rx_count := bump cpu (rx_count (cnts st))\<rparr>\<rparr>)
        in drop_packet K skb st)"

definition genpipe_ipv6rcv ::
  "'k net_api \<Rightarrow> rx_env \<Rightarrow> u64 \<Rightarrow> u64 \<Rightarrow> u64 \<Rightarrow> u64 \<Rightarrow> 'k rx_state \<Rightarrow> int \<times> 'k rx_state" where
  "genpipe_ipv6rcv K E skb dev pt dev2 st =
     (if dev \<noteq> pack_dev E then
        (let (r, k) = call_rcv K (saved_ipv6 E) skb dev pt dev2 (kern st) in (r, st\<lparr>kern := k\<rparr>))
      else
        drop_packet K skb st)"

definition genpipe_nop ::
  "'k net_api \<Rightarrow> u64 \<Rightarrow> u64 \<Rightarrow> u64 \<Rightarrow> u64 \<Rightarrow> 'k rx_state \<Rightarrow> int \<times> 'k rx_state" where
  "genpipe_nop K skb dev pt dev2 st =
     drop_packet K skb st"

definition genpipe_pack_rcv ::
  "'k net_api \<Rightarrow> nat \<Rightarrow> u64 \<Rightarrow> u64 \<Rightarrow> u64 \<Rightarrow> u64 \<Rightarrow> 'k rx_state \<Rightarrow> int \<times> 'k rx_state" where
  "genpipe_pack_rcv K cpu skb dev pt dev2 st =
     (let st = (if skb_pkt_type K (kern st) skb = PACKET_OUTGOING then st
                else st\<lparr>cnts := (cnts st)\<lparr>rx_count := bump cpu (rx_count (cnts st))\<rparr>\<rparr>)
      in drop_packet K skb st)"

section \<open>The functions the network driver is made to call\<close>

definition genpipe_kfree_skb :: "'k net_api \<Rightarrow> u64 \<Rightarrow> 'k rx_state \<Rightarrow> 'k rx_state" where
  "genpipe_kfree_skb K skb st = st\<lparr>kern := kfree_skb K skb (kern st)\<rparr>"

definition genpipe__dev_kfree_skb_any :: "'k net_api \<Rightarrow> u64 \<Rightarrow> int \<Rightarrow> 'k rx_state \<Rightarrow> 'k rx_state" where
  "genpipe__dev_kfree_skb_any K skb reason st = st\<lparr>kern := dev_kfree_skb_any K skb reason (kern st)\<rparr>"

definition genpipe__netdev_alloc_skb ::
  "'k net_api \<Rightarrow> nat \<Rightarrow> u64 \<Rightarrow> u32 \<Rightarrow> u32 \<Rightarrow> 'k rx_state \<Rightarrow> u64 \<times> 'k rx_state" where
  "genpipe__netdev_alloc_skb K cpu dev n flags st =
     (let st = st\<lparr>cnts := (cnts st)\<lparr>alloc_count := bump cpu (alloc_count (cnts st))\<rparr>\<rparr>;
          (skb, k) = netdev_alloc_skb K dev n flags (kern st)
      in (skb, st\<lparr>kern := k\<rparr>))"

definition genpipe_netif_rx :: "'k net_api \<Rightarrow> nat \<Rightarrow> u64 \<Rightarrow> 'k rx_state \<Rightarrow> int \<times> 'k rx_state" where
  "genpipe_netif_rx K cpu skb st =
     (let st = st\<lparr>cnts := (cnts st)\<lparr>rx_count := bump cpu (rx_count (cnts st))\<rparr>\<rparr>;
          (r, k) = netif_rx K skb (kern st)
      in (r, st\<lparr>kern := k\<rparr>))"

definition genpipe_napi_gro_receive :: "'k net_api \<Rightarrow> nat \<Rightarrow> u64 \<Rightarrow> 'k rx_state \<Rightarrow> int \<times> 'k rx_state" where
  "genpipe_napi_gro_receive K cpu skb st =
     (let c = cnts st; c = c\<lparr>free_count := bump cpu (free_count c)\<rparr>;
          c = c\<lparr>rx_count := bump cpu (rx_count c)\<rparr>
      in (0, st\<lparr>cnts := c, kern := kfree_skb K skb (kern st)\<rparr>))"

definition genpipe_netif_receive_skb :: "'k net_api \<Rightarrow> nat \<Rightarrow> u64 \<Rightarrow> 'k rx_state \<Rightarrow> int \<times> 'k rx_state" where
  "genpipe_netif_receive_skb K cpu skb st =
     (let st = st\<lparr>cnts := (cnts st)\<lparr>rx_count := bump cpu (rx_count (cnts st))\<rparr>\<rparr>;
          (r, k) = call_receive K skb (kern st)
      in (r, st\<lparr>kern := k\<rparr>))"

section \<open>Sequences of calls\<close>

text \<open>What the kernel and the network driver call, and on which processor.\<close>

datatype event =
    Arp u64 u64 u64 u64
  | Ip nat u64 u64 u64 u64
  | Ipv6 u64 u64 u64 u64
  | Nop u64 u64 u64 u64
  | Pack nat u64 u64 u64 u64
  | Kfree u64
  | Kfree_any u64 int
  | Alloc nat u64 u32 u32
  | Netif_rx nat u64
  | Gro nat u64
  | Receive nat u64

fun deliver :: "'k net_api \<Rightarrow> rx_env \<Rightarrow> event \<Rightarrow> 'k rx_state \<Rightarrow> 'k rx_state" where
  "deliver K E (Arp skb dev pt dev2) st = snd (genpipe_arprcv K E skb dev pt dev2 st)"
| "deliver K E (Ip cpu skb dev pt dev2) st = snd (genpipe_iprcv K E cpu skb dev pt dev2 st)"
| "deliver K E (Ipv6 skb dev pt dev2) st = snd (genpipe_ipv6rcv K E skb dev pt dev2 st)"
| "deliver K E (Nop skb dev pt dev2) st = snd (genpipe_nop K skb dev pt dev2 st)"
| "deliver K E (Pack cpu skb dev pt dev2) st = snd (genpipe_pack_rcv K cpu skb dev pt dev2 st)"
| "deliver K E (Kfree skb) st = genpipe_kfree_skb K skb st"
| "deliver K E (Kfree_any skb reason) st = genpipe__dev_kfree_skb_any K skb reason st"
| "deliver K E (Alloc cpu dev n flags) st = snd (genpipe__netdev_alloc_skb K cpu dev n flags st)"
| "deliver K E (Netif_rx cpu skb) st = snd (genpipe_netif_rx K cpu skb st)"
| "deliver K E (Gro cpu skb) st = snd (genpipe_napi_gro_receive K cpu skb st)"
| "deliver K E (Receive cpu skb) st = snd (genpipe_netif_receive_skb K cpu skb st)"

fun deliver_all :: "'k net_api \<Rightarrow> rx_env \<Rightarrow> event list \<Rightarrow> 'k rx_state \<Rightarrow> 'k rx_state" where
  "deliver_all K E [] st = st"
| "deliver_all K E (e # es) st = deliver_all K E es (deliver K E e st)"

section \<open>Counting\<close>

text \<open>The calls that are to be counted as a packet, an allocation, a free.\<close>

fun is_packet :: "'k net_api \<Rightarrow> rx_env \<Rightarrow> 'k \<Rightarrow> event \<Rightarrow> bool" where
  "is_packet K E k (Ip cpu skb dev pt dev2) = (dev = pack_dev E \<and> skb_pkt_type K k skb \<noteq> PACKET_OUTGOING)"
| "is_packet K E k (Pack cpu skb dev pt dev2) = (skb_pkt_type K k skb \<noteq> PACKET_OUTGOING)"
| "is_packet K E k (Netif_rx cpu skb) = True"
| "is_packet K E k (Gro cpu skb) = True"
| "is_packet K E k (Receive cpu skb) = True"
| "is_packet K E k e = False"

fun is_alloc :: "event \<Rightarrow> bool" where
  "is_alloc (Alloc cpu dev n flags) = True"
| "is_alloc e = False"

fun is_gro :: "event \<Rightarrow> bool" where
  "is_gro (Gro cpu skb) = True"
| "is_gro e = False"

fun received :: "'k net_api \<Rightarrow> rx_env \<Rightarrow> event list \<Rightarrow> 'k rx_state \<Rightarrow> nat" where
  "received K E [] st = 0"
| "received K E (e # es) st =
     (if is_packet K E (kern st) e then 1 else 0) + received K E es (deliver K E e st)"

fun cpu_of :: "event \<Rightarrow> nat option" where
  "cpu_of (Ip cpu skb dev pt dev2) = Some cpu"
| "cpu_of (Pack cpu skb dev pt dev2) = Some cpu"
| "cpu_of (Alloc cpu dev n flags) = Some cpu"
| "cpu_of (Netif_rx cpu skb) = Some cpu"
| "cpu_of (Gro cpu skb) = Some cpu"
| "cpu_of (Receive cpu skb) = Some cpu"
| "cpu_of e = None"

text \<open>All three arrays have an element for every processor.\<close>

definition counters_for :: "nat \<Rightarrow> counters \<Rightarrow> bool" where
  "counters_for n c \<longleftrightarrow> length (rx_count c) = n \<and> length (alloc_count c) = n \<and> length (free_count c) = n"

definition on_cpus :: "nat \<Rightarrow> event list \<Rightarrow> bool" where
  "on_cpus n es \<longleftrightarrow> (\<forall>e \<in> set es. case cpu_of e of None \<Rightarrow> True | Some c \<Rightarrow> c < n)"

lemmas rx_defs = genpipe_arprcv_def genpipe_iprcv_def genpipe_ipv6rcv_def genpipe_nop_def
  genpipe_pack_rcv_def genpipe_kfree_skb_def genpipe__dev_kfree_skb_any_def
  genpipe__netdev_alloc_skb_def genpipe_netif_rx_def genpipe_napi_gro_receive_def
  genpipe_netif_receive_skb_def

lemma drop_packet_simps:
  "cnts (snd (drop_packet K skb st)) = cnts st"
  "skb_share_check K skb (kern st) = (p, k) \<Longrightarrow>
     kern (snd (drop_packet K skb st)) = (if p = 0 then k else kfree_skb K p k) \<and>
     uaf (snd (drop_packet K skb st)) = (uaf st \<or> (p \<noteq> 0 \<and> \<not> skb_alive K (kfree_skb K p k) p))"
  by (auto simp: drop_packet_def read_len_def Let_def case_prod_beta)

lemma deliver_counters:
  "cnts (deliver K E e st) =
     (let c = cnts st; cpu = the (cpu_of e) in
      c\<lparr>rx_count := (if is_packet K E (kern st) e then bump cpu (rx_count c) else rx_count c),
        alloc_count := (if is_alloc e then bump cpu (alloc_count c) else alloc_count c),
        free_count := (if is_gro e then bump cpu (free_count c) else free_count c)\<rparr>)"
  by (cases e) (simp_all add: rx_defs drop_packet_simps Let_def case_prod_beta)

lemma bump_length [simp]: "length (bump cpu xs) = length xs"
  by (simp add: bump_def)

lemma total_bump: "cpu < length xs \<Longrightarrow> total (bump cpu xs) = total xs + 1"
proof (induction xs arbitrary: cpu)
  case (Cons x xs)
  have t: "total (y # ys) = ucast y + total ys" for y ys
    by (simp add: total_packets packets_def unsigned_ucast_eq)
  show ?case
  proof (cases cpu)
    case 0
    have "ucast (x + 1) = (ucast x + 1 :: u32)"
      by (simp add: unsigned_ucast_eq word_unat_eq_iff unat_word_ariths take_bit_eq_mod mod_simps mod_mod_cancel)
    with 0 show ?thesis by (simp add: bump_def t)
  next
    case (Suc n)
    with Cons show ?thesis by (simp add: bump_def t)
  qed
qed simp

lemma deliver_total:
  assumes "counters_for n (cnts st)" and "on_cpus n [e]"
  shows "counters_for n (cnts (deliver K E e st))"
    and "total (rx_count (cnts (deliver K E e st))) =
      total (rx_count (cnts st)) + (if is_packet K E (kern st) e then 1 else 0)"
    and "total (alloc_count (cnts (deliver K E e st))) =
      total (alloc_count (cnts st)) + (if is_alloc e then 1 else 0)"
    and "total (free_count (cnts (deliver K E e st))) =
      total (free_count (cnts st)) + (if is_gro e then 1 else 0)"
proof -
  have "the (cpu_of e) < n" if "is_packet K E k e \<or> is_alloc e \<or> is_gro e" for k
    using that assms(2) by (cases e) (auto simp: on_cpus_def)
  note bound = this
  show "counters_for n (cnts (deliver K E e st))"
    and "total (rx_count (cnts (deliver K E e st))) =
      total (rx_count (cnts st)) + (if is_packet K E (kern st) e then 1 else 0)"
    and "total (alloc_count (cnts (deliver K E e st))) =
      total (alloc_count (cnts st)) + (if is_alloc e then 1 else 0)"
    and "total (free_count (cnts (deliver K E e st))) =
      total (free_count (cnts st)) + (if is_gro e then 1 else 0)"
    using assms(1) bound [of "kern st"] by (simp_all add: deliver_counters counters_for_def total_bump Let_def)
qed

lemma deliver_all_total:
  assumes "counters_for n (cnts st)" and "on_cpus n es"
  shows "counters_for n (cnts (deliver_all K E es st)) \<and>
    total (rx_count (cnts (deliver_all K E es st))) =
      total (rx_count (cnts st)) + word_of_nat (received K E es st) \<and>
    total (alloc_count (cnts (deliver_all K E es st))) =
      total (alloc_count (cnts st)) + word_of_nat (length (filter is_alloc es)) \<and>
    total (free_count (cnts (deliver_all K E es st))) =
      total (free_count (cnts st)) + word_of_nat (length (filter is_gro es))"
  using assms
proof (induction es arbitrary: st)
  case (Cons e es)
  have e: "on_cpus n [e]" and es: "on_cpus n es" using Cons.prems(2) by (auto simp: on_cpus_def)
  note d = deliver_total [OF Cons.prems(1) e, of K E]
  from Cons.IH [OF d(1) es] show ?case by (simp add: d ac_simps)
qed simp


text \<open>
  A kernel for the concrete instances: each buffer has a number of users, a length and a packet
  type; the last user to free it frees it.
\<close>

record sample_skb =
  users :: nat
  len :: u32
  ptype :: u8

definition sample_free :: "u64 \<Rightarrow> (u64 \<rightharpoonup> sample_skb) \<Rightarrow> (u64 \<rightharpoonup> sample_skb)" where
  "sample_free p k = (case k p of None \<Rightarrow> k
     | Some b \<Rightarrow> if users b \<le> 1 then k(p := None) else k(p \<mapsto> b\<lparr>users := users b - 1\<rparr>))"

definition sample_api :: "(u64 \<rightharpoonup> sample_skb) net_api" where
  "sample_api = \<lparr>
     skb_share_check = (\<lambda>p k. case k p of None \<Rightarrow> (0, k)
       | Some b \<Rightarrow> if users b = 1 then (p, k) else (0, sample_free p k)),
     kfree_skb = sample_free, dev_kfree_skb_any = (\<lambda>p _. sample_free p),
     netdev_alloc_skb = (\<lambda>_ n _ k. (0x100, k(0x100 \<mapsto> \<lparr>users = 1, len = 0, ptype = 0\<rparr>))),
     netif_rx = (\<lambda>p k. (0, sample_free p k)), call_receive = (\<lambda>p k. (0, sample_free p k)),
     call_rcv = (\<lambda>_ p _ _ _ k. (0, sample_free p k)),
     skb_alive = (\<lambda>k p. k p \<noteq> None), skb_len = (\<lambda>k p. case k p of None \<Rightarrow> 0 | Some b \<Rightarrow> len b),
     skb_pkt_type = (\<lambda>k p. case k p of None \<Rightarrow> 0 | Some b \<Rightarrow> ptype b)\<rparr>"

definition sample_rx :: "(u64 \<rightharpoonup> sample_skb) rx_state" where
  "sample_rx = \<lparr>kern = [0x200 \<mapsto> \<lparr>users = 1, len = 60, ptype = 0\<rparr>, 0x300 \<mapsto> \<lparr>users = 1, len = 60, ptype = 4\<rparr>],
     cnts = \<lparr>rx_count = [5, 0], alloc_count = [0, 0], free_count = [0, 0]\<rparr>, uaf = False\<rparr>"

definition sample_rx_env :: rx_env where
  "sample_rx_env = \<lparr>pack_dev = 7, saved_arp = 1, saved_ip = 2, saved_ipv6 = 3\<rparr>"


text \<open>
  What the handlers rely on, as the kernel documents it: \<^verbatim>\<open>skb_share_check\<close> returns a buffer
  with no other user, or a null pointer; and freeing a buffer with no other user frees its memory.
\<close>

definition frees_unshared :: "'k net_api \<Rightarrow> bool" where
  "frees_unshared K \<longleftrightarrow> (\<forall>skb k p k'. skb_share_check K skb k = (p, k') \<longrightarrow> p \<noteq> 0 \<longrightarrow>
     skb_alive K k' p \<and> \<not> skb_alive K (kfree_skb K p k') p)"

text \<open>Every packet handler frees the packet it takes and then reads the length of the freed
  buffer as its result: on the device the driver is bound to, a delivery through any of the five
  handlers is a use after free unless the packet could not be unshared. A packet of another device
  goes to the saved handler untouched.\<close>

theorem handlers_use_after_free:
  assumes "frees_unshared K" and "skb_share_check K skb (kern st) = (p, k)"
    and "e \<in> {Arp skb (pack_dev E) pt dev2, Ip cpu skb (pack_dev E) pt dev2, Ipv6 skb (pack_dev E) pt dev2,
      Nop skb dev1 pt dev2, Pack cpu skb dev1 pt dev2}"
    and "dev \<noteq> pack_dev E"
  shows "uaf (deliver K E e st) = (uaf st \<or> p \<noteq> 0) \<and>
    kern (deliver K E e st) = (if p = 0 then k else kfree_skb K p k) \<and>
    deliver K E (Arp skb dev pt dev2) st = st\<lparr>kern := snd (call_rcv K (saved_arp E) skb dev pt dev2 (kern st))\<rparr> \<and>
    deliver K E (Ip cpu skb dev pt dev2) st = st\<lparr>kern := snd (call_rcv K (saved_ip E) skb dev pt dev2 (kern st))\<rparr> \<and>
    deliver K E (Ipv6 skb dev pt dev2) st = st\<lparr>kern := snd (call_rcv K (saved_ipv6 E) skb dev pt dev2 (kern st))\<rparr>"
proof -
  have "skb_share_check K skb (kern st0) = (p, k) \<Longrightarrow> p \<noteq> 0 \<Longrightarrow> \<not> skb_alive K (kfree_skb K p k) p" for st0
    using assms(1) unfolding frees_unshared_def by blast
  with assms(2,3) have "uaf (deliver K E e st) = (uaf st \<or> p \<noteq> 0) \<and>
    kern (deliver K E e st) = (if p = 0 then k else kfree_skb K p k)"
    by (auto simp: rx_defs drop_packet_simps Let_def split: if_splits)
  then show ?thesis
    using assms(4) by (simp add: rx_defs case_prod_beta)
qed

theorem handlers_use_after_free_witness:
  "uaf (deliver sample_api sample_rx_env (Arp 0x200 7 0 7) sample_rx)"
proof -
  have "frees_unshared sample_api"
    by (auto simp: frees_unshared_def sample_api_def sample_free_def split: option.splits if_splits)
  moreover have "skb_share_check sample_api 0x200 (kern sample_rx) = (0x200, kern sample_rx)"
    by (simp add: sample_api_def sample_rx_def)
  ultimately show ?thesis
    using handlers_use_after_free [where K = sample_api and skb = "0x200" and st = sample_rx
        and p = "0x200" and k = "kern sample_rx" and e = "Arp 0x200 7 0 7" and E = sample_rx_env
        and pt = 0 and ?dev2.0 = 7 and dev = 8]
    by (simp add: sample_rx_env_def)
qed

end
