(* ===== verification/Genpipe_Kallsyms.thy ===== *)
theory Genpipe_Kallsyms
  imports Genpipe_Symbols
begin

text \<open>
  What \<^verbatim>\<open>get_table_entry\<close> finds. It looks for each name in a window of 128 bytes that moves over
  the file in steps of 64: here the windows are shown to miss nothing, whatever the alignment of
  the lines, so that the search is one of the whole file.
\<close>

section \<open>Occurrences\<close>

definition occ :: "string \<Rightarrow> string \<Rightarrow> nat \<Rightarrow> bool" where
  "occ s p j \<longleftrightarrow> take (length p) (drop j s) = p"

lemma occ_bound: "occ s p j \<Longrightarrow> p \<noteq> [] \<Longrightarrow> j + length p \<le> length s"
proof -
  assume "occ s p j" and p: "p \<noteq> []"
  then have "length (take (length p) (drop j s)) = length p" by (simp add: occ_def)
  then have "length p \<le> length s - j" by simp
  moreover have "0 < length p" using p by simp
  ultimately show ?thesis by linarith
qed

lemma strnstr_occ:
  assumes "p \<noteq> []"
  shows "strnstr s p = Some j \<longleftrightarrow> occ s p j \<and> (\<forall>i<j. \<not> occ s p i)"
proof (induction s arbitrary: j)
  case Nil
  then show ?case using assms by (simp add: occ_def)
next
  case (Cons c s)
  show ?case
  proof (cases j)
    case 0
    then show ?thesis by (auto simp: occ_def)
  next
    case (Suc k)
    have "occ (c # s) p (Suc i) = occ s p i" for i by (simp add: occ_def)
    moreover have "(\<forall>i<Suc k. \<not> occ (c # s) p i) \<longleftrightarrow> \<not> occ (c # s) p 0 \<and> (\<forall>i<k. \<not> occ (c # s) p (Suc i))"
      by (auto simp: less_Suc_eq_0_disj)
    ultimately show ?thesis using Cons.IH [of k] Suc by (auto simp: occ_def)
  qed
qed

lemma strnstr_None: "p \<noteq> [] \<Longrightarrow> strnstr s p = None \<longleftrightarrow> (\<forall>j. \<not> occ s p j)"
proof -
  assume p: "p \<noteq> []"
  have "\<exists>i. strnstr s p = Some i" if "occ s p j" for j
    using LeastI [of "occ s p", OF that] not_less_Least [of _ "occ s p"] strnstr_occ [OF p] by blast
  moreover have "occ s p i" if "strnstr s p = Some i" for i
    using that strnstr_occ [OF p] by blast
  ultimately show ?thesis by (metis not_None_eq)
qed

lemma occ_take: "j + length p \<le> m \<Longrightarrow> occ (take m s) p j = occ s p j"
  by (simp add: occ_def drop_take min_def)

lemma occ_append1: "j + length p \<le> length s \<Longrightarrow> occ (s @ t) p j = occ s p j"
  by (simp add: occ_def)

lemma occ_append2: "occ (s @ t) p (length s + j) = occ t p j"
  by (simp add: occ_def)

lemma occ_drop: "k \<le> length s \<Longrightarrow> occ (drop k s) p j = occ s p (k + j)"
  by (simp add: occ_def add.commute)

section \<open>Numbers\<close>

text \<open>\<^term>\<open>scan_hex\<close> in two steps: past the prefix, and the digits.\<close>

definition hex_digits_of :: "string \<Rightarrow> u64 option option" where
  "hex_digits_of s = (let ds = takeWhile is_xdigit s in
     if ds = s then None else if ds = [] then Some None else Some (Some (hex_number ds)))"

definition skip_0x :: "string \<Rightarrow> string" where
  "skip_0x s = (case s of a # x # d # r \<Rightarrow>
       if a = CHR ''0'' \<and> (x = CHR ''x'' \<or> x = CHR ''X'') \<and> is_xdigit d then d # r else s
     | _ \<Rightarrow> s)"

lemma scan_hex_steps: "scan_hex s = hex_digits_of (skip_0x (dropWhile is_space s))"
  by (simp add: scan_hex_def hex_digits_of_def skip_0x_def Let_def)

lemma hex_digits_of_append:
  assumes "hex_digits_of s = Some r"
  shows "hex_digits_of (s @ t) = Some r"
proof -
  have ne: "takeWhile is_xdigit s \<noteq> s"
    using assms by (cases "takeWhile is_xdigit s = s") (simp_all only: hex_digits_of_def Let_def simp_thms if_True option.distinct)
  then obtain x where x: "x \<in> set s" "\<not> is_xdigit x" by auto
  then have "takeWhile is_xdigit (s @ t) = takeWhile is_xdigit s" by (rule takeWhile_append1)
  moreover have "takeWhile is_xdigit (s @ t) \<noteq> s @ t" using x by (metis UnCI set_append takeWhile_eq_all_conv)
  ultimately show ?thesis using assms ne by (simp add: hex_digits_of_def Let_def del: takeWhile_eq_all_conv)
qed

text \<open>What is scanned does not depend on what follows, unless nothing but zeros was seen.\<close>

lemma scan_hex_append:
  assumes "scan_hex s = Some (Some v)" and "v \<noteq> 0"
  shows "scan_hex (s @ t) = Some (Some v)"
proof -
  define s1 where "s1 = dropWhile is_space s"
  have r: "hex_digits_of (skip_0x s1) = Some (Some v)" using assms(1) by (simp add: scan_hex_steps s1_def)
  then have "s1 \<noteq> []" by (auto simp: hex_digits_of_def skip_0x_def)
  then have app: "dropWhile is_space (s @ t) = s1 @ t"
    by (auto simp: s1_def dropWhile_append)
  consider c where "s1 = [c]" | c d where "s1 = [c, d]" | c d e u where "s1 = c # d # e # u"
    using \<open>s1 \<noteq> []\<close> by (metis list.exhaust)
  then have "skip_0x (s1 @ t) = skip_0x s1 @ t"
  proof cases
    case 1
    with r have False by (auto simp: hex_digits_of_def skip_0x_def Let_def split: if_splits)
    then show ?thesis ..
  next
    case 2
    with r have "v = hex_number [c]"
      by (auto simp: hex_digits_of_def skip_0x_def Let_def split: if_splits)
    then have "c \<noteq> CHR ''0''" using assms(2) by (auto simp: hex_number_def hex_val_def)
    with 2 show ?thesis by (auto simp: skip_0x_def split: list.splits)
  next
    case 3
    then show ?thesis by (simp add: skip_0x_def)
  qed
  then show ?thesis using hex_digits_of_append [OF r, of t] by (simp add: scan_hex_steps app)
qed

section \<open>One name in one window\<close>

definition symbol_at :: "string \<Rightarrow> string \<Rightarrow> u64" where
  "symbol_at kallsyms p =
     (case strnstr kallsyms p of
        None \<Rightarrow> 0
      | Some j \<Rightarrow> (case scan_hex (drop (j - 19) kallsyms) of Some (Some v) \<Rightarrow> v | _ \<Rightarrow> 0))"

text \<open>
  Wherever the name stands, there are 19 characters before it, which hold a number that is not
  zero. \<open>p\<close> may end with a newline but has none before.
\<close>

definition addressed :: "string \<Rightarrow> string \<Rightarrow> nat \<Rightarrow> bool" where
  "addressed s p j \<longleftrightarrow> 19 \<le> j \<and> (case scan_hex (take 20 (drop (j - 19) s)) of Some (Some v) \<Rightarrow> v \<noteq> 0 | _ \<Rightarrow> False)"

definition name_pattern :: "string \<Rightarrow> bool" where
  "name_pattern p \<longleftrightarrow> p \<noteq> [] \<and> length p \<le> 45 \<and> NL \<notin> set (butlast p)"

lemma addressed_scan:
  assumes "addressed s p j" and "occ s p j" and "p \<noteq> []" and "j + length p \<le> m"
  obtains v where "v \<noteq> 0" "scan_hex (drop (j - 19) (take m s @ t)) = Some (Some v)"
    "scan_hex (drop (j - 19) s) = Some (Some v)"
proof -
  from assms(1) obtain v where j: "19 \<le> j" and v: "v \<noteq> 0" "scan_hex (take 20 (drop (j - 19) s)) = Some (Some v)"
    by (auto simp: addressed_def split: option.splits)
  have "0 < length p" using assms(3) by simp
  then have m: "j + 1 \<le> m" using assms(4) by linarith
  have "j + length p \<le> length s" using occ_bound [OF assms(2,3)] .
  then have l: "j + 1 \<le> length s" using \<open>0 < length p\<close> by linarith
  have "drop (j - 19) (take m s @ t) = take 20 (drop (j - 19) s) @ drop 20 (drop (j - 19) (take m s @ t))"
    (is "?u = _")
  proof -
    define d where "d = j - 19"
    have d: "d + 20 \<le> m" "d + 20 \<le> length s" using j m l by (simp_all add: d_def)
    have "drop d (take m s @ t) = take (m - d) (drop d s) @ t" using d by (simp add: drop_take)
    moreover have "take 20 (take (m - d) (drop d s) @ t) = take 20 (drop d s)"
    proof -
      have "20 \<le> m - d" "20 \<le> length s - d" using d by linarith+
      then show ?thesis by simp
    qed
    ultimately have "take 20 ?u = take 20 (drop (j - 19) s)" unfolding d_def by simp
    then show ?thesis by (metis append_take_drop_id)
  qed
  then have "scan_hex ?u = Some (Some v)" using scan_hex_append [OF v(2,1)] by metis
  moreover have "scan_hex (drop (j - 19) s) = Some (Some v)"
    using scan_hex_append [OF v(2,1), of "drop 20 (drop (j - 19) s)"] by (simp only: append_take_drop_id)
  ultimately show thesis using v(1) that by blast
qed

text \<open>The first occurrence in the part of the text seen so far.\<close>

lemma first_in_prefix:
  assumes "p \<noteq> []" and "strnstr (take m s) p = Some j"
  shows "strnstr s p = Some j" "j + length p \<le> m" "occ s p j"
proof -
  from assms have o: "occ (take m s) p j" "\<forall>i<j. \<not> occ (take m s) p i" by (simp_all add: strnstr_occ)
  from occ_bound [OF o(1) assms(1)] show m: "j + length p \<le> m" by simp
  with o(1) show "occ s p j" by (simp add: occ_take)
  moreover have "\<not> occ s p i" if "i < j" for i
    using o(2) that m by (simp add: occ_take)
  ultimately show "strnstr s p = Some j" using assms(1) by (simp add: strnstr_occ)
qed

lemma symbol_at_prefix:
  assumes "p \<noteq> []" and "strnstr (take m s) p = Some j" and "addressed s p j"
  shows "symbol_at (take m s) p = symbol_at s p \<and> symbol_at s p \<noteq> 0"
proof -
  note f = first_in_prefix [OF assms(1,2)]
  obtain v where "v \<noteq> 0" "scan_hex (drop (j - 19) (take m s @ [])) = Some (Some v)"
    "scan_hex (drop (j - 19) s) = Some (Some v)"
    by (rule addressed_scan [OF assms(3) f(3) assms(1) f(2)])
  then show ?thesis using f(1) assms(2) by (simp add: symbol_at_def)
qed

text \<open>
  A window shows the text from \<open>k\<close> on, up to \<open>m\<close>, and where the text ends before the window,
  again a part of what was seen. What is not in the text up to \<open>m\<close> is not in the window.
\<close>

definition window_tail :: "string \<Rightarrow> nat \<Rightarrow> nat \<Rightarrow> string \<Rightarrow> bool" where
  "window_tail s k m tail \<longleftrightarrow> k + 64 < m \<and> m \<le> length s \<and>
     (tail = [] \<or> m = length s \<and> last s = NL \<and> (\<exists>l. tail = drop l (take 64 (drop k s))))"

lemma window_none:
  assumes p: "name_pattern p" and w: "window_tail s k m tail" and None: "strnstr (take m s) p = None"
  shows "strnstr (drop k (take m s) @ tail) p = None"
proof -
  let ?W = "drop k (take m s) @ tail" and ?X = "take (k + 64) s"
  have ne: "p \<noteq> []" using p by (simp add: name_pattern_def)
  have k: "k + 64 < m" "m \<le> length s"
    and tail: "tail = [] \<or> m = length s \<and> last s = NL \<and> (\<exists>l. tail = drop l (take 64 (drop k s)))"
    using w by (simp_all add: window_tail_def)
  have lenW: "length (drop k (take m s)) = m - k" using k by simp
  have Y: "\<not> occ (take m s) p i" for i using None ne by (simp add: strnstr_None)
  have X: "\<not> occ ?X p i" for i
  proof
    assume o: "occ ?X p i"
    then have "i + length p \<le> k + 64" using occ_bound [OF _ ne, of ?X i] k by simp
    then have "occ (take m s) p i" using o k occ_take [of i p "k + 64" "take m s"] by simp
    with Y show False by blast
  qed
  have inW: "occ ?W p i = occ (take m s) p (k + i)" if "i + length p \<le> m - k" for i
    using that k by (simp add: occ_append1 occ_drop)
  have "\<not> occ ?W p i" for i
  proof
    assume o: "occ ?W p i"
    then have bound: "i + length p \<le> m - k + length tail"
      using occ_bound [OF _ ne] lenW by fastforce
    consider "i + length p \<le> m - k" | "m - k \<le> i" "\<not> i + length p \<le> m - k"
      | "i < m - k" "m - k < i + length p" by linarith
    then show False
    proof cases
      case 1
      with o inW Y show ?thesis by blast
    next
      case 2
      then obtain d where d: "i = length (drop k (take m s)) + d" using lenW by (metis le_Suc_ex)
      then have "occ tail p d" using o by (simp only: occ_append2)
      moreover from tail this obtain l where "tail = drop l (take 64 (drop k s))"
        using ne by (auto simp: occ_def)
      ultimately have "occ (drop (k + l) ?X) p d"
        by (simp add: take_drop drop_drop add.commute)
      then show ?thesis using X ne by (cases "k + l \<le> length ?X") (auto simp: occ_drop occ_def)
    next
      case 3
      then have "tail \<noteq> []" using bound by auto
      with tail have s: "m = length s" "last s = NL" by auto
      define q where "q = m - k - 1 - i"
      have q: "q < length p - 1" using 3 by (simp add: q_def)
      have "p ! q = take (length p) (drop i ?W) ! q" using o by (simp add: occ_def)
      also have "\<dots> = ?W ! (i + q)"
        using nth_drop [of i ?W q] q bound lenW by (simp del: drop_append drop_drop)
      also have "\<dots> = s ! (m - 1)"
      proof -
        have "i + q = m - k - 1" "m - k - 1 < length (drop k (take m s))" using 3 k lenW by (simp_all add: q_def)
        then show ?thesis using k by (simp add: nth_append)
      qed
      also have "\<dots> = NL" using s k last_conv_nth [of s] by fastforce
      finally have "butlast p ! q = NL" using q by (simp add: nth_butlast)
      then show ?thesis using p q by (metis length_butlast name_pattern_def nth_mem)
    qed
  qed
  then show ?thesis using ne by (simp add: strnstr_None)
qed

text \<open>One search.\<close>

lemma look_window:
  assumes p: "name_pattern p" and addr: "\<And>j. occ s p j \<Longrightarrow> addressed s p j"
    and w: "window_tail s k m tail"
  shows "look (drop k (take m s) @ tail) p (symbol_at (take (k + 64) s) p) = Some (symbol_at (take m s) p)"
proof -
  let ?W = "drop k (take m s) @ tail" and ?X = "take (k + 64) s"
  have k: "k + 64 < m" "m \<le> length s" using w by (simp_all add: window_tail_def)
  have ne: "p \<noteq> []" and len: "length p \<le> 45" using p by (simp_all add: name_pattern_def)
  show ?thesis
  proof (cases "strnstr ?X p")
    case (Some j)
    have tt: "take (k + 64) (take m s) = ?X" using k(1) by simp
    note f = first_in_prefix [OF ne, of "k + 64" "take m s", unfolded tt, OF Some]
    have a: "addressed s p j" using first_in_prefix [OF ne Some] addr by blast
    have "symbol_at ?X p = symbol_at s p \<and> symbol_at s p \<noteq> 0"
      by (rule symbol_at_prefix [OF ne Some a])
    moreover have "symbol_at (take m s) p = symbol_at s p \<and> symbol_at s p \<noteq> 0"
      by (rule symbol_at_prefix [OF ne f(1) a])
    ultimately show ?thesis by (simp add: look_def split: option.splits)
  next
    case None
    then have X: "\<not> occ ?X p i" for i using ne by (simp add: strnstr_None)
    have cur: "symbol_at ?X p = 0" using None by (simp add: symbol_at_def)
    have lenW: "length (drop k (take m s)) = m - k" using k by simp
    have inW: "occ ?W p i = occ (take m s) p (k + i)" if "i + length p \<le> m - k" for i
      using that k by (simp add: occ_append1 occ_drop)
    show ?thesis
    proof (cases "strnstr (take m s) p")
      case (Some j)
      note f = first_in_prefix [OF ne Some]
      have "\<not> j + length p \<le> k + 64"
        using X [of j] f(3) occ_take by blast
      then have j: "k + 19 \<le> j" "j + length p \<le> m" using len f(2) by linarith+
      have "occ ?W p (j - k)" using inW [of "j - k"] f j by (simp add: occ_take)
      moreover have "\<not> occ ?W p i" if "i < j - k" for i
      proof -
        have "i + length p \<le> m - k" using that j by linarith
        moreover have "k + i < j" using that by linarith
        then have "\<not> occ (take m s) p (k + i)" using Some ne by (simp add: strnstr_occ)
        ultimately show ?thesis using inW by blast
      qed
      ultimately have first: "strnstr ?W p = Some (j - k)" using ne by (simp add: strnstr_occ)
      have a: "addressed s p j" using addr f(3) .
      obtain v where v: "scan_hex (drop (j - 19) (take m s @ tail)) = Some (Some v)"
        "scan_hex (drop (j - 19) s) = Some (Some v)"
        by (rule addressed_scan [OF a f(3) ne f(2)])
      obtain w where w: "scan_hex (drop (j - 19) (take m s @ [])) = Some (Some w)"
        "scan_hex (drop (j - 19) s) = Some (Some w)"
        by (rule addressed_scan [OF a f(3) ne f(2)])
      have "drop (j - k - 19) ?W = drop (j - 19) (take m s @ tail)"
      proof -
        have "?W = drop k (take m s @ tail)" using k by simp
        then show ?thesis using j by (simp only: drop_drop) simp
      qed
      then have "look ?W p 0 = Some v"
        using first j v(1) by (simp add: look_def del: drop_append)
      moreover have "symbol_at (take m s) p = v" using Some v w by (simp add: symbol_at_def)
      ultimately show ?thesis by (simp only: cur)
    next
      case None
      then have "strnstr ?W p = None" by (rule window_none [OF p w])
      then show ?thesis using None by (simp only: cur) (simp add: look_def symbol_at_def)
    qed
  qed
qed


text \<open>A name that stands in the window has an address that is not zero.\<close>

lemma window_nonzero:
  assumes p: "name_pattern p" and addr: "\<And>j. occ s p j \<Longrightarrow> addressed s p j" and w: "window_tail s k m tail"
    and "strnstr (drop k (take m s) @ tail) p \<noteq> None"
  shows "symbol_at (take m s) p \<noteq> 0"
proof -
  have ne: "p \<noteq> []" using p by (simp add: name_pattern_def)
  from assms(4) window_none [OF p w] obtain j where "strnstr (take m s) p = Some j" by (metis option.exhaust)
  then show ?thesis
    using symbol_at_prefix [OF ne] first_in_prefix(3) [OF ne] addr by metis
qed

section \<open>All the names\<close>

definition patterns :: "string list" where
  "patterns = map entry [''kfree_skb'', ''__dev_kfree_skb_any'', ''__netdev_alloc_skb'', ''netif_rx'',
     ''napi_gro_receive'', ''netif_receive_skb'', ''arp_rcv'', ''ip_rcv'', ''ipv6_rcv'', ''ptype_all'',
     ''ptype_base''] @ [''ixgbe_clean_rx_irq'']"

definition base_list :: "u64 \<Rightarrow> u64 list" where
  "base_list b = (if b = 0 then replicate PTYPE_HASH_SIZE 0
     else map (\<lambda>i. b + word_of_nat i * 0x10) [0..<PTYPE_HASH_SIZE])"

text \<open>Every variable holds the address of its name in the text, 0 where the text does not have it.\<close>

definition found :: "string \<Rightarrow> symbols \<Rightarrow> bool" where
  "found t s \<longleftrightarrow>
     kfreeskb s = symbol_at t (entry ''kfree_skb'') \<and>
     devkfreeskbany s = symbol_at t (entry ''__dev_kfree_skb_any'') \<and>
     netdevallocskb s = symbol_at t (entry ''__netdev_alloc_skb'') \<and>
     netifrx s = symbol_at t (entry ''netif_rx'') \<and>
     napigroreceive s = symbol_at t (entry ''napi_gro_receive'') \<and>
     netifreceiveskb s = symbol_at t (entry ''netif_receive_skb'') \<and>
     ixgbecleanrxirq s = symbol_at t ''ixgbe_clean_rx_irq'' \<and>
     arprcv s = symbol_at t (entry ''arp_rcv'') \<and>
     iprcv s = symbol_at t (entry ''ip_rcv'') \<and>
     ipv6rcv s = symbol_at t (entry ''ipv6_rcv'') \<and>
     ptypeall s = symbol_at t (entry ''ptype_all'') \<and>
     ptypebase s = base_list (symbol_at t (entry ''ptype_base''))"

lemma patterns_ok: "p \<in> set patterns \<Longrightarrow> name_pattern p"
  unfolding patterns_def by (auto simp: name_pattern_def entry_def NL_def)

lemma base_list_0: "base_list b ! 0 = b"
  by (simp add: base_list_def PTYPE_HASH_SIZE_def upt_rec)

text \<open>The lines of the driver itself can always be scanned: there is a bracket after the address.\<close>

lemma scan_hex_bracket:
  assumes "CHR ''['' \<in> set s"
  shows "scan_hex s \<noteq> None"
proof -
  have br: "\<not> is_space CHR ''[''" "\<not> is_xdigit CHR ''[''" by (simp_all add: is_space_def is_xdigit_def hex_val_def)
  obtain u v where "s = u @ CHR ''['' # v" using split_list [OF assms] by blast
  then have "CHR ''['' \<in> set (dropWhile is_space s)" using br(1) by (simp add: dropWhile_append)
  then have "CHR ''['' \<in> set (skip_0x (dropWhile is_space s))"
    by (auto simp: skip_0x_def split: list.splits)
  then have "takeWhile is_xdigit (skip_0x (dropWhile is_space s)) \<noteq> skip_0x (dropWhile is_space s)"
    using br(2) takeWhile_eq_all_conv by metis
  then show ?thesis unfolding scan_hex_steps hex_digits_of_def Let_def by simp
qed

lemma line_back_le: "line_back w i \<le> i"
  by (induction i) auto

lemma look_driver_some:
  "\<exists>adr' s'. look_driver w (adr, s) = Some (adr', s') \<and> (\<forall>t. found t s' = found t s)"
proof (cases "strnstr w (''[ixgbe]'' @ [NL])")
  case None
  then show ?thesis
    by (simp add: look_driver_def)
next
  case (Some i)
  have "''[ixgbe]'' @ [NL] \<noteq> []" by simp
  from Some strnstr_occ [OF this] have o: "occ w (''[ixgbe]'' @ [NL]) i" by blast
  let ?l = "line_back w i"
  show ?thesis
  proof (cases "?l = 0")
    case True
    then show ?thesis using Some
      by (simp add: look_driver_def)
  next
    case False
    have i: "i < length w" using occ_bound [OF o] by simp
    from o have "take (length (''[ixgbe]'' @ [NL])) (drop i w) ! 0 = (''[ixgbe]'' @ [NL]) ! 0"
      unfolding occ_def by (rule arg_cong)
    then have bracket: "w ! i = CHR ''[''" using i by simp
    have "?l \<noteq> i"
      using False bracket line_back_le [of w "i - 1"] by (cases i) (auto simp: NL_def)
    then have "?l + 1 \<le> i" using line_back_le [of w i] by linarith
    then have "CHR ''['' \<in> set (drop (?l + 1) w)"
    proof -
      have "drop (?l + 1) w ! (i - (?l + 1)) = w ! i" "i - (?l + 1) < length (drop (?l + 1) w)"
        using i \<open>?l + 1 \<le> i\<close> by simp_all
      then show ?thesis using bracket nth_mem by metis
    qed
    then obtain r where "scan_hex (drop (?l + 1) w) = Some r" using scan_hex_bracket by fastforce
    then show ?thesis using Some False
      by (simp add: look_driver_def Let_def found_def)
  qed
qed


lemma look_base_step:
  assumes "look w (entry ''ptype_base'') b = Some c" and "ptypebase s = base_list b"
    and "strnstr w (entry ''ptype_base'') \<noteq> None \<Longrightarrow> c \<noteq> 0"
  shows "look_base w s = Some (s\<lparr>ptypebase := base_list c\<rparr>)"
proof (cases "strnstr w (entry ''ptype_base'') \<noteq> None \<and> b = 0")
  case True
  then show ?thesis
    using assms by (simp add: look_base_def base_list_0) (simp add: base_list_def)
next
  case False
  then have "c = b" using assms(1) by (auto simp: look_def split: option.splits)
  then have "s\<lparr>ptypebase := base_list c\<rparr> = s" using assms(2) by simp
  then show ?thesis using False assms by (auto simp: look_base_def base_list_0)
qed

lemma look_all_step:
  assumes "found t s"
    and looks: "\<And>p. p \<in> set patterns \<Longrightarrow> look w p (symbol_at t p) = Some (symbol_at t' p)"
    and base: "strnstr w (entry ''ptype_base'') \<noteq> None \<Longrightarrow> symbol_at t' (entry ''ptype_base'') \<noteq> 0"
  shows "\<exists>adr' s'. look_all w (adr, s) = Some (adr', s') \<and> found t' s'"
proof -
  obtain adr1 s1 where driver: "look_driver w (adr, s) = Some (adr1, s1)" "found t s1"
    using look_driver_some [of w adr s] assms(1) by blast
  note l = looks [unfolded patterns_def]
  have "look w (entry ''ptype_base'') (symbol_at t (entry ''ptype_base'')) = Some (symbol_at t' (entry ''ptype_base''))"
    by (rule l) simp
  from look_base_step [OF this _ base] show ?thesis
    using driver l by (simp add: look_all_def found_def)
qed


section \<open>The loop\<close>

text \<open>
  \<open>t\<close> is the text behind what the first half of the buffer held at the start. Before each read
  the variables hold what the text up to the position has, and the first half of the buffer the
  64 characters before the position; the second half is the same again once something was read.
\<close>

lemma read_loop_finds:
  assumes t: "t = junk @ kallsyms" "length junk = 64" and nl: "64 \<le> length kallsyms" "last kallsyms = NL"
    and addr: "\<And>p j. p \<in> set patterns \<Longrightarrow> occ t p j \<Longrightarrow> addressed t p j"
    and full: "\<And>i. HALF \<le> granted i"
  shows "pos \<le> length kallsyms \<Longrightarrow> length buf = 128 \<Longrightarrow>
    (pos < length kallsyms \<Longrightarrow> take 64 buf = take 64 (drop pos t)) \<Longrightarrow>
    (0 < pos \<Longrightarrow> drop 64 buf = take 64 buf) \<Longrightarrow> found (take (pos + 64) t) s \<Longrightarrow>
    \<exists>adr' s'. read_loop kallsyms granted pos buf (adr, s) = Some (adr', s') \<and> found t s'"
proof (induction "length kallsyms - pos" arbitrary: pos buf adr s rule: less_induct)
  case less
  note pos = less.prems(1) and buf = less.prems(2)
  define L where "L = min 64 (length kallsyms - pos)"
  define data where "data = take L (drop pos kallsyms)"
  have data: "file_read kallsyms granted pos HALF = data" "length data = L"
    using full [of pos] by (simp_all add: file_read_def data_def L_def HALF_def min_def)
  show ?case
  proof (cases "L = 0")
    case True
    then have "pos = length kallsyms" using pos by (simp add: L_def)
    then have "take (pos + 64) t = t" using t by simp
    then show ?thesis using less.prems(5) True data by (subst read_loop.simps) (simp add: Let_def)
  next
    case False
    then have here: "pos < length kallsyms" using pos by (auto simp: L_def)
    define m where "m = pos + 64 + L"
    define tail where "tail = drop (64 + L) buf"
    let ?W = "take HALF buf @ data @ drop (HALF + length data) buf"
    have last: "last t = NL" "length t = length kallsyms + 64" using t nl by (auto simp: last_append)
    have "drop (pos + 64) t = drop pos kallsyms" using t by simp
    then have "drop 64 (drop pos t) = drop pos kallsyms" by (simp only: drop_drop add.commute [of 64])
    then have "take (64 + L) (drop pos t) = take 64 (drop pos t) @ data"
      by (simp only: take_add data_def)
    moreover have "drop pos (take m t) = take (64 + L) (drop pos t)"
      unfolding m_def drop_take by (simp only: diff_add_inverse add.assoc)
    ultimately have shown: "drop pos (take m t) = take 64 buf @ data"
      using less.prems(3) [OF here] by (simp only:)
    then have W: "?W = drop pos (take m t) @ tail" using data by (simp add: HALF_def tail_def)
    have "tail = [] \<or> m = length t \<and> (\<exists>l. tail = drop l (take 64 (drop pos t)))"
    proof (cases "L = 64")
      case True
      then show ?thesis using buf by (simp add: tail_def)
    next
      case False
      then have L: "L = length kallsyms - pos" and "0 < pos" using nl by (auto simp: L_def)
      then have "tail = drop L (take 64 (drop pos t))"
        using less.prems(3) [OF here] less.prems(4) by (simp add: tail_def) (metis add.commute drop_drop)
      then show ?thesis using L pos last by (auto simp: m_def)
    qed
    then have w: "window_tail t pos m tail"
      using False last pos by (auto simp: window_tail_def m_def L_def)
    have "look ?W p (symbol_at (take (pos + 64) t) p) = Some (symbol_at (take m t) p)" if "p \<in> set patterns" for p
      unfolding W by (rule look_window [OF patterns_ok [OF that] addr [OF that] w])
    moreover have pb: "entry ''ptype_base'' \<in> set patterns" by (simp add: patterns_def)
    have "symbol_at (take m t) (entry ''ptype_base'') \<noteq> 0" if "strnstr ?W (entry ''ptype_base'') \<noteq> None"
      by (rule window_nonzero [OF patterns_ok [OF pb] addr [OF pb] w]) (use that W in simp_all)
    ultimately obtain adr1 s1 where step: "look_all ?W (adr, s) = Some (adr1, s1)" "found (take m t) s1"
      using look_all_step [OF less.prems(5)] by blast
    define buf1 where "buf1 = drop HALF ?W @ drop HALF ?W"
    have lenW: "length ?W = 128" using buf data by (simp add: HALF_def L_def)
    have "\<exists>adr' s'. read_loop kallsyms granted (pos + L) buf1 (adr1, s1) = Some (adr', s') \<and> found t s'"
    proof (rule less.hyps)
      show "length kallsyms - (pos + L) < length kallsyms - pos" "pos + L \<le> length kallsyms"
        using False here by (simp_all add: L_def)
      show "length buf1 = 128" "drop 64 buf1 = take 64 buf1"
        using lenW by (simp_all add: buf1_def HALF_def)
      show "found (take (pos + L + 64) t) s1" using step(2) by (simp add: m_def ac_simps)
      assume "pos + L < length kallsyms"
      then have L: "L = 64" by (simp add: L_def min_def split: if_splits)
      then have "drop HALF ?W = data" using buf data by (simp add: HALF_def)
      then show "take 64 buf1 = take 64 (drop (pos + L) t)"
        using L t data by (simp add: buf1_def data_def)
    qed
    moreover have "data \<noteq> []" using False data(2) by auto
    ultimately show ?thesis
      using step(1) data by (subst read_loop.simps) (simp add: Let_def buf1_def)
  qed
qed


section \<open>The whole file\<close>

text \<open>
  A file of at least 64 characters that ends with a newline, in which every line with one of the
  names has an address before it, and another line before that.
\<close>

definition kallsyms_ok :: "string \<Rightarrow> bool" where
  "kallsyms_ok kallsyms \<longleftrightarrow> 64 \<le> length kallsyms \<and> last kallsyms = NL \<and>
     (\<forall>p \<in> set patterns. \<forall>j < length kallsyms. occ kallsyms p j \<longrightarrow> addressed kallsyms p j)"

lemma occ_behind:
  assumes "hd p \<notin> set junk" and "p \<noteq> []"
  shows "occ (junk @ kallsyms) p j \<longleftrightarrow> length junk \<le> j \<and> occ kallsyms p (j - length junk)"
proof (cases "length junk \<le> j")
  case True
  then show ?thesis by (simp add: occ_def)
next
  case False
  have "\<not> occ (junk @ kallsyms) p j"
  proof
    assume "occ (junk @ kallsyms) p j"
    then have "take (length p) (drop j (junk @ kallsyms)) ! 0 = p ! 0" unfolding occ_def by (rule arg_cong)
    then have "junk ! j = hd p" using False assms(2) by (simp add: nth_append hd_conv_nth)
    then show False using False assms(1) by (metis not_le nth_mem)
  qed
  then show ?thesis using False by simp
qed

lemma strnstr_behind:
  assumes "hd p \<notin> set junk" and "p \<noteq> []"
  shows "strnstr (junk @ kallsyms) p = map_option ((+) (length junk)) (strnstr kallsyms p)"
proof (cases "strnstr kallsyms p")
  case None
  then have "strnstr (junk @ kallsyms) p = None" using assms by (simp add: strnstr_None occ_behind)
  then show ?thesis using None by simp
next
  case (Some j)
  then have "strnstr (junk @ kallsyms) p = Some (length junk + j)"
    using assms by (simp add: strnstr_occ occ_behind)
  then show ?thesis using Some by simp
qed

lemma symbol_at_behind:
  assumes "hd p \<notin> set junk" and "p \<noteq> []" and "\<And>j. occ kallsyms p j \<Longrightarrow> addressed kallsyms p j"
  shows "symbol_at (junk @ kallsyms) p = symbol_at kallsyms p"
proof (cases "strnstr kallsyms p")
  case None
  then show ?thesis using strnstr_behind [OF assms(1,2), of kallsyms] by (simp add: symbol_at_def)
next
  case (Some j)
  then have "19 \<le> j" using assms(2,3) by (simp add: strnstr_occ addressed_def)
  then have "drop (length junk + j - 19) (junk @ kallsyms) = drop (j - 19) kallsyms" by simp
  then show ?thesis
    using strnstr_behind [OF assms(1,2), of kallsyms] Some by (simp add: symbol_at_def del: drop_append)
qed

lemma found_cong:
  "(\<And>p. p \<in> set patterns \<Longrightarrow> symbol_at t p = symbol_at t' p) \<Longrightarrow> found t s = found t' s"
  by (simp add: found_def patterns_def)

lemma table_found:
  assumes "kallsyms_ok kallsyms" and "length buf = 128" and "CHR '' '' \<notin> set buf" "CHR ''i'' \<notin> set buf"
    and "\<And>i. HALF \<le> granted i"
  shows "\<exists>s'. get_table_entry (Some kallsyms) granted buf adr s = Some (0, s') \<and> found kallsyms s'"
proof -
  define junk where "junk = take 64 buf"
  have junk: "length junk = 64" "set junk \<subseteq> set buf"
    using assms(2) by (simp_all add: junk_def set_take_subset)
  have p: "hd p \<notin> set junk" "p \<noteq> []" if "p \<in> set patterns" for p
    using that assms(3,4) junk(2) by (auto simp: patterns_def entry_def)
  have addr: "addressed kallsyms p j" if "p \<in> set patterns" "occ kallsyms p j" for p j
  proof -
    have "j < length kallsyms" using occ_bound [OF that(2) p(2) [OF that(1)]] p(2) [OF that(1)]
      by (cases p) auto
    then show ?thesis using assms(1) that by (simp add: kallsyms_ok_def)
  qed
  have t: "addressed (junk @ kallsyms) p j" if "p \<in> set patterns" "occ (junk @ kallsyms) p j" for p j
  proof -
    from that have j: "64 \<le> j" "occ kallsyms p (j - 64)" using occ_behind [OF p] junk(1) by auto
    with addr [OF that(1)] have a: "addressed kallsyms p (j - 64)" by blast
    then have "drop (j - 19) (junk @ kallsyms) = drop (j - 64 - 19) kallsyms"
    proof -
      have "19 \<le> j - 64" using a by (simp add: addressed_def)
      then have "83 \<le> j" using j(1) by linarith
      then show ?thesis using junk(1) by simp
    qed
    then show ?thesis using a j(1) by (simp add: addressed_def del: drop_append)
  qed
  have "symbol_at junk p = 0" if "p \<in> set patterns" for p
    using strnstr_behind [OF p [OF that], of "[]"] p(2) [OF that]
    by (cases p) (simp_all add: symbol_at_def)
  then have "found (take (0 + 64) (junk @ kallsyms)) (no_symbols s)"
    using junk(1) by (simp add: found_def no_symbols_def patterns_def base_list_def)
  moreover have "take 64 buf = take 64 (drop 0 (junk @ kallsyms))" using junk(1) by (simp add: junk_def)
  ultimately obtain adr' s' where "read_loop kallsyms granted 0 buf (adr, no_symbols s) = Some (adr', s')"
    "found (junk @ kallsyms) s'"
    using read_loop_finds [where granted = granted and pos = 0 and buf = buf and s = "no_symbols s" and adr = adr,
        OF refl junk(1) _ _ t assms(5)]
      assms(1,2)
    by (auto simp: kallsyms_ok_def)
  moreover have "found (junk @ kallsyms) s' = found kallsyms s'"
    by (intro found_cong symbol_at_behind p addr)
  ultimately show ?thesis by (simp add: get_table_entry_def)
qed

text \<open>A check of a concrete table, character by character.\<close>

fun starts :: "string \<Rightarrow> string \<Rightarrow> bool" where
  "starts [] s = True"
| "starts (c # p) [] = False"
| "starts (c # p) (d # s) = (if c = d then starts p s else False)"

fun check :: "string \<Rightarrow> string \<Rightarrow> nat \<Rightarrow> string \<Rightarrow> bool" where
  "check t p k [] = True"
| "check t p k (c # s) = (if starts p (c # s) then addressed t p k \<and> check t p (Suc k) s else check t p (Suc k) s)"

lemma starts_take: "starts p s \<longleftrightarrow> take (length p) s = p"
  by (induction p s rule: starts.induct) auto

lemma check_occ: "check t p k s \<Longrightarrow> j < length s \<Longrightarrow> occ s p j \<Longrightarrow> addressed t p (k + j)"
proof (induction t p k s arbitrary: j rule: check.induct)
  case (2 t p k c s)
  then show ?case by (cases j) (auto simp: occ_def starts_take split: if_splits)
qed simp

lemma check_kallsyms:
  assumes "64 \<le> length t" and "last t = NL" and "list_all (\<lambda>p. check t p 0 t) patterns"
  shows "kallsyms_ok t"
  using assms check_occ [of t _ 0 t] by (auto simp: kallsyms_ok_def list_all_iff)

text \<open>C20: The lookup reads the kernel's symbol table to its end and gives every variable the
  address that stands in the text before the first occurrence of its name, 0 where the text does
  not have it, and the heads of the protocol lists 16 bytes apart, although it searches the text
  in overlapping windows: nothing depends on where the windows begin. The table must have an
  address before every occurrence, end with a newline and have a line before the first name; the
  buffer on the stack must not hold the first characters of a name.\<close>

theorem get_table_entry_finds:
  assumes "kallsyms_ok kallsyms" and "length buf = 128" and "CHR '' '' \<notin> set buf" "CHR ''i'' \<notin> set buf"
    and "\<And>i. HALF \<le> granted i"
  shows "\<exists>s'. get_table_entry (Some kallsyms) granted buf adr s = Some (0, s') \<and> found kallsyms s'"
  using table_found [OF assms(1-4), of granted adr s] assms(5) by blast

theorem get_table_entry_finds_witness:
  "\<exists>s'. get_table_entry (Some (''0000000000001000 T startup_64'' @ [NL] @ ''ffffffff81500000 T kfree_skb'' @ [NL] @
      ''ffffffff81600000 T netif_rx'' @ [NL])) (\<lambda>_. 64) (replicate 128 CHR 0x00) 0
      \<lparr>kfreeskb = 7, devkfreeskbany = 0, netdevallocskb = 0, netifrx = 0, napigroreceive = 0, netifreceiveskb = 0,
       ixgbecleanrxirq = 0, arprcv = 0, iprcv = 0, ipv6rcv = 0, ptypeall = 0, ptypebase = [],
       driver_top = 0, driver_bottom = 0\<rparr> = Some (0, s') \<and>
    kfreeskb s' = 0xffffffff81500000 \<and> netifrx s' = 0xffffffff81600000 \<and> arprcv s' = 0"
proof -
  define kallsyms where "kallsyms = ''0000000000001000 T startup_64'' @ [NL] @ ''ffffffff81500000 T kfree_skb'' @ [NL] @
      ''ffffffff81600000 T netif_rx'' @ [NL]"
  have "kallsyms_ok kallsyms" unfolding kallsyms_def by (rule check_kallsyms; code_simp)
  moreover have "symbol_at kallsyms (entry ''kfree_skb'') = 0xffffffff81500000"
    "symbol_at kallsyms (entry ''netif_rx'') = 0xffffffff81600000" "symbol_at kallsyms (entry ''arp_rcv'') = 0"
    unfolding kallsyms_def by code_simp+
  ultimately show ?thesis
    unfolding kallsyms_def [symmetric] found_def
    using get_table_entry_finds [of kallsyms "replicate 128 CHR 0x00" "\<lambda>_. 64"]
    by (simp add: HALF_def found_def) blast
qed

end
