(* ===== verification/Genpipe_Module.thy ===== *)
theory Genpipe_Module
  imports Genpipe_Hook Genpipe_Rx Genpipe_Kallsyms
begin

text \<open>
  Loading and unloading the packet driver, \<^verbatim>\<open>genpipe_init\<close> and \<^verbatim>\<open>genpipe_cleanup\<close> of
  \<^verbatim>\<open>src/bypass_ipstack/genpipe.c\<close>, and the remaining file operations. What the kernel
  answers while the module is loaded is a \<open>load_env\<close>; a \<open>module_state\<close> holds the globals of
  the driver and what it changes in the kernel: the blocks of \<^verbatim>\<open>kmalloc\<close> it holds, the
  references to the network device, the registered device file, the network driver's code and
  the packet types in the kernel's lists, by the address of the list head. \<open>None\<close> is a crash.
\<close>

record packet_type =
  func :: u64
  pt_dev :: u64
  pt_type :: u16

record pbuf =
  rx_start_ptr :: u64
  rx_end_ptr :: u64
  rx_write_ptr :: u64
  rx_read_ptr :: u64
  tx_start_ptr :: u64
  tx_end_ptr :: u64
  tx_write_ptr :: u64
  tx_read_ptr :: u64

record module_state =
  device :: u64
  pbuf0 :: pbuf
  syms :: symbols
  backup_func :: u64
  genpipe_pack_dev :: u64
  counts :: counters
  blocks :: "u64 set"
  dev_refs :: int
  misc_registered :: bool
  driver_code :: kcode
  ptypes :: "u64 \<Rightarrow> packet_type list"

text \<open>The driver's own handlers, the module parameters, and the answers of the kernel.\<close>

record load_env =
  addr_arprcv :: u64
  addr_iprcv :: u64
  addr_ipv6rcv :: u64
  addr_nop :: u64
  hook_addrs :: hooks
  hook_dev_add_pack :: u32
  hook_driver :: u32
  paging :: mem_env
  PACKET_BUF :: u64
  NR_CPUS :: nat
  dev_get_by_name :: u64
  kmalloc_rx :: u64
  kmalloc_tx :: u64
  kallsyms :: "string option"
  granted :: "nat \<Rightarrow> nat"
  stack_buf :: string
  stack_adr :: u64
  misc_rc :: int

section \<open>Loading\<close>

definition kfree :: "u64 \<Rightarrow> module_state \<Rightarrow> module_state" where
  "kfree p st = st\<lparr>blocks := blocks st - {p}\<rparr>"

text \<open>The two tests at the end of \<^verbatim>\<open>genpipe_init\<close> and of \<^verbatim>\<open>genpipe_cleanup\<close>.\<close>

definition free_buffers :: "module_state \<Rightarrow> module_state" where
  "free_buffers st =
     (let st = (if rx_start_ptr (pbuf0 st) \<noteq> 0
                then (kfree (rx_start_ptr (pbuf0 st)) st)\<lparr>pbuf0 := (pbuf0 st)\<lparr>rx_start_ptr := 0\<rparr>\<rparr> else st)
      in if tx_start_ptr (pbuf0 st) \<noteq> 0
         then (kfree (tx_start_ptr (pbuf0 st)) st)\<lparr>pbuf0 := (pbuf0 st)\<lparr>tx_start_ptr := 0\<rparr>\<rparr> else st)"

definition error :: "int \<Rightarrow> module_state \<Rightarrow> (int \<times> module_state) option" where
  "error ret st = Some (ret, free_buffers st)"

text \<open>The loops over the packet types: a list head at address 0 is a null dereference.\<close>

definition hook_func :: "load_env \<Rightarrow> symbols \<Rightarrow> u64 \<Rightarrow> u64" where
  "hook_func L S f =
     (if f = arprcv S then addr_arprcv L
      else if f = iprcv S then addr_iprcv L
      else if f = ipv6rcv S then addr_ipv6rcv L else f)"

definition unhook_func :: "load_env \<Rightarrow> symbols \<Rightarrow> u64 \<Rightarrow> u64" where
  "unhook_func L S f =
     (if f = addr_arprcv L then arprcv S
      else if f = addr_iprcv L then iprcv S
      else if f = addr_ipv6rcv L then ipv6rcv S else f)"

definition map_list :: "(u64 \<Rightarrow> u64) \<Rightarrow> u64 \<Rightarrow> module_state \<Rightarrow> module_state option" where
  "map_list h head st =
     (if head = 0 then None
      else Some (st\<lparr>ptypes := (ptypes st)(head := map (\<lambda>pt. pt\<lparr>func := h (func pt)\<rparr>) (ptypes st head))\<rparr>))"

fun map_lists :: "(u64 \<Rightarrow> u64) \<Rightarrow> u64 list \<Rightarrow> module_state \<Rightarrow> module_state option" where
  "map_lists h [] st = Some st"
| "map_lists h (p # ps) st = do { st \<leftarrow> map_list h p st; map_lists h ps st }"

fun hook_all :: "load_env \<Rightarrow> u64 \<Rightarrow> packet_type list \<Rightarrow> u64 \<times> packet_type list" where
  "hook_all L backup [] = (backup, [])"
| "hook_all L backup (pt # pts) =
     (let backup = func pt; (b, pts') = hook_all L backup pts in (b, pt\<lparr>func := addr_nop L\<rparr> # pts'))"

definition hook_ptypes :: "load_env \<Rightarrow> module_state \<Rightarrow> module_state option" where
  "hook_ptypes L st = do {
     st \<leftarrow> map_lists (hook_func L (syms st)) (ptypebase (syms st)) st;
     let head = ptypeall (syms st);
     if head = 0 then None
     else (let (b, pts) = hook_all L (backup_func st) (ptypes st head)
           in Some (st\<lparr>backup_func := b, ptypes := (ptypes st)(head := pts)\<rparr>))
   }"

definition hook_the_driver :: "load_env \<Rightarrow> symbols \<Rightarrow> kcode \<Rightarrow> (int \<times> kcode) option" where
  "hook_the_driver L S c =
     (if 0 < hook_driver L then hook_ixgbe (paging L) (sint (hook_driver L)) S (hook_addrs L) c
      else Some (0, c))"

definition genpipe_init :: "load_env \<Rightarrow> module_state \<Rightarrow> (int \<times> module_state) option" where
  "genpipe_init L st =
     (let st = st\<lparr>device := dev_get_by_name L\<rparr> in
      if device st = 0 then error (-1) st else
      let st = st\<lparr>dev_refs := dev_refs st + 1, pbuf0 := (pbuf0 st)\<lparr>rx_start_ptr := kmalloc_rx L\<rparr>\<rparr> in
      if rx_start_ptr (pbuf0 st) = 0 then error (-1) st else
      let b = pbuf0 st;
          b = b\<lparr>rx_end_ptr := rx_start_ptr b + PACKET_BUF L - 1, rx_write_ptr := rx_start_ptr b,
                rx_read_ptr := rx_start_ptr b, tx_start_ptr := kmalloc_tx L\<rparr>;
          st = st\<lparr>blocks := insert (kmalloc_rx L) (blocks st), pbuf0 := b\<rparr> in
      if tx_start_ptr (pbuf0 st) = 0 then error (-1) st else
      let b = pbuf0 st;
          b = b\<lparr>tx_end_ptr := tx_start_ptr b + PACKET_BUF L - 1, tx_write_ptr := tx_start_ptr b,
                tx_read_ptr := tx_start_ptr b\<rparr>;
          st = st\<lparr>blocks := insert (kmalloc_tx L) (blocks st), pbuf0 := b\<rparr> in
      do {
        (ret, S) \<leftarrow> get_table_entry (kallsyms L) (granted L) (stack_buf L) (stack_adr L) (syms st);
        let st = st\<lparr>syms := S\<rparr>;
        if ret < 0 then error (-1) st
        else do {
          (ret, C) \<leftarrow> hook_the_driver L S (driver_code st);
          let st = st\<lparr>driver_code := C\<rparr>;
          if ret < 0 then error (-1) st
          else let ret = misc_rc L in
          if ret \<noteq> 0 then error ret st
          else do {
            let st = st\<lparr>misc_registered := True\<rparr>;
            st \<leftarrow> (if hook_dev_add_pack L \<noteq> 0 then hook_ptypes L st else Some st);
            Some (0, st\<lparr>genpipe_pack_dev := device st,
              counts := \<lparr>rx_count = replicate (NR_CPUS L) 0, alloc_count = replicate (NR_CPUS L) 0,
                         free_count = replicate (NR_CPUS L) 0\<rparr>\<rparr>)
          }
        }
      })"

section \<open>Unloading\<close>

text \<open>The test for \<^verbatim>\<open>genpipe_nop\<close> ends in a semicolon: every entry gets the saved function.\<close>

definition genpipe_cleanup :: "load_env \<Rightarrow> module_state \<Rightarrow> module_state option" where
  "genpipe_cleanup L st =
     (let st = st\<lparr>misc_registered := False\<rparr> in
      do {
        st \<leftarrow> (if hook_dev_add_pack L \<noteq> 0 then do {
                 st \<leftarrow> map_lists (unhook_func L (syms st)) (ptypebase (syms st)) st;
                 map_list (\<lambda>_. backup_func st) (ptypeall (syms st)) st
               } else Some st);
        Some (free_buffers st)
      })"

section \<open>The other file operations\<close>

definition genpipe_open :: "module_state \<Rightarrow> int \<times> module_state" where
  "genpipe_open st = (0, st)"

definition genpipe_release :: "module_state \<Rightarrow> int \<times> module_state" where
  "genpipe_release st = (0, st)"

definition genpipe_ioctl :: "u32 \<Rightarrow> u64 \<Rightarrow> nat sysret" where
  "genpipe_ioctl cmd arg = Inl ENOTTY"

definition POLLIN :: u32 where
  "POLLIN = 1"

definition POLLRDNORM :: u32 where
  "POLLRDNORM = 0x40"

definition genpipe_poll :: "module_state \<Rightarrow> u32" where
  "genpipe_poll st =
     (let retmask = 0
      in if rx_read_ptr (pbuf0 st) \<noteq> rx_write_ptr (pbuf0 st) then retmask OR (POLLIN OR POLLRDNORM)
         else retmask)"

section \<open>What the steps do\<close>

abbreviation mapped :: "(u64 \<Rightarrow> u64) \<Rightarrow> packet_type list \<Rightarrow> packet_type list" where
  "mapped h pts \<equiv> map (\<lambda>pt. pt\<lparr>func := h (func pt)\<rparr>) pts"

lemma map_lists_eq:
  "distinct ps \<Longrightarrow> map_lists h ps st = (if 0 \<in> set ps then None
     else Some (st\<lparr>ptypes := (\<lambda>a. if a \<in> set ps then mapped h (ptypes st a) else ptypes st a)\<rparr>))"
proof (induction ps arbitrary: st)
  case (Cons p ps)
  define st1 where "st1 = st\<lparr>ptypes := (ptypes st)(p := mapped h (ptypes st p))\<rparr>"
  have "map_list h p st = (if p = 0 then None else Some st1)"
    by (simp add: map_list_def st1_def)
  with Cons.IH [of st1] Cons.prems show ?case
    by (auto simp: st1_def intro!: arg_cong [where f = "\<lambda>F. ptypes_update (\<lambda>_. F) st"])
qed simp

lemma map_lists_syms: "map_lists h ps st = Some st' \<Longrightarrow> syms st' = syms st"
  by (induction ps arbitrary: st) (auto simp: map_list_def split: if_splits bind_splits)

lemma hook_ptypes_syms: "hook_ptypes L st = Some st' \<Longrightarrow> syms st' = syms st"
  by (auto simp: hook_ptypes_def Let_def map_lists_syms split: if_splits bind_splits prod.splits)

lemma hook_all_eq:
  "hook_all L b pts = (if pts = [] then b else func (last pts), map (\<lambda>pt. pt\<lparr>func := addr_nop L\<rparr>) pts)"
  by (induction pts arbitrary: b) auto

lemma hook_ptypes_Some:
  assumes "hook_ptypes L st = Some st'" and "distinct (ptypeall (syms st) # ptypebase (syms st))"
  shows "0 \<notin> set (ptypeall (syms st) # ptypebase (syms st)) \<and> st' = st\<lparr>backup_func := (let pts = ptypes st (ptypeall (syms st)) in
             if pts = [] then backup_func st else func (last pts)),
           ptypes := (\<lambda>a. if a = ptypeall (syms st) then map (\<lambda>pt. pt\<lparr>func := addr_nop L\<rparr>) (ptypes st a)
             else if a \<in> set (ptypebase (syms st))
             then map (\<lambda>pt. pt\<lparr>func := hook_func L (syms st) (func pt)\<rparr>) (ptypes st a) else ptypes st a)\<rparr>"
proof -
  from assms(1) obtain st1 where st1: "map_lists (hook_func L (syms st)) (ptypebase (syms st)) st = Some st1"
    and st': "hook_ptypes L st = (if ptypeall (syms st1) = 0 then None else
      (let (b, pts) = hook_all L (backup_func st1) (ptypes st1 (ptypeall (syms st1)))
       in Some (st1\<lparr>backup_func := b, ptypes := (ptypes st1)(ptypeall (syms st1) := pts)\<rparr>)))"
    by (auto simp: hook_ptypes_def Let_def bind_eq_Some_conv)
  from st1 assms(2) have "0 \<notin> set (ptypebase (syms st))"
    "st1 = st\<lparr>ptypes := (\<lambda>a. if a \<in> set (ptypebase (syms st)) then mapped (hook_func L (syms st)) (ptypes st a) else ptypes st a)\<rparr>"
    by (auto simp: map_lists_eq split: if_splits)
  with assms(2) st' assms(1) show ?thesis
    by (auto simp: hook_all_eq Let_def fun_eq_iff split: if_splits)
qed

text \<open>The code that a successful \<^verbatim>\<open>hook_ixgbe\<close> leaves, whatever symbols were found.\<close>

definition hooked_by :: "load_env \<Rightarrow> kcode \<Rightarrow> kcode \<Rightarrow> bool" where
  "hooked_by L c c' \<longleftrightarrow>
     (\<exists>S. hook_ixgbe (paging L) (sint (hook_driver L)) S (hook_addrs L) c = Some (0, c'))"

lemma hook_ptypes_total:
  "distinct (ptypeall (syms st) # ptypebase (syms st)) \<Longrightarrow> 0 \<notin> set (ptypeall (syms st) # ptypebase (syms st)) \<Longrightarrow>
   \<exists>st'. hook_ptypes L st = Some st'"
  by (simp add: hook_ptypes_def Let_def map_lists_eq hook_all_eq)

lemma hook_the_driver_result:
  assumes "hook_the_driver L S c = Some (r, c')"
  shows "r < 0 \<Longrightarrow> c' = c" and "\<not> r < 0 \<Longrightarrow> c' = c \<or> hooked_by L c c'"
proof -
  have "hook_ixgbe E l S H c = Some (r, c') \<Longrightarrow> r = -1 \<and> c' = c \<or> r = 0" for E l H
    by (auto simp: hook_ixgbe_def split: if_splits bind_splits)
  with assms show "r < 0 \<Longrightarrow> c' = c" "\<not> r < 0 \<Longrightarrow> c' = c \<or> hooked_by L c c'"
    unfolding hook_the_driver_def hooked_by_def by (auto split: if_splits) blast+
qed

lemma free_buffers_simps [simp]:
  "blocks (free_buffers st) = blocks st - ({rx_start_ptr (pbuf0 st), tx_start_ptr (pbuf0 st)} - {0})"
  "rx_start_ptr (pbuf0 (free_buffers st)) = 0" "tx_start_ptr (pbuf0 (free_buffers st)) = 0"
  "dev_refs (free_buffers st) = dev_refs st" "misc_registered (free_buffers st) = misc_registered st"
  "ptypes (free_buffers st) = ptypes st" "driver_code (free_buffers st) = driver_code st"
  "device (free_buffers st) = device st" "counts (free_buffers st) = counts st"
  by (auto simp: free_buffers_def kfree_def Let_def)

text \<open>A module before it is loaded, and blocks the kernel can hand out.\<close>

definition unloaded :: "load_env \<Rightarrow> module_state \<Rightarrow> bool" where
  "unloaded L st \<longleftrightarrow> rx_start_ptr (pbuf0 st) = 0 \<and> tx_start_ptr (pbuf0 st) = 0 \<and>
     \<not> misc_registered st \<and> kmalloc_rx L \<notin> blocks st \<and> kmalloc_tx L \<notin> blocks st \<and>
     (kmalloc_rx L \<noteq> 0 \<longrightarrow> kmalloc_rx L \<noteq> kmalloc_tx L)"

lemmas init_cases = genpipe_init_def error_def Let_def

text \<open>What is left after a failed load.\<close>

lemma genpipe_init_fails:
  assumes "genpipe_init L st = Some (ret, st')" and "ret \<noteq> 0" and "unloaded L st"
  shows "blocks st' = blocks st \<and> rx_start_ptr (pbuf0 st') = 0 \<and> tx_start_ptr (pbuf0 st') = 0 \<and>
    \<not> misc_registered st' \<and> ptypes st' = ptypes st \<and>
    dev_refs st' = dev_refs st + (if dev_get_by_name L = 0 then 0 else 1) \<and>
    (driver_code st' = driver_code st \<or> misc_rc L \<noteq> 0 \<and> hooked_by L (driver_code st) (driver_code st'))"
  using assms
  by (auto simp: init_cases unloaded_def split: if_splits bind_splits)
    (blast dest: hook_the_driver_result)+


text \<open>The state in which a load reaches the packet handlers.\<close>

definition registered :: "load_env \<Rightarrow> symbols \<Rightarrow> kcode \<Rightarrow> module_state \<Rightarrow> module_state" where
  "registered L S C st = st\<lparr>device := dev_get_by_name L, dev_refs := dev_refs st + 1,
     blocks := insert (kmalloc_tx L) (insert (kmalloc_rx L) (blocks st)),
     pbuf0 := pbuf0 st\<lparr>rx_start_ptr := kmalloc_rx L, rx_end_ptr := kmalloc_rx L + PACKET_BUF L - 1,
       rx_write_ptr := kmalloc_rx L, rx_read_ptr := kmalloc_rx L,
       tx_start_ptr := kmalloc_tx L, tx_end_ptr := kmalloc_tx L + PACKET_BUF L - 1,
       tx_write_ptr := kmalloc_tx L, tx_read_ptr := kmalloc_tx L\<rparr>,
     syms := S, driver_code := C, misc_registered := True\<rparr>"

definition finished :: "load_env \<Rightarrow> module_state \<Rightarrow> module_state" where
  "finished L st = st\<lparr>genpipe_pack_dev := device st,
     counts := \<lparr>rx_count = replicate (NR_CPUS L) 0, alloc_count = replicate (NR_CPUS L) 0,
                free_count = replicate (NR_CPUS L) 0\<rparr>\<rparr>"

lemma genpipe_init_reaches:
  assumes "genpipe_init L st = Some (0, st1)" and "hook_dev_add_pack L \<noteq> 0"
  obtains S C s1 where "hook_ptypes L (registered L S C st) = Some s1" "st1 = finished L s1"
    "C = driver_code st \<or> hooked_by L (driver_code st) C" "kmalloc_rx L \<noteq> 0" "kmalloc_tx L \<noteq> 0"
  using assms unfolding registered_def finished_def
  by (auto simp: genpipe_init_def error_def Let_def split: if_splits bind_splits)
    (blast dest: hook_the_driver_result(2))

text \<open>A module after a successful load with the packet handlers hooked.\<close>


text \<open>A module after a successful load with the packet handlers hooked.\<close>

lemma genpipe_init_loaded:
  assumes "genpipe_init L st = Some (0, st1)" and "hook_dev_add_pack L \<noteq> 0"
    and "distinct (ptypeall (syms st1) # ptypebase (syms st1))"
  shows "rx_start_ptr (pbuf0 st1) = kmalloc_rx L" "tx_start_ptr (pbuf0 st1) = kmalloc_tx L"
    "rx_read_ptr (pbuf0 st1) = rx_write_ptr (pbuf0 st1)"
    "blocks st1 = insert (kmalloc_tx L) (insert (kmalloc_rx L) (blocks st))"
    "kmalloc_rx L \<noteq> 0" "kmalloc_tx L \<noteq> 0" "dev_refs st1 = dev_refs st + 1"
    "0 \<notin> set (ptypeall (syms st1) # ptypebase (syms st1))"
    "ptypes st (ptypeall (syms st1)) \<noteq> [] \<Longrightarrow>
       backup_func st1 = func (last (ptypes st (ptypeall (syms st1))))"
    "ptypes st1 = (\<lambda>a. if a = ptypeall (syms st1) then mapped (\<lambda>_. addr_nop L) (ptypes st a)
       else if a \<in> set (ptypebase (syms st1)) then mapped (hook_func L (syms st1)) (ptypes st a) else ptypes st a)"
    "driver_code st1 = driver_code st \<or> hooked_by L (driver_code st) (driver_code st1)"
proof -
  from genpipe_init_reaches [OF assms(1,2)] obtain S C s1 where
    h: "hook_ptypes L (registered L S C st) = Some s1" and st1: "st1 = finished L s1"
    and C: "C = driver_code st \<or> hooked_by L (driver_code st) C"
    and nz: "kmalloc_rx L \<noteq> 0" "kmalloc_tx L \<noteq> 0" .
  have S: "syms (registered L S C st) = S" by (simp add: registered_def)
  have "syms s1 = S"
    using hook_ptypes_syms [OF h] S by simp
  then have "distinct (ptypeall S # ptypebase S)" using assms(3) by (simp add: st1 finished_def)
  note r = hook_ptypes_Some [OF h, unfolded S, OF this]
  show "kmalloc_rx L \<noteq> 0" "kmalloc_tx L \<noteq> 0" by (rule nz)+
  show "rx_start_ptr (pbuf0 st1) = kmalloc_rx L" "tx_start_ptr (pbuf0 st1) = kmalloc_tx L"
    "rx_read_ptr (pbuf0 st1) = rx_write_ptr (pbuf0 st1)"
    "blocks st1 = insert (kmalloc_tx L) (insert (kmalloc_rx L) (blocks st))"
    "dev_refs st1 = dev_refs st + 1"
    "0 \<notin> set (ptypeall (syms st1) # ptypebase (syms st1))"
    "ptypes st (ptypeall (syms st1)) \<noteq> [] \<Longrightarrow>
       backup_func st1 = func (last (ptypes st (ptypeall (syms st1))))"
    "ptypes st1 = (\<lambda>a. if a = ptypeall (syms st1) then mapped (\<lambda>_. addr_nop L) (ptypes st a)
       else if a \<in> set (ptypebase (syms st1)) then mapped (hook_func L (syms st1)) (ptypes st a) else ptypes st a)"
    "driver_code st1 = driver_code st \<or> hooked_by L (driver_code st) (driver_code st1)"
    using r C unfolding st1 finished_def registered_def by (auto simp: Let_def)
qed

lemma unhook_hook_func:
  assumes "distinct [addr_arprcv L, addr_iprcv L, addr_ipv6rcv L]"
    and "f \<notin> {addr_arprcv L, addr_iprcv L, addr_ipv6rcv L}"
  shows "unhook_func L S (hook_func L S f) = f"
  using assms by (auto simp: hook_func_def unhook_func_def)


section \<open>A module to load\<close>

definition sample_kallsyms :: string where
  "sample_kallsyms = ''0000000000001000 T startup_64'' @ [NL] @ ''0000000000009000 D ptype_all'' @ [NL] @ ''0000000000009100 D ptype_base'' @ [NL]"

definition sample_load :: load_env where
  "sample_load = \<lparr>addr_arprcv = 0x9700, addr_iprcv = 0x9800, addr_ipv6rcv = 0x9900, addr_nop = 0x9a00,
     hook_addrs = sample_hooks, hook_dev_add_pack = 1, hook_driver = 0, paging = sample_env,
     PACKET_BUF = 0x100000, NR_CPUS = 2, dev_get_by_name = 0x50, kmalloc_rx = 0x100000, kmalloc_tx = 0x300000,
     kallsyms = Some sample_kallsyms, granted = (\<lambda>_. 64), stack_buf = replicate 128 CHR 0x00, stack_adr = 0,
     misc_rc = 0\<rparr>"

definition sample_unloaded :: module_state where
  "sample_unloaded = \<lparr>device = 0, pbuf0 = \<lparr>rx_start_ptr = 0, rx_end_ptr = 0, rx_write_ptr = 0,
     rx_read_ptr = 0, tx_start_ptr = 0, tx_end_ptr = 0, tx_write_ptr = 0, tx_read_ptr = 0\<rparr>,
     syms = sample_symbols, backup_func = 0, genpipe_pack_dev = 0,
     counts = \<lparr>rx_count = [], alloc_count = [], free_count = []\<rparr>, blocks = {}, dev_refs = 3,
     misc_registered = False, driver_code = sample_kcode, ptypes = (\<lambda>_. [])(0x9000 := [\<lparr>func = 0x111, pt_dev = 0, pt_type = 3\<rparr>, \<lparr>func = 0x222, pt_dev = 0, pt_type = 3\<rparr>],
       0x9180 := [\<lparr>func = 0x333, pt_dev = 0, pt_type = 0x800\<rparr>])\<rparr>"

lemma sample_table:
  "\<exists>S. get_table_entry (Some sample_kallsyms) (\<lambda>_. 64) (replicate 128 CHR 0x00) 0 s = Some (0, S) \<and>
     ptypeall S = 0x9000 \<and> ptypebase S = map (\<lambda>i. 0x9100 + word_of_nat i * 0x10) [0..<16]"
proof -
  have "kallsyms_ok sample_kallsyms" unfolding sample_kallsyms_def by (rule check_kallsyms; code_simp)
  moreover have "symbol_at sample_kallsyms (entry ''ptype_all'') = 0x9000"
    "symbol_at sample_kallsyms (entry ''ptype_base'') = 0x9100"
    unfolding sample_kallsyms_def by code_simp+
  ultimately show ?thesis
    using table_found [of sample_kallsyms "replicate 128 CHR 0x00" "\<lambda>_. 64" 0 s]
    by (auto simp: HALF_def found_def base_list_def PTYPE_HASH_SIZE_def)
qed

lemma sample_loaded:
  assumes "hook_driver L = 0" and "L = sample_load\<lparr>misc_rc := r\<rparr>"
  obtains S where "ptypeall S = 0x9000" "ptypebase S = map (\<lambda>i. 0x9100 + word_of_nat i * 0x10) [0..<16]"
    "get_table_entry (kallsyms L) (granted L) (stack_buf L) (stack_adr L) (syms sample_unloaded) = Some (0, S)"
  using sample_table [of "syms sample_unloaded"] that by (auto simp: assms sample_load_def)


text \<open>The sample module can be loaded.\<close>

lemma sample_init:
  obtains s1 where "genpipe_init sample_load sample_unloaded = Some (0, finished sample_load s1)"
    "ptypeall (syms (finished sample_load s1)) = 0x9000"
    "ptypebase (syms (finished sample_load s1)) = [0x9100, 0x9110, 0x9120, 0x9130, 0x9140, 0x9150, 0x9160, 0x9170,
      0x9180, 0x9190, 0x91a0, 0x91b0, 0x91c0, 0x91d0, 0x91e0, 0x91f0]"
proof -
  let ?L = sample_load
  obtain S where S: "ptypeall S = 0x9000" "ptypebase S = map (\<lambda>i. 0x9100 + word_of_nat i * 0x10) [0..<16]"
    and t: "get_table_entry (kallsyms ?L) (granted ?L) (stack_buf ?L) (stack_adr ?L) (syms sample_unloaded) = Some (0, S)"
    by (rule sample_loaded [of sample_load 0]) (simp_all add: sample_load_def)
  have bases: "ptypebase S = [0x9100, 0x9110, 0x9120, 0x9130, 0x9140, 0x9150, 0x9160, 0x9170, 0x9180, 0x9190,
      0x91a0, 0x91b0, 0x91c0, 0x91d0, 0x91e0, 0x91f0]"
    by (simp add: S upt_rec)
  have d: "distinct (ptypeall S # ptypebase S)" by (simp add: S(1) bases)
  let ?s0 = "registered ?L S (driver_code sample_unloaded) sample_unloaded"
  have "\<exists>s1. hook_ptypes ?L ?s0 = Some s1"
    using d by (intro hook_ptypes_total) (simp_all add: registered_def S(1) bases)
  then obtain s1 where s1: "hook_ptypes ?L ?s0 = Some s1" by blast
  then have init: "genpipe_init ?L sample_unloaded = Some (0, finished ?L s1)"
    using t unfolding registered_def finished_def
    by (simp add: genpipe_init_def hook_the_driver_def Let_def sample_load_def)
  have sy: "syms (finished ?L s1) = S"
    using hook_ptypes_syms [OF s1] by (simp add: finished_def registered_def)
  from init show thesis by (rule that) (simp_all add: sy S(1) bases)
qed


end
