(* ===== verification/Genpipe_Tx.thy ===== *)
theory Genpipe_Tx
  imports Prelude
begin

text \<open>
  The transmit side of the packet driver, \<^verbatim>\<open>genpipe_write\<close> of
  \<^verbatim>\<open>src/bypass_ipstack/genpipe.c\<close>: text lines of hexadecimal digits go in, frames come out.
  The transmit buffer is a list of bytes with the offsets of its pointers from
  \<^verbatim>\<open>tx_start_ptr\<close>. Every access is checked against the buffer it goes to: \<open>None\<close> is an access
  out of bounds, a null dereference or a kernel panic. \<open>tx_env\<close> holds the two macros and what
  the kernel's socket buffers do: whether the \<open>k\<close>-th allocation succeeds and the room a
  buffer requested with \<open>n\<close> bytes has. The system call layer keeps \<open>count\<close> below 2^31, so
  offsets and counts are natural numbers.
\<close>

record tx_env =
  PACKET_BUF_MAX :: nat
  MTU :: nat
  skb_alloc_ok :: "nat \<Rightarrow> bool"
  skb_room :: "nat \<Rightarrow> nat"

record tx_state =
  tx_mem :: "u8 list"
  tx_write :: nat
  tx_read :: nat
  tmp_pkt :: "u8 list"
  skb_allocs :: nat
  tx_sent :: "u8 list list"

definition tx_end :: "tx_env \<Rightarrow> nat" where
  "tx_end E = PACKET_BUF_MAX E - 1"

section \<open>Checked buffers\<close>

definition get :: "'a list \<Rightarrow> nat \<Rightarrow> 'a option" where
  "get xs i = (if i < length xs then Some (xs ! i) else None)"

definition put :: "'a list \<Rightarrow> nat \<Rightarrow> 'a \<Rightarrow> 'a list option" where
  "put xs i v = (if i < length xs then Some (xs[i := v]) else None)"

definition slice :: "'a list \<Rightarrow> nat \<Rightarrow> nat \<Rightarrow> 'a list option" where
  "slice xs i n = (if i + n \<le> length xs then Some (take n (drop i xs)) else None)"

definition blit :: "'a list \<Rightarrow> nat \<Rightarrow> 'a list \<Rightarrow> 'a list option" where
  "blit xs i ys =
     (if i + length ys \<le> length xs then Some (take i xs @ ys @ drop (i + length ys) xs) else None)"

section \<open>Parsing a line\<close>

record parse =
  p_mem :: "u8 list"
  p_read :: nat
  p_tmp :: "u8 list"
  frame_len :: nat
  pos :: nat

definition nibble :: "u8 \<Rightarrow> parse \<Rightarrow> parse option" where
  "nibble v s =
     (if pos s = 0 then do {
        tmp \<leftarrow> put (p_tmp s) (frame_len s + 14) (push_bit 4 v);
        Some (s\<lparr>p_tmp := tmp, pos := 1\<rparr>)
      } else do {
        hi \<leftarrow> get (p_tmp s) (frame_len s + 14);
        tmp \<leftarrow> put (p_tmp s) (frame_len s + 14) (hi OR v);
        Some (s\<lparr>p_tmp := tmp, frame_len := frame_len s + 1, pos := 0\<rparr>)
      })"

definition parse_char :: "parse \<Rightarrow> parse option" where
  "parse_char s = do {
     c \<leftarrow> get (p_mem s) (p_read s);
     if c = 0x20 then Some s
     else do {
       mem \<leftarrow> (if 0x61 \<le> c \<and> c \<le> 0x7a then put (p_mem s) (p_read s) (c - 0x20) else Some (p_mem s));
       let s = s\<lparr>p_mem := mem\<rparr>;
       c \<leftarrow> get (p_mem s) (p_read s);
       if 0x30 \<le> c \<and> c \<le> 0x39 then nibble (c - 0x30) s
       else if 0x41 \<le> c \<and> c \<le> 0x5a then nibble (c - 0x41 + 10) s
       else Some s
     }
   }"

lemma parse_char_read: "parse_char s = Some s' \<Longrightarrow> p_read s' = p_read s"
  by (auto simp: parse_char_def nibble_def Let_def split: bind_splits if_splits)

function parse_loop :: "nat \<Rightarrow> nat \<Rightarrow> parse \<Rightarrow> parse option" where
  "parse_loop mtu cr s =
     (if p_read s < cr \<and> frame_len s < mtu then do {
        s1 \<leftarrow> parse_char s;
        parse_loop mtu cr (s1\<lparr>p_read := p_read s1 + 1\<rparr>)
      } else Some s)"
  by pat_completeness auto
termination
  by (relation "measure (\<lambda>(_, cr, s). cr - p_read s)") (auto dest!: parse_char_read)

declare parse_loop.simps [simp del]

section \<open>Sending a frame\<close>

text \<open>
  The socket buffer is reserved two bytes before its pointer is tested, so a failed allocation
  is a null dereference; \<^verbatim>\<open>skb_put\<close> panics when the data does not fit behind the reserved
  bytes. \<^verbatim>\<open>eth_type_trans\<close> pulls the 14 bytes of the link-layer header.
\<close>

definition send_frame :: "tx_env \<Rightarrow> nat \<Rightarrow> tx_state \<Rightarrow> tx_state option" where
  "send_frame E len st =
     (if \<not> skb_alloc_ok E (skb_allocs st) then None
      else if skb_room E (len + 14) < 2 + (len + 14) then None
      else do {
        data \<leftarrow> slice (tmp_pkt st) 0 (len + 14);
        Some (st\<lparr>skb_allocs := skb_allocs st + 1, tx_sent := tx_sent st @ [drop 14 data]\<rparr>)
      })"

section \<open>The write handler\<close>

function find_nl :: "u8 list \<Rightarrow> nat \<Rightarrow> nat \<Rightarrow> nat option" where
  "find_nl mem cr w =
     (if cr < w then do {
        c \<leftarrow> get mem cr;
        if c \<noteq> 10 then find_nl mem (cr + 1) w else Some cr
      } else Some cr)"
  by pat_completeness auto
termination
  by (relation "measure (\<lambda>(_, cr, w). w - cr)") auto

declare find_nl.simps [simp del]

definition send_line :: "tx_env \<Rightarrow> nat \<Rightarrow> tx_state \<Rightarrow> tx_state option" where
  "send_line E cr st = do {
     s \<leftarrow> parse_loop (MTU E) cr
           \<lparr>p_mem = tx_mem st, p_read = tx_read st, p_tmp = tmp_pkt st, frame_len = 0, pos = 0\<rparr>;
     st \<leftarrow> send_frame E (frame_len s) (st\<lparr>tx_mem := p_mem s, tx_read := p_read s, tmp_pkt := p_tmp s\<rparr>);
     let st = st\<lparr>tx_read := cr + 1\<rparr>;
     let i = tx_read st;
     if tx_write st < i then None
     else do {
       rest \<leftarrow> slice (tx_mem st) i (tx_write st - i);
       mem \<leftarrow> blit (tx_mem st) 0 rest;
       Some (st\<lparr>tx_mem := mem, tx_read := tx_read st - i, tx_write := tx_write st - i\<rparr>)
     }
   }"

lemma send_line_write: "send_line E cr st = Some st' \<Longrightarrow> tx_write st' < tx_write st"
  by (auto simp: send_line_def send_frame_def Let_def split: bind_splits if_splits)

function write_loop :: "tx_env \<Rightarrow> tx_state \<Rightarrow> tx_state option" where
  "write_loop E st = do {
     cr \<leftarrow> find_nl (tx_mem st) (tx_read st) (tx_write st);
     if cr = tx_write st then Some st
     else do {
       st1 \<leftarrow> send_line E cr st;
       write_loop E st1
     }
   }"
  by pat_completeness auto
termination
  by (relation "measure (\<lambda>(_, st). tx_write st)") (auto dest: send_line_write)

declare write_loop.simps [simp del]

text \<open>A count larger than the room left first drops what the buffer holds.\<close>

definition make_room :: "tx_env \<Rightarrow> nat \<Rightarrow> tx_state \<Rightarrow> tx_state option" where
  "make_room E count st =
     (if tx_end E < tx_write st + count then do {
        old \<leftarrow> slice (tx_mem st) (tx_read st) (tx_write st);
        mem \<leftarrow> blit (tx_mem st) 0 old;
        Some (st\<lparr>tx_mem := mem, tx_write := tx_write st - tx_write st, tx_read := 0\<rparr>)
      } else Some st)"

definition genpipe_write ::
  "tx_env \<Rightarrow> nat \<Rightarrow> u8 list \<Rightarrow> nat \<Rightarrow> tx_state \<Rightarrow> (nat sysret \<times> tx_state) option" where
  "genpipe_write E left udata count st = do {
     st \<leftarrow> make_room E count st;
     let count = (if tx_write st \<le> tx_end E \<and> tx_end E - tx_write st < count
                  then tx_end E - tx_write st else count);
     mem \<leftarrow> blit (tx_mem st) (tx_write st)
             (take (count - left) udata @ replicate (min left count) 0);
     let st = st\<lparr>tx_mem := mem\<rparr>;
     if left \<noteq> 0 then Some (Inl EFAULT, st)
     else do {
       st \<leftarrow> write_loop E (st\<lparr>tx_write := tx_write st + count\<rparr>);
       Some (Inr count, st)
     }
   }"

text \<open>The state \<^verbatim>\<open>genpipe_init\<close> leaves, with a buffer \<open>mem\<close> of \<^verbatim>\<open>PACKET_BUF_MAX\<close> bytes.\<close>

definition tx_init :: "tx_env \<Rightarrow> u8 list \<Rightarrow> tx_state" where
  "tx_init E mem = \<lparr>tx_mem = mem, tx_write = 0, tx_read = 0, tmp_pkt = replicate (MTU E + 14) 0,
     skb_allocs = 0, tx_sent = []\<rparr>"

end
