(* ===== verification/Genpipe_Lines.thy ===== *)
theory Genpipe_Lines
  imports Genpipe_Tx
begin

text \<open>
  What \<^verbatim>\<open>genpipe_write\<close> does, stated on lines of text: \<open>line_frame\<close> is the frame a line
  stands for, \<open>split_nl\<close> cuts a stream into lines. The buffer with its pointers refines this:
  a write hands the complete lines to the network and keeps the last, incomplete one.
\<close>

section \<open>Lines and frames\<close>

definition upcase :: "u8 \<Rightarrow> u8" where
  "upcase c = (if 0x61 \<le> c \<and> c \<le> 0x7a then c - 0x20 else c)"

definition digit_of :: "u8 \<Rightarrow> u8 option" where
  "digit_of c = (let c = upcase c in
     if 0x30 \<le> c \<and> c \<le> 0x39 then Some (c - 0x30)
     else if 0x41 \<le> c \<and> c \<le> 0x5a then Some (c - 0x41 + 10) else None)"

fun pack :: "u8 list \<Rightarrow> u8 list" where
  "pack (h # l # ds) = (push_bit 4 h OR l) # pack ds"
| "pack _ = []"

definition line_frame :: "nat \<Rightarrow> u8 list \<Rightarrow> u8 list" where
  "line_frame mtu line = take mtu (pack (List.map_filter digit_of line))"

fun split_nl :: "u8 list \<Rightarrow> u8 list \<Rightarrow> u8 list list \<times> u8 list" where
  "split_nl acc [] = ([], acc)"
| "split_nl acc (c # cs) =
     (if c = 10 then (let (ls, r) = split_nl [] cs in (acc # ls, r)) else split_nl (acc @ [c]) cs)"

section \<open>The parsing loop\<close>

lemma parse_char_eq:
  assumes "p_read s < length (p_mem s)" and "frame_len s + 14 < length (p_tmp s)"
  shows "parse_char s = Some
    (let c = p_mem s ! p_read s; s1 = s\<lparr>p_mem := (p_mem s)[p_read s := upcase c]\<rparr>; i = frame_len s + 14
     in case digit_of c of
          None \<Rightarrow> s1
        | Some v \<Rightarrow> if pos s = 0 then s1\<lparr>p_tmp := (p_tmp s)[i := push_bit 4 v], pos := 1\<rparr>
            else s1\<lparr>p_tmp := (p_tmp s)[i := p_tmp s ! i OR v], frame_len := frame_len s + 1, pos := 0\<rparr>)"
proof (cases "p_mem s ! p_read s = 0x20")
  case True
  then have "s = s\<lparr>p_mem := (p_mem s)[p_read s := 0x20]\<rparr>" by (cases s) (metis list_update_id parse.simps(1,7))
  with True show ?thesis using assms
    by (simp add: parse_char_def get_def upcase_def digit_of_def Let_def)
next
  case False
  have id: "s\<lparr>p_mem := p_mem s\<rparr> = s" by simp
  show ?thesis using False assms
    by (auto simp: parse_char_def get_def put_def upcase_def digit_of_def nibble_def Let_def)
qed

text \<open>\<open>pre\<close> is the digit already stored when a byte is half complete.\<close>

definition half :: "parse \<Rightarrow> u8 list \<Rightarrow> bool" where
  "half s pre \<longleftrightarrow> (pos s = 0 \<and> pre = []) \<or>
     (pos s = 1 \<and> (\<exists>v. pre = [v] \<and> p_tmp s ! (frame_len s + 14) = push_bit 4 v))"

definition p_todo :: "nat \<Rightarrow> parse \<Rightarrow> u8 list" where
  "p_todo cr s = take (cr - p_read s) (drop (p_read s) (p_mem s))"

definition p_frame :: "parse \<Rightarrow> u8 list" where
  "p_frame s = take (frame_len s) (drop 14 (p_tmp s))"

lemma p_todo_Cons:
  "p_read s < cr \<Longrightarrow> cr \<le> length (p_mem s) \<Longrightarrow>
   p_todo cr s = p_mem s ! p_read s # take (cr - Suc (p_read s)) (drop (Suc (p_read s)) (p_mem s))"
  by (simp add: p_todo_def Cons_nth_drop_Suc [symmetric] Suc_diff_Suc [symmetric])

lemma take_Suc_nth_update:
  "i < length xs \<Longrightarrow> take (Suc i) (xs[i := v]) = take i xs @ [v]"
  by (simp add: take_Suc_conv_app_nth)

lemma p_frame_Suc:
  "k + 14 < length t \<Longrightarrow> take (Suc k) (drop 14 (t[k + 14 := v])) = take k (drop 14 t) @ [v]"
  by (simp add: drop_update_swap take_Suc_nth_update)

text \<open>One character: the frame so far and the digits still to come keep their meaning.\<close>

lemma parse_char_meaning:
  assumes r: "p_read s < cr" "cr \<le> length (p_mem s)" and k: "frame_len s + 14 < length (p_tmp s)"
    and h: "half s pre" and step: "parse_char s = Some s1"
  shows "\<exists>pre'. half (s1\<lparr>p_read := p_read s1 + 1\<rparr>) pre' \<and>
    p_frame s1 @ pack (pre' @ List.map_filter digit_of (p_todo cr (s1\<lparr>p_read := p_read s1 + 1\<rparr>))) =
    p_frame s @ pack (pre @ List.map_filter digit_of (p_todo cr s)) \<and>
    length (p_mem s1) = length (p_mem s) \<and> drop cr (p_mem s1) = drop cr (p_mem s) \<and>
    length (p_tmp s1) = length (p_tmp s) \<and> take 14 (p_tmp s1) = take 14 (p_tmp s) \<and>
    frame_len s \<le> frame_len s1 \<and> frame_len s1 \<le> Suc (frame_len s) \<and>
    (frame_len s1 = Suc (frame_len s) \<longrightarrow> pos s1 = 0)"
proof -
  let ?c = "p_mem s ! p_read s"
  let ?rest = "take (cr - Suc (p_read s)) (drop (Suc (p_read s)) (p_mem s))"
  have todo: "p_todo cr s = ?c # ?rest" by (rule p_todo_Cons [OF r])
  have "p_read s < length (p_mem s)" using r by simp
  note s1 = step [unfolded parse_char_eq [OF this k], simplified]
  consider (none) "digit_of ?c = None"
    | (hi) v where "digit_of ?c = Some v" "pos s = 0"
    | (lo) v w where "digit_of ?c = Some v" "pos s = 1" "pre = [w]" "p_tmp s ! (frame_len s + 14) = push_bit 4 w"
    using h by (auto simp: half_def)
  then show ?thesis
  proof cases
    case none
    then show ?thesis using s1 h todo r
      by (intro exI [of _ pre])
        (auto simp: p_todo_def half_def p_frame_def Let_def List.map_filter_simps)
  next
    case hi
    then show ?thesis using s1 h todo r k
      by (intro exI [of _ "[v]"])
        (auto simp: p_todo_def half_def p_frame_def Let_def List.map_filter_simps drop_update_swap)
  next
    case lo
    then show ?thesis using s1 h todo r k
      by (intro exI [of _ "[]"])
        (auto simp: p_todo_def half_def p_frame_def Let_def List.map_filter_simps p_frame_Suc)
  qed
qed

lemma parse_loop_meaning:
  assumes "cr \<le> length (p_mem s)" and "p_read s \<le> cr" and "mtu + 14 \<le> length (p_tmp s)"
    and "frame_len s \<le> mtu" and "frame_len s = mtu \<longrightarrow> pos s = 0" and "half s pre"
  shows "\<exists>s'. parse_loop mtu cr s = Some s' \<and>
    p_frame s' = take mtu (p_frame s @ pack (pre @ List.map_filter digit_of (p_todo cr s))) \<and>
    length (p_mem s') = length (p_mem s) \<and> drop cr (p_mem s') = drop cr (p_mem s) \<and>
    length (p_tmp s') = length (p_tmp s) \<and> take 14 (p_tmp s') = take 14 (p_tmp s) \<and>
    frame_len s' \<le> mtu"
  using assms
proof (induction mtu cr s arbitrary: pre rule: parse_loop.induct)
  case (1 mtu cr s)
  show ?case
  proof (cases "p_read s < cr \<and> frame_len s < mtu")
    case True
    then have k: "frame_len s + 14 < length (p_tmp s)" and m: "p_read s < length (p_mem s)"
      using "1.prems" by simp_all
    then obtain s1 where s1: "parse_char s = Some s1"
      using parse_char_eq by blast
    have read: "p_read s1 = p_read s" by (rule parse_char_read [OF s1])
    from parse_char_meaning [OF _ "1.prems"(1) k "1.prems"(6) s1] True obtain pre' where
      pre': "half (s1\<lparr>p_read := p_read s1 + 1\<rparr>) pre'"
      and eq: "p_frame s1 @ pack (pre' @ List.map_filter digit_of (p_todo cr (s1\<lparr>p_read := p_read s1 + 1\<rparr>))) =
        p_frame s @ pack (pre @ List.map_filter digit_of (p_todo cr s))"
      and len: "length (p_mem s1) = length (p_mem s)" "drop cr (p_mem s1) = drop cr (p_mem s)"
        "length (p_tmp s1) = length (p_tmp s)" "take 14 (p_tmp s1) = take 14 (p_tmp s)"
      and k1: "frame_len s \<le> frame_len s1" "frame_len s1 \<le> Suc (frame_len s)"
        "frame_len s1 = Suc (frame_len s) \<longrightarrow> pos s1 = 0" by blast
    have fr: "p_frame (s1\<lparr>p_read := p_read s1 + 1\<rparr>) = p_frame s1" by (simp add: p_frame_def)
    from "1.IH" [OF True s1, of pre'] pre' len k1 True "1.prems" read show ?thesis
      unfolding parse_loop.simps [of mtu cr s] fr eq using True s1
      by (auto simp del: take_append)
  next
    case False
    then have "p_read s = cr \<or> frame_len s = mtu" using "1.prems" by auto
    moreover have "take mtu (p_frame s @ pack (pre @ List.map_filter digit_of (p_todo cr s))) = p_frame s"
    proof (cases "frame_len s = mtu")
      case True
      then show ?thesis using "1.prems" by (simp add: p_frame_def)
    next
      case False
      with \<open>p_read s = cr \<or> frame_len s = mtu\<close> have "p_todo cr s = []" by (simp add: p_todo_def)
      moreover have "pack pre = []" using "1.prems"(6) by (auto simp: half_def)
      ultimately show ?thesis using "1.prems"(4) by (simp add: p_frame_def List.map_filter_simps)
    qed
    ultimately show ?thesis
      unfolding parse_loop.simps [of mtu cr s] using False "1.prems" by auto
  qed
qed

section \<open>Finding and sending a line\<close>

lemma find_nl_eq:
  "cr \<le> w \<Longrightarrow> w \<le> length mem \<Longrightarrow>
   find_nl mem cr w = Some (cr + length (takeWhile (\<lambda>c. c \<noteq> 10) (drop cr (take w mem))))"
proof (induction mem cr w rule: find_nl.induct)
  case (1 mem cr w)
  show ?case
  proof (cases "cr < w")
    case True
    then have "drop cr (take w mem) = mem ! cr # drop (Suc cr) (take w mem)"
      using "1.prems" by (simp add: Cons_nth_drop_Suc [symmetric])
    with True 1 show ?thesis
      by (subst find_nl.simps) (auto simp: get_def)
  next
    case False
    with "1.prems" show ?thesis by (subst find_nl.simps) simp
  qed
qed

definition tx_inv :: "tx_env \<Rightarrow> tx_state \<Rightarrow> bool" where
  "tx_inv E st \<longleftrightarrow> length (tx_mem st) = PACKET_BUF_MAX E \<and> tx_read st = 0 \<and> tx_write st \<le> tx_end E \<and>
     length (tmp_pkt st) = MTU E + 14 \<and> take 14 (tmp_pkt st) = replicate 14 0"

definition pending :: "tx_state \<Rightarrow> u8 list" where
  "pending st = take (tx_write st) (tx_mem st)"

text \<open>The kernel always has a socket buffer, with the two reserved bytes to spare.\<close>

definition skb_plenty :: "tx_env \<Rightarrow> bool" where
  "skb_plenty E \<longleftrightarrow> (\<forall>k. skb_alloc_ok E k) \<and> (\<forall>n \<le> MTU E. n + 14 + 2 \<le> skb_room E (n + 14))"

lemma take_drop_cong: "length xs = length ys \<Longrightarrow> drop i xs = drop i ys \<Longrightarrow> i \<le> j \<Longrightarrow> drop j xs = drop j ys"
  by (metis drop_drop le_add_diff_inverse2)

lemma parse_line:
  assumes inv: "tx_inv E st" and cr: "cr \<le> length (tx_mem st)"
  shows "\<exists>s. parse_loop (MTU E) cr
      \<lparr>p_mem = tx_mem st, p_read = tx_read st, p_tmp = tmp_pkt st, frame_len = 0, pos = 0\<rparr> = Some s \<and>
    p_frame s = line_frame (MTU E) (take cr (tx_mem st)) \<and> length (p_mem s) = length (tx_mem st) \<and>
    drop cr (p_mem s) = drop cr (tx_mem st) \<and> length (p_tmp s) = MTU E + 14 \<and>
    take 14 (p_tmp s) = replicate 14 0 \<and> frame_len s \<le> MTU E"
  using parse_loop_meaning [of cr "\<lparr>p_mem = tx_mem st, p_read = tx_read st, p_tmp = tmp_pkt st,
      frame_len = 0, pos = 0\<rparr>" "MTU E" "[]"] inv cr
  by (auto simp: tx_inv_def half_def p_todo_def line_frame_def p_frame_def)

lemma send_frame_eq:
  assumes "skb_alloc_ok E (skb_allocs st)" and "(len + 14) + 2 \<le> skb_room E (len + 14)"
    and "len + 14 \<le> length (tmp_pkt st)"
  shows "send_frame E len st = Some (st\<lparr>skb_allocs := skb_allocs st + 1,
    tx_sent := tx_sent st @ [take len (drop 14 (tmp_pkt st))]\<rparr>)"
  using assms by (simp add: send_frame_def slice_def drop_take)

lemma send_line_eq:
  assumes inv: "tx_inv E st" and cr: "cr < tx_write st" and max: "tx_write st \<le> length (tx_mem st)"
    and ok: "skb_alloc_ok E (skb_allocs st)" and room: "\<forall>n \<le> MTU E. n + 14 + 2 \<le> skb_room E (n + 14)"
  shows "\<exists>st'. send_line E cr st = Some st' \<and> tx_inv E st' \<and>
    tx_sent st' = tx_sent st @ [line_frame (MTU E) (take cr (tx_mem st))] \<and>
    pending st' = drop (Suc cr) (pending st) \<and> skb_allocs st' = skb_allocs st + 1"
proof -
  from cr max have "cr \<le> length (tx_mem st)" by simp
  from parse_line [OF inv this] obtain s where
    s: "parse_loop (MTU E) cr
      \<lparr>p_mem = tx_mem st, p_read = tx_read st, p_tmp = tmp_pkt st, frame_len = 0, pos = 0\<rparr> = Some s"
    and frame: "p_frame s = line_frame (MTU E) (take cr (tx_mem st))"
    and len: "length (p_mem s) = length (tx_mem st)" "length (p_tmp s) = MTU E + 14"
      "take 14 (p_tmp s) = replicate 14 0" "frame_len s \<le> MTU E"
    and mem: "drop cr (p_mem s) = drop cr (tx_mem st)" by blast
  have "drop (Suc cr) (p_mem s) = drop (Suc cr) (tx_mem st)"
    by (rule take_drop_cong [OF len(1) mem]) simp
  moreover have "send_frame E (frame_len s) (st\<lparr>tx_mem := p_mem s, tx_read := p_read s, tmp_pkt := p_tmp s\<rparr>) =
    Some (st\<lparr>tx_mem := p_mem s, tx_read := p_read s, tmp_pkt := p_tmp s, skb_allocs := skb_allocs st + 1,
      tx_sent := tx_sent st @ [p_frame s]\<rparr>)"
    using ok room len by (subst send_frame_eq) (auto simp: p_frame_def)
  ultimately show ?thesis
    using s frame len cr max inv
    by (auto simp: send_line_def slice_def blit_def tx_inv_def pending_def drop_take Let_def)
qed

section \<open>The loop and the handler\<close>

lemma split_nl_free: "10 \<notin> set xs \<Longrightarrow> split_nl acc xs = ([], acc @ xs)"
  by (induction xs arbitrary: acc) auto

lemma split_nl_line:
  "10 \<notin> set l \<Longrightarrow> split_nl acc (l @ 10 # xs) =
    (let (ls, r) = split_nl [] xs in ((acc @ l) # ls, r))"
  by (induction l arbitrary: acc) auto

lemma split_nl_rest: "10 \<notin> set acc \<Longrightarrow> 10 \<notin> set (snd (split_nl acc xs))"
  by (induction xs arbitrary: acc) (simp_all add: case_prod_beta)

lemma takeWhile_split:
  assumes "length (takeWhile P xs) < length xs"
  shows "xs = takeWhile P xs @ xs ! length (takeWhile P xs) # drop (Suc (length (takeWhile P xs))) xs"
    and "\<not> P (xs ! length (takeWhile P xs))"
proof -
  show "xs = takeWhile P xs @ xs ! length (takeWhile P xs) # drop (Suc (length (takeWhile P xs))) xs"
    using assms by (simp add: Cons_nth_drop_Suc flip: dropWhile_eq_drop)
  show "\<not> P (xs ! length (takeWhile P xs))" by (rule nth_length_takeWhile [OF assms])
qed

lemma write_loop_eq:
  assumes "tx_inv E st" and "0 < PACKET_BUF_MAX E" and "skb_plenty E"
  shows "\<exists>st'. write_loop E st = Some st' \<and> tx_inv E st' \<and>
    tx_sent st' = tx_sent st @ map (line_frame (MTU E)) (fst (split_nl [] (pending st))) \<and>
    pending st' = snd (split_nl [] (pending st))"
  using assms
proof (induction E st rule: write_loop.induct)
  case (1 E st)
  let ?xs = "pending st" and ?l = "takeWhile (\<lambda>c. c \<noteq> 10) (pending st)"
  have max: "tx_write st \<le> length (tx_mem st)" and read: "tx_read st = 0"
    using "1.prems" by (auto simp: tx_inv_def tx_end_def)
  have find: "find_nl (tx_mem st) (tx_read st) (tx_write st) = Some (length ?l)"
    using find_nl_eq [of "tx_read st" "tx_write st" "tx_mem st"] max read by (simp add: pending_def)
  have len: "length ?xs = tx_write st" using max by (simp add: pending_def)
  show ?case
  proof (cases "length ?l = tx_write st")
    case True
    with len have "?l = ?xs" by (metis takeWhile_eq_take take_all order_refl)
    then have "10 \<notin> set ?xs" by (metis (mono_tags, lifting) set_takeWhileD)
    with True find "1.prems" show ?thesis
      by (subst write_loop.simps) (simp add: split_nl_free)
  next
    case False
    then have less: "length ?l < length ?xs"
      using len length_takeWhile_le [of "\<lambda>c. c \<noteq> 10" ?xs] by simp
    note parts = takeWhile_split [OF less]
    have lt: "length ?l < tx_write st" and ok: "skb_alloc_ok E (skb_allocs st)"
      and room: "\<forall>n \<le> MTU E. n + 14 + 2 \<le> skb_room E (n + 14)"
      using less len "1.prems"(3) by (simp_all add: skb_plenty_def)
    from send_line_eq [OF "1.prems"(1) lt max ok room] obtain st1 where
      st1: "send_line E (length ?l) st = Some st1" and inv1: "tx_inv E st1"
      and sent: "tx_sent st1 = tx_sent st @ [line_frame (MTU E) (take (length ?l) (tx_mem st))]"
      and pend: "pending st1 = drop (Suc (length ?l)) ?xs"
      by blast
    have line: "take (length ?l) (tx_mem st) = ?l"
      using less len takeWhile_eq_take [of "\<lambda>c. c \<noteq> 10" ?xs] by (simp add: pending_def min_def)
    have "10 \<notin> set ?l" by (auto dest: set_takeWhileD)
    moreover have "?xs ! length ?l = 10" using parts(2) by simp
    ultimately have "split_nl [] ?xs = (let (ls, r) = split_nl [] (pending st1) in (?l # ls, r))"
      using split_nl_line [of ?l "[]" "pending st1"] parts(1) pend by simp
    with "1.IH" [OF find False st1 inv1 "1.prems"(2,3)] find False st1 sent line show ?thesis
      by (subst write_loop.simps) (auto simp: case_prod_beta)
  qed
qed

text \<open>What a write starts from: the text held back, unless the new text does not fit behind it.\<close>

definition held :: "tx_env \<Rightarrow> nat \<Rightarrow> tx_state \<Rightarrow> u8 list" where
  "held E count st = (if tx_end E < length (pending st) + count then [] else pending st)"

definition taken :: "tx_env \<Rightarrow> nat \<Rightarrow> tx_state \<Rightarrow> nat" where
  "taken E count st = min count (tx_end E - length (held E count st))"

lemma pending_length: "tx_inv E st \<Longrightarrow> length (pending st) = tx_write st"
  by (auto simp: tx_inv_def pending_def tx_end_def)

lemma make_room_eq:
  assumes "tx_inv E st"
  shows "\<exists>st'. make_room E count st = Some st' \<and> tx_inv E st' \<and> pending st' = held E count st \<and>
    tx_sent st' = tx_sent st \<and> tx_write st' = length (held E count st)"
  using assms pending_length [OF assms]
  by (auto simp: make_room_def slice_def blit_def tx_inv_def tx_end_def held_def pending_def)

lemma genpipe_write_eq:
  assumes inv: "tx_inv E st" and "0 < PACKET_BUF_MAX E" and "skb_plenty E" and "count \<le> length udata"
  shows "\<exists>st'. genpipe_write E 0 udata count st = Some (Inr (taken E count st), st') \<and> tx_inv E st' \<and>
    (let (ls, r) = split_nl [] (held E count st @ take (taken E count st) udata)
     in tx_sent st' = tx_sent st @ map (line_frame (MTU E)) ls \<and> pending st' = r)"
proof -
  from make_room_eq [OF inv] obtain st1 where st1: "make_room E count st = Some st1" "tx_inv E st1"
    "pending st1 = held E count st" "tx_sent st1 = tx_sent st" "tx_write st1 = length (held E count st)"
    by blast
  let ?n = "taken E count st" and ?w = "tx_write st1"
  have n: "(if ?w \<le> tx_end E \<and> tx_end E - ?w < count then tx_end E - ?w else count) = ?n"
    using st1(2,5) by (auto simp: taken_def tx_inv_def)
  have fit: "?w + ?n \<le> tx_end E" "?n \<le> count"
    using st1(2,5) by (auto simp: taken_def tx_inv_def)
  let ?mem = "take ?w (tx_mem st1) @ take ?n udata @ drop (?w + ?n) (tx_mem st1)"
  have "length (take ?n udata) = ?n" using fit assms(4) by simp
  then have "blit (tx_mem st1) ?w (take ?n udata) = Some ?mem"
    using fit st1(2) assms(2) unfolding blit_def tx_inv_def tx_end_def by auto
  moreover have "tx_inv E (st1\<lparr>tx_mem := ?mem, tx_write := ?w + ?n\<rparr>)"
    "pending (st1\<lparr>tx_mem := ?mem, tx_write := ?w + ?n\<rparr>) = held E count st @ take ?n udata"
    using fit st1 assms(2,4) by (auto simp: tx_inv_def tx_end_def pending_def min_def)
  ultimately show ?thesis
    using write_loop_eq [OF _ assms(2,3), of "st1\<lparr>tx_mem := ?mem, tx_write := ?w + ?n\<rparr>"] st1 n
    by (auto simp: genpipe_write_def Let_def case_prod_beta)
qed

end
