(* ===== verification/Genpipe_Write.thy ===== *)
theory Genpipe_Write
  imports Genpipe_Lines
begin

text \<open>
  Properties of \<^verbatim>\<open>genpipe_write\<close>: what a write sends, what a stream cut into writes sends, the
  round trip of a frame through its hexadecimal text, and the two ways text or the system are
  lost: a write that overflows the buffer, and a failed allocation.
\<close>

section \<open>A small instance\<close>

definition sample_tx :: tx_env where
  "sample_tx = \<lparr>PACKET_BUF_MAX = 16, MTU = 4, skb_alloc_ok = (\<lambda>_. True), skb_room = (\<lambda>n. n + 64)\<rparr>"

lemma sample_tx_ok: "0 < PACKET_BUF_MAX sample_tx" "skb_plenty sample_tx"
  by (simp_all add: sample_tx_def skb_plenty_def)

lemma tx_init_inv: "length mem = PACKET_BUF_MAX E \<Longrightarrow> tx_inv E (tx_init E mem) \<and> pending (tx_init E mem) = []"
  by (simp add: tx_inv_def tx_init_def pending_def)

definition sample_st :: tx_state where
  "sample_st = tx_init sample_tx (replicate 16 0)"

lemma sample_st_inv: "tx_inv sample_tx sample_st" "pending sample_st = []" "tx_sent sample_st = []"
  using tx_init_inv [of "replicate 16 0" sample_tx]
  by (simp_all add: sample_st_def sample_tx_def tx_init_def)

lemma sample_end: "tx_end sample_tx = 15" "MTU sample_tx = 4"
  by (simp_all add: tx_end_def sample_tx_def)

section \<open>One write\<close>



text \<open>A write that is larger than the room behind the text held back throws that text away:
  what is sent and held back afterwards is what the new bytes alone give.\<close>

theorem genpipe_write_drops_held:
  assumes "tx_inv E st" and "0 < PACKET_BUF_MAX E" and "skb_plenty E" and "count = length udata"
    and "count \<le> tx_end E" and "tx_end E < length (pending st) + count"
  shows "\<exists>st'. genpipe_write E 0 udata count st = Some (Inr count, st') \<and>
    tx_sent st' = tx_sent st @ map (line_frame (MTU E)) (fst (split_nl [] udata)) \<and>
    pending st' = snd (split_nl [] udata)"
proof -
  have "held E count st = []" "taken E count st = count"
    using assms(5,6) by (simp_all add: held_def taken_def)
  with genpipe_write_eq [OF assms(1-3), of count udata] assms(4) show ?thesis
    by (auto simp: case_prod_beta)
qed

definition sample_held :: tx_state where
  "sample_held = sample_st\<lparr>tx_mem := replicate 9 0x31 @ replicate 7 0, tx_write := 9\<rparr>"

lemma sample_held_inv:
  "tx_inv sample_tx sample_held" "pending sample_held = replicate 9 0x31" "tx_sent sample_held = []"
  using sample_st_inv(1,3)
  by (simp_all add: sample_held_def tx_inv_def pending_def sample_tx_def tx_end_def)

theorem genpipe_write_drops_held_witness:
  "\<exists>st'. genpipe_write sample_tx 0 [0x34, 0x31, 0x34, 0x31, 0x34, 0x31, 10] 7 sample_held =
     Some (Inr 7, st') \<and> tx_sent st' = [[0x41, 0x41, 0x41]]"
proof -
  have "line_frame 4 [0x34, 0x31, 0x34, 0x31, 0x34, 0x31] = [0x41, 0x41, 0x41]"
    by (simp add: line_frame_def List.map_filter_simps digit_of_def upcase_def)
  then show ?thesis
    using genpipe_write_drops_held [OF sample_held_inv(1) sample_tx_ok, of 7
        "[0x34, 0x31, 0x34, 0x31, 0x34, 0x31, 10]"]
    by (auto simp: sample_held_inv sample_end)
qed

section \<open>A stream of writes\<close>

fun write_all :: "tx_env \<Rightarrow> u8 list list \<Rightarrow> tx_state \<Rightarrow> tx_state option" where
  "write_all E [] st = Some st"
| "write_all E (c # cs) st = do {
     (r, st1) \<leftarrow> genpipe_write E 0 c (length c) st;
     write_all E cs st1
   }"

text \<open>No write overflows the buffer behind the incomplete line before it.\<close>

fun fits :: "nat \<Rightarrow> u8 list \<Rightarrow> u8 list list \<Rightarrow> bool" where
  "fits cap acc [] = True"
| "fits cap acc (c # cs) = (length acc + length c \<le> cap \<and> fits cap (snd (split_nl acc c)) cs)"

lemma split_nl_append:
  "split_nl acc (xs @ ys) =
    (let (l1, r1) = split_nl acc xs; (l2, r2) = split_nl r1 ys in (l1 @ l2, r2))"
  by (induction xs arbitrary: acc) (simp_all add: case_prod_beta Let_def)

lemma split_nl_acc: "10 \<notin> set acc \<Longrightarrow> split_nl [] (acc @ xs) = split_nl acc xs"
  by (simp add: split_nl_append split_nl_free)

lemma write_all_eq:
  assumes "tx_inv E st" and "0 < PACKET_BUF_MAX E" and "skb_plenty E" and "10 \<notin> set (pending st)"
    and "fits (tx_end E) (pending st) cs"
  shows "\<exists>st'. write_all E cs st = Some st' \<and> tx_inv E st' \<and>
    tx_sent st' = tx_sent st @ map (line_frame (MTU E)) (fst (split_nl (pending st) (concat cs))) \<and>
    pending st' = snd (split_nl (pending st) (concat cs))"
  using assms
proof (induction cs arbitrary: st)
  case (Cons c cs)
  have n: "held E (length c) st = pending st" "taken E (length c) st = length c"
    using Cons.prems(5) by (auto simp: held_def taken_def)
  from genpipe_write_eq [OF Cons.prems(1-3), of "length c" c] obtain st1 where
    st1: "genpipe_write E 0 c (length c) st = Some (Inr (length c), st1)" "tx_inv E st1"
      "tx_sent st1 = tx_sent st @ map (line_frame (MTU E)) (fst (split_nl (pending st) c))"
      "pending st1 = snd (split_nl (pending st) c)"
    by (auto simp: n split_nl_acc [OF Cons.prems(4)] case_prod_beta)
  have "10 \<notin> set (pending st1)" using st1(4) split_nl_rest [OF Cons.prems(4)] by simp
  with Cons.IH [OF st1(2) Cons.prems(2,3)] st1 Cons.prems(5) show ?case
    by (auto simp: split_nl_append case_prod_beta)
qed simp



section \<open>Round trip through hexadecimal text\<close>

definition hex_char :: "bool \<Rightarrow> u8 \<Rightarrow> u8" where
  "hex_char up v = (if v < 10 then v + 0x30 else v - 10 + (if up then 0x41 else 0x61))"

definition hex_byte :: "bool \<Rightarrow> u8 \<Rightarrow> u8 list" where
  "hex_byte up b = [hex_char up (drop_bit 4 b), hex_char up (b AND 0xf), 0x20]"

definition hex_line :: "bool \<Rightarrow> u8 list \<Rightarrow> u8 list" where
  "hex_line up bs = concat (map (hex_byte up) bs) @ [10]"

lemma nibble_cases:
  fixes v :: u8
  assumes "v < 16"
  shows "v \<in> {0, 1, 2, 3, 4, 5, 6, 7, 8, 9, 10, 11, 12, 13, 14, 15}"
proof -
  have "unat v \<in> set [0..<16]" using assms by (simp add: word_less_nat_alt)
  also have "[0..<16] = [0, 1, 2, 3, 4, 5, 6, 7, 8, 9, 10, 11, 12, 13, 14, 15 :: nat]"
    by (simp add: upt_rec)
  finally have "word_of_nat (unat v) \<in>
      (word_of_nat :: nat \<Rightarrow> u8) ` set [0, 1, 2, 3, 4, 5, 6, 7, 8, 9, 10, 11, 12, 13, 14, 15]"
    by (rule imageI)
  then show ?thesis by simp
qed

lemma digit_of_hex_char: "v < 16 \<Longrightarrow> digit_of (hex_char up v) = Some v \<and> hex_char up v \<noteq> 10"
  by (drule nibble_cases) (cases up; elim insertE emptyE; simp add: hex_char_def digit_of_def upcase_def)

lemma nibbles_less: "drop_bit 4 b < 16" "b AND 0xf < 16" for b :: u8
proof -
  have "unat (drop_bit 4 b) = drop_bit 4 (unat b)" by (rule unat_drop_bit_eq)
  also have "\<dots> < 16" using unsigned_less [where ?'a = nat and w = b] by (simp add: drop_bit_eq_div)
  finally show "drop_bit 4 b < 16" by (simp only: word_less_nat_alt) simp
  have "b AND 0xf \<le> 0xf" by (rule word_and_le1)
  then show "b AND 0xf < 16" by (simp add: word_le_nat_alt word_less_nat_alt)
qed

lemma nibbles_join: "push_bit 4 (drop_bit 4 b) OR (b AND 0xf) = b" for b :: u8
proof -
  have "push_bit 4 (drop_bit 4 b) OR (b AND mask 4) = b"
    by (rule bit_word_eqI) (auto simp: bit_simps)
  then show ?thesis by (simp add: mask_eq_exp_minus_1)
qed

lemma hex_byte_digits: "List.map_filter digit_of (hex_byte up b) = [drop_bit 4 b, b AND 0xf]"
  using digit_of_hex_char [OF nibbles_less(1) [of b], of up] digit_of_hex_char [OF nibbles_less(2) [of b], of up]
  by (simp add: hex_byte_def List.map_filter_simps) (simp add: digit_of_def upcase_def)

lemma map_filter_append: "List.map_filter f (xs @ ys) = List.map_filter f xs @ List.map_filter f ys"
  by (simp add: List.map_filter_def)

lemma hex_line_frame: "length bs \<le> mtu \<Longrightarrow> line_frame mtu (concat (map (hex_byte up) bs)) = bs"
proof -
  have "pack (List.map_filter digit_of (concat (map (hex_byte up) bs))) = bs"
    by (induction bs) (simp_all add: List.map_filter_simps map_filter_append hex_byte_digits nibbles_join)
  then show "length bs \<le> mtu \<Longrightarrow> ?thesis" by (simp add: line_frame_def)
qed

lemma hex_byte_no_nl: "10 \<notin> set (hex_byte up b)"
  using digit_of_hex_char [OF nibbles_less(1) [of b], of up] digit_of_hex_char [OF nibbles_less(2) [of b], of up]
  by (auto simp: hex_byte_def)

lemma split_hex_lines:
  "split_nl [] (concat (map (hex_line up) fs)) = (map (\<lambda>f. concat (map (hex_byte up) f)) fs, [])"
proof (induction fs)
  case (Cons f fs)
  have "10 \<notin> set (concat (map (hex_byte up) f))" using hex_byte_no_nl by auto
  from split_nl_line [OF this, of "[]"] Cons show ?case by (simp add: hex_line_def)
qed simp



section \<open>Failed allocations\<close>

lemma takeWhile_less: "x \<in> set xs \<Longrightarrow> \<not> P x \<Longrightarrow> length (takeWhile P xs) < length xs"
  by (induction xs) auto

lemma write_loop_alloc_fails:
  assumes inv: "tx_inv E st" and max: "0 < PACKET_BUF_MAX E" and nl: "10 \<in> set (pending st)"
    and fail: "\<not> skb_alloc_ok E (skb_allocs st)"
  shows "write_loop E st = None"
proof -
  let ?l = "takeWhile (\<lambda>c. c \<noteq> 10) (pending st)"
  have mx: "tx_write st \<le> length (tx_mem st)" and read: "tx_read st = 0"
    using inv max by (auto simp: tx_inv_def tx_end_def)
  have find: "find_nl (tx_mem st) (tx_read st) (tx_write st) = Some (length ?l)"
    using find_nl_eq [of "tx_read st" "tx_write st" "tx_mem st"] mx read by (simp add: pending_def)
  have "length ?l < length (pending st)"
    by (rule takeWhile_less [OF nl]) simp
  then have less: "length ?l < tx_write st" unfolding pending_length [OF inv] .
  then have "length ?l \<le> length (tx_mem st)" using mx by simp
  from parse_line [OF inv this] obtain s where "parse_loop (MTU E) (length ?l)
      \<lparr>p_mem = tx_mem st, p_read = tx_read st, p_tmp = tmp_pkt st, frame_len = 0, pos = 0\<rparr> = Some s"
    by blast
  with fail have "send_line E (length ?l) st = None"
    by (simp add: send_line_def send_frame_def)
  with find less show ?thesis by (subst write_loop.simps) simp
qed

text \<open>A write that completes a line while the kernel has no socket buffer crashes: the failed
  allocation is dereferenced before it is tested.\<close>

theorem genpipe_write_alloc_crash:
  assumes "tx_inv E st" and "0 < PACKET_BUF_MAX E" and "count = length udata"
    and "length (pending st) + count \<le> tx_end E" and "10 \<in> set udata"
    and "\<not> skb_alloc_ok E (skb_allocs st)"
  shows "genpipe_write E 0 udata count st = None"
proof -
  let ?w = "tx_write st"
  have w: "?w = length (pending st)" using pending_length [OF assms(1)] by simp
  let ?mem = "take ?w (tx_mem st) @ udata @ drop (?w + count) (tx_mem st)"
  have room: "make_room E count st = Some st" using assms(4) w by (simp add: make_room_def)
  have blit: "blit (tx_mem st) ?w (take count udata) = Some ?mem"
    using assms(1-4) w by (auto simp: blit_def tx_inv_def tx_end_def)
  have "tx_inv E (st\<lparr>tx_mem := ?mem, tx_write := ?w + count\<rparr>)"
    using assms(1-4) w by (auto simp: tx_inv_def tx_end_def)
  moreover have "?w \<le> length (tx_mem st)"
    using assms(1,2) by (auto simp: tx_inv_def tx_end_def)
  then have "10 \<in> set (pending (st\<lparr>tx_mem := ?mem, tx_write := ?w + count\<rparr>))"
    using assms(3,5) by (simp add: pending_def)
  ultimately have "write_loop E (st\<lparr>tx_mem := ?mem, tx_write := ?w + count\<rparr>) = None"
    using assms(2,6) by (intro write_loop_alloc_fails) simp_all
  moreover have "\<not> (?w \<le> tx_end E \<and> tx_end E - ?w < count)" using assms(4) w by auto
  ultimately show ?thesis
    using room blit by (auto simp: genpipe_write_def)
qed

theorem genpipe_write_alloc_crash_witness:
  "genpipe_write (sample_tx\<lparr>skb_alloc_ok := (\<lambda>_. False)\<rparr>) 0 [0x34, 0x31, 10] 3 sample_st = None"
proof -
  have "tx_inv (sample_tx\<lparr>skb_alloc_ok := (\<lambda>_. False)\<rparr>) sample_st"
    using sample_st_inv(1) by (simp add: tx_inv_def tx_end_def)
  from genpipe_write_alloc_crash [OF this, of 3 "[0x34, 0x31, 10]"] show ?thesis
    by (simp add: sample_st_inv tx_end_def) (simp add: sample_tx_def)
qed

end
