(* ===== verification/Genpipe_System.thy ===== *)
theory Genpipe_System
  imports Genpipe_Module Genpipe_Write
begin

text \<open>
  The whole packet driver as a state machine: it is loaded and unloaded, its device file is
  written and read, and the kernel and the network driver call its handlers. The steps are the
  handlers of the other theories on one state; the arguments of a step are what the environment
  chooses. Two components of the state are histories: how many loads found the network device,
  and how many packets were received since the last load.
\<close>

record 'k gdriver =
  g_load :: load_env
  g_mod :: module_state
  g_tx :: tx_state
  g_kern :: 'k
  g_uaf :: bool
  g_loads :: nat
  g_packets :: nat

definition rx_of :: "'k gdriver \<Rightarrow> 'k rx_state" where
  "rx_of g = \<lparr>kern = g_kern g, cnts = counts (g_mod g), uaf = g_uaf g\<rparr>"

definition handlers :: "'k gdriver \<Rightarrow> rx_env" where
  "handlers g = (let S = syms (g_mod g) in
     \<lparr>pack_dev = genpipe_pack_dev (g_mod g), saved_arp = arprcv S, saved_ip = iprcv S, saved_ipv6 = ipv6rcv S\<rparr>)"

definition after_packet :: "'k rx_state \<Rightarrow> nat \<Rightarrow> 'k gdriver \<Rightarrow> 'k gdriver" where
  "after_packet r n g = g\<lparr>g_kern := kern r, g_uaf := uaf r, g_mod := (g_mod g)\<lparr>counts := cnts r\<rparr>,
     g_packets := g_packets g + n\<rparr>"

text \<open>
  Steps. The kernel loads a module once, hands out blocks nobody holds, and calls the handlers on
  the processors it has; a caller's buffer is as long as the count it passes.
\<close>

inductive gstep :: "tx_env \<Rightarrow> 'k net_api \<Rightarrow> 'k gdriver \<Rightarrow> 'k gdriver \<Rightarrow> bool" for E K where
  load: "gstep E K g (g\<lparr>g_load := L, g_mod := st, g_tx := (if ret = 0 then tx_init E mem else g_tx g),
      g_loads := g_loads g + (if dev_get_by_name L = 0 then 0 else 1), g_packets := 0\<rparr>)"
    if "unloaded L (g_mod g)" "genpipe_init L (g_mod g) = Some (ret, st)" "length mem = PACKET_BUF_MAX E"
| writes: "gstep E K g (g\<lparr>g_tx := tx\<rparr>)"
    if "misc_registered (g_mod g)" "count \<le> length udata" "genpipe_write E left udata count (g_tx g) = Some (r, tx)"
| read: "gstep E K g g"
    if "misc_registered (g_mod g)" "genpipe_read 0 left count (counts (g_mod g)) = Some (r, t)"
| packet: "gstep E K g (after_packet (deliver K (handlers g) e (rx_of g))
      (if is_packet K (handlers g) (g_kern g) e then 1 else 0) g)"
    if "misc_registered (g_mod g)" "on_cpus (NR_CPUS (g_load g)) [e]"
| unload: "gstep E K g (g\<lparr>g_mod := st\<rparr>)"
    if "misc_registered (g_mod g)" "genpipe_cleanup (g_load g) (g_mod g) = Some st"

inductive_cases gstepE: "gstep E K g g'"

inductive gsteps :: "tx_env \<Rightarrow> 'k net_api \<Rightarrow> 'k gdriver \<Rightarrow> 'k gdriver \<Rightarrow> bool" for E K where
  none: "gsteps E K g g"
| more: "gsteps E K g g''" if "gsteps E K g g'" "gstep E K g' g''"

section \<open>The invariant\<close>

definition loaded_ok :: "tx_env \<Rightarrow> u64 set \<Rightarrow> 'k gdriver \<Rightarrow> bool" where
  "loaded_ok E B g \<longleftrightarrow> (let L = g_load g; st = g_mod g; b = pbuf0 st in
     rx_start_ptr b = kmalloc_rx L \<and> tx_start_ptr b = kmalloc_tx L \<and>
     kmalloc_rx L \<noteq> 0 \<and> kmalloc_tx L \<noteq> 0 \<and> kmalloc_rx L \<notin> B \<and> kmalloc_tx L \<notin> B \<and>
     blocks st = insert (kmalloc_rx L) (insert (kmalloc_tx L) B) \<and>
     rx_read_ptr b = rx_write_ptr b \<and> counters_for (NR_CPUS L) (counts st) \<and> tx_inv E (g_tx g) \<and>
     total (rx_count (counts st)) = word_of_nat (g_packets g) \<and>
     (hook_dev_add_pack L \<noteq> 0 \<longrightarrow> 0 \<notin> set (ptypeall (syms st) # ptypebase (syms st))))"

text \<open>\<open>B\<close> are the blocks held and \<open>R\<close> the references before the first load.\<close>

definition g_ok :: "tx_env \<Rightarrow> u64 set \<Rightarrow> int \<Rightarrow> 'k gdriver \<Rightarrow> bool" where
  "g_ok E B R g \<longleftrightarrow> (let st = g_mod g in dev_refs st = R + int (g_loads g) \<and>
     (if misc_registered st then loaded_ok E B g
      else rx_start_ptr (pbuf0 st) = 0 \<and> tx_start_ptr (pbuf0 st) = 0 \<and> blocks st = B))"

lemma map_lists_None: "map_lists h ps st = None \<longleftrightarrow> 0 \<in> set ps"
  by (induction ps arbitrary: st) (auto simp: map_list_def split: bind_splits if_splits)

lemma map_lists_only:
  "map_lists h ps st = Some st' \<Longrightarrow> \<exists>pt. st' = st\<lparr>ptypes := pt\<rparr>"
proof (induction ps arbitrary: st)
  case Nil
  then show ?case by (intro exI [of _ "ptypes st"]) simp
next
  case (Cons p ps)
  then show ?case by (auto simp: map_list_def split: bind_splits if_splits) fastforce
qed

lemma hook_ptypes_only:
  assumes "hook_ptypes L st = Some st'"
  shows "0 \<notin> set (ptypeall (syms st) # ptypebase (syms st)) \<and> (\<exists>b pt. st' = st\<lparr>backup_func := b, ptypes := pt\<rparr>)"
proof -
  from assms obtain s1 where s1: "map_lists (hook_func L (syms st)) (ptypebase (syms st)) st = Some s1"
    and h: "ptypeall (syms s1) \<noteq> 0" "\<exists>b pt. st' = s1\<lparr>backup_func := b, ptypes := pt\<rparr>"
    by (auto simp: hook_ptypes_def Let_def case_prod_beta split: bind_splits if_splits)
  from map_lists_only [OF s1] obtain pt where "s1 = st\<lparr>ptypes := pt\<rparr>" by blast
  with h map_lists_None [of "hook_func L (syms st)" "ptypebase (syms st)" st] s1
  show ?thesis by auto
qed

text \<open>Both outcomes of a load.\<close>

lemma genpipe_init_refs:
  assumes "genpipe_init L st = Some (ret, st')"
  shows "dev_refs st' = dev_refs st + (if dev_get_by_name L = 0 then 0 else 1)"
  using assms
  by (auto simp: init_cases split: if_splits bind_splits dest!: hook_ptypes_only)

lemma genpipe_init_zero:
  assumes "genpipe_init L st = Some (0, st')"
  shows "misc_registered st' \<and> rx_start_ptr (pbuf0 st') = kmalloc_rx L \<and> tx_start_ptr (pbuf0 st') = kmalloc_tx L \<and>
    kmalloc_rx L \<noteq> 0 \<and> kmalloc_tx L \<noteq> 0 \<and> blocks st' = insert (kmalloc_rx L) (insert (kmalloc_tx L) (blocks st)) \<and>
    rx_read_ptr (pbuf0 st') = rx_write_ptr (pbuf0 st') \<and>
    counts st' = \<lparr>rx_count = replicate (NR_CPUS L) 0, alloc_count = replicate (NR_CPUS L) 0,
                   free_count = replicate (NR_CPUS L) 0\<rparr> \<and>
    (hook_dev_add_pack L \<noteq> 0 \<longrightarrow> 0 \<notin> set (ptypeall (syms st') # ptypebase (syms st')))"
  using assms
  by (auto simp: init_cases split: if_splits bind_splits dest!: hook_ptypes_only)


lemma genpipe_cleanup_refs:
  assumes "genpipe_cleanup L st = Some st'"
  shows "dev_refs st' = dev_refs st \<and> \<not> misc_registered st' \<and> rx_start_ptr (pbuf0 st') = 0 \<and>
    tx_start_ptr (pbuf0 st') = 0 \<and> blocks st' = blocks st - ({rx_start_ptr (pbuf0 st), tx_start_ptr (pbuf0 st)} - {0})"
proof -
  have only: "map_list h p s = Some s' \<Longrightarrow> \<exists>pt. s' = s\<lparr>ptypes := pt\<rparr>" for h p s s'
    by (auto simp: map_list_def split: if_splits)
  from assms show ?thesis
    by (auto simp: genpipe_cleanup_def Let_def split: if_splits bind_splits dest!: map_lists_only only)
qed

text \<open>A load gives a module as the invariant wants it, or leaves everything but a reference as it was.\<close>

lemma load_ok:
  assumes "unloaded L (g_mod g)" and "genpipe_init L (g_mod g) = Some (ret, st)" and "length mem = PACKET_BUF_MAX E"
    and "g_ok E B R g"
  shows "g_ok E B R (g\<lparr>g_load := L, g_mod := st, g_tx := (if ret = 0 then tx_init E mem else g_tx g),
      g_loads := g_loads g + (if dev_get_by_name L = 0 then 0 else 1), g_packets := 0\<rparr>)"
proof (cases "ret = 0")
  case True
  from genpipe_init_zero [OF assms(2) [unfolded True]] genpipe_init_refs [OF assms(2)] assms(1,4)
    tx_init_inv [OF assms(3)] True
  show ?thesis
    by (auto simp: g_ok_def loaded_ok_def unloaded_def Let_def counters_for_def total_packets packets_def sum_list_replicate)
next
  case False
  from genpipe_init_fails [OF assms(2) False assms(1)] genpipe_init_refs [OF assms(2)] assms(1,4) False
  show ?thesis by (auto simp: g_ok_def unloaded_def Let_def)
qed


section \<open>Writes\<close>

text \<open>Every write that does not crash keeps the transmit buffer in order, whatever the allocator answers.\<close>

lemma send_line_inv:
  assumes "tx_inv E st" and "cr < tx_write st" and "0 < PACKET_BUF_MAX E" and "send_line E cr st = Some st'"
  shows "tx_inv E st'"
proof -
  have max: "tx_write st \<le> length (tx_mem st)" using assms(1) by (auto simp: tx_inv_def tx_end_def)
  with assms(2) have "cr \<le> length (tx_mem st)" by simp
  from parse_line [OF assms(1) this] obtain s where
    "parse_loop (MTU E) cr
      \<lparr>p_mem = tx_mem st, p_read = tx_read st, p_tmp = tmp_pkt st, frame_len = 0, pos = 0\<rparr> = Some s"
    "length (p_mem s) = length (tx_mem st)" "length (p_tmp s) = MTU E + 14" "take 14 (p_tmp s) = replicate 14 0"
    by blast
  with assms max show ?thesis
    by (auto simp: send_line_def send_frame_def slice_def blit_def tx_inv_def Let_def split: bind_splits if_splits)
qed

lemma write_loop_inv:
  "tx_inv E st \<Longrightarrow> 0 < PACKET_BUF_MAX E \<Longrightarrow> write_loop E st = Some st' \<Longrightarrow> tx_inv E st'"
proof (induction E st rule: write_loop.induct)
  case (1 E st)
  have max: "tx_write st \<le> length (tx_mem st)" and read: "tx_read st = 0"
    using "1.prems" by (auto simp: tx_inv_def tx_end_def)
  define cr where "cr = length (takeWhile (\<lambda>c. c \<noteq> 10) (take (tx_write st) (tx_mem st)))"
  have cr: "find_nl (tx_mem st) (tx_read st) (tx_write st) = Some cr"
    using find_nl_eq [of "tx_read st" "tx_write st" "tx_mem st"] max read by (simp add: cr_def)
  have le: "cr \<le> tx_write st"
    using length_takeWhile_le [of "\<lambda>c. c \<noteq> 10" "take (tx_write st) (tx_mem st)"] max by (simp add: cr_def)
  show ?case
  proof (cases "cr = tx_write st")
    case True
    with "1.prems" cr show ?thesis by (subst (asm) write_loop.simps) simp
  next
    case False
    with le have lt: "cr < tx_write st" by simp
    from "1.prems"(3) cr False obtain st1 where st1: "send_line E cr st = Some st1" "write_loop E st1 = Some st'"
      by (subst (asm) (2) write_loop.simps) (auto split: bind_splits)
    with "1.IH" [OF cr False st1(1)] send_line_inv [OF "1.prems"(1) lt "1.prems"(2) st1(1)] "1.prems"(2)
    show ?thesis by blast
  qed
qed

text \<open>The state after the caller's bytes, or the zeros for those that could not be read, are in the buffer.\<close>

lemma write_copied:
  assumes inv: "tx_inv E st" and "0 < PACKET_BUF_MAX E" and "count \<le> length udata"
  obtains st1 n where "tx_inv E st1" "tx_inv E (st1\<lparr>tx_write := tx_write st1 + n\<rparr>)"
    "genpipe_write E left udata count st =
      (if left \<noteq> 0 then Some (Inl EFAULT, st1)
       else map_option (\<lambda>st. (Inr n, st)) (write_loop E (st1\<lparr>tx_write := tx_write st1 + n\<rparr>)))"
proof -
  from make_room_eq [OF inv, of count] obtain st0 where st0: "make_room E count st = Some st0" "tx_inv E st0"
    by blast
  define n where "n = (if tx_write st0 \<le> tx_end E \<and> tx_end E - tx_write st0 < count then tx_end E - tx_write st0 else count)"
  define bs where "bs = take (n - left) udata @ replicate (min left n) 0"
  have fit: "tx_write st0 + n \<le> tx_end E" "n \<le> count" using st0(2) by (auto simp: n_def tx_inv_def)
  then have len: "length bs = n" using assms(3) by (auto simp: bs_def)
  define mem where "mem = take (tx_write st0) (tx_mem st0) @ bs @ drop (tx_write st0 + n) (tx_mem st0)"
  have blit: "blit (tx_mem st0) (tx_write st0) bs = Some mem" and lm: "length mem = PACKET_BUF_MAX E"
    using fit len st0(2) assms(2) unfolding blit_def mem_def tx_inv_def tx_end_def by auto
  have "tx_inv E (st0\<lparr>tx_mem := mem\<rparr>)" "tx_inv E (st0\<lparr>tx_mem := mem, tx_write := tx_write st0 + n\<rparr>)"
    using st0(2) fit lm by (auto simp: tx_inv_def)
  moreover have "genpipe_write E left udata count st =
      (if left \<noteq> 0 then Some (Inl EFAULT, st0\<lparr>tx_mem := mem\<rparr>)
       else map_option (\<lambda>st. (Inr n, st)) (write_loop E (st0\<lparr>tx_mem := mem, tx_write := tx_write st0 + n\<rparr>)))"
    using blit st0(1)
    by (auto simp: genpipe_write_def Let_def n_def [symmetric] bs_def [symmetric] split: bind_splits)
  ultimately show thesis by (intro that [of "st0\<lparr>tx_mem := mem\<rparr>" n]) simp_all
qed

lemma genpipe_write_inv:
  assumes "tx_inv E st" and "0 < PACKET_BUF_MAX E" and "count \<le> length udata"
    and "genpipe_write E left udata count st = Some (r, st')"
  shows "tx_inv E st'"
proof (rule write_copied [OF assms(1-3), of left])
  fix st1 n
  assume inv: "tx_inv E st1" "tx_inv E (st1\<lparr>tx_write := tx_write st1 + n\<rparr>)"
    and eq: "genpipe_write E left udata count st = (if left \<noteq> 0 then Some (Inl EFAULT, st1)
       else map_option (\<lambda>st. (Inr n, st)) (write_loop E (st1\<lparr>tx_write := tx_write st1 + n\<rparr>)))"
  show ?thesis
  proof (cases "left = 0")
    case True
    with assms(4) eq have "write_loop E (st1\<lparr>tx_write := tx_write st1 + n\<rparr>) = Some st'"
      by (cases "write_loop E (st1\<lparr>tx_write := tx_write st1 + n\<rparr>)") auto
    then show ?thesis by (rule write_loop_inv [OF inv(2) assms(2)])
  next
    case False
    with assms(4) eq inv(1) show ?thesis by simp
  qed
qed

lemma genpipe_write_total:
  assumes "tx_inv E st" and "0 < PACKET_BUF_MAX E" and "count \<le> length udata" and "skb_plenty E"
  shows "genpipe_write E left udata count st \<noteq> None"
  by (rule write_copied [OF assms(1-3), of left])
    (use write_loop_eq [OF _ assms(2,4)] in \<open>fastforce\<close>)


section \<open>Every history\<close>

lemma gstep_ok:
  assumes "gstep E K g g'" and "g_ok E B R g" and "0 < PACKET_BUF_MAX E"
  shows "g_ok E B R g'"
  using assms(1)
proof cases
  case (load L ret st mem)
  with load_ok [OF load(2-4) assms(2)] show ?thesis by simp
next
  case (writes count udata left r tx)
  with assms(2,3) genpipe_write_inv [of E "g_tx g" count udata left r tx] show ?thesis
    by (auto simp: g_ok_def loaded_ok_def Let_def)
next
  case (read left count r t)
  with assms(2) show ?thesis by simp
next
  case (packet e)
  with assms(2) deliver_total [of "NR_CPUS (g_load g)" "rx_of g" e K "handlers g"] show ?thesis
    by (simp add: g_ok_def loaded_ok_def Let_def after_packet_def rx_of_def)
next
  case (unload st)
  with assms(2) genpipe_cleanup_refs [OF unload(3)] show ?thesis
    by (auto simp: g_ok_def loaded_ok_def Let_def)
qed

lemma gsteps_ok: "gsteps E K g g' \<Longrightarrow> g_ok E B R g \<Longrightarrow> 0 < PACKET_BUF_MAX E \<Longrightarrow> g_ok E B R g'"
  by (induction rule: gsteps.induct) (auto intro: gstep_ok)

text \<open>Before the first load.\<close>

definition fresh :: "'k gdriver \<Rightarrow> bool" where
  "fresh g \<longleftrightarrow> \<not> misc_registered (g_mod g) \<and> rx_start_ptr (pbuf0 (g_mod g)) = 0 \<and>
     tx_start_ptr (pbuf0 (g_mod g)) = 0 \<and> g_loads g = 0"

lemma fresh_ok: "fresh g \<Longrightarrow> g_ok E (blocks (g_mod g)) (dev_refs (g_mod g)) g"
  by (simp add: fresh_def g_ok_def Let_def)

lemma read_total: "genpipe_read 0 left count c \<noteq> None"
  by (simp add: genpipe_read_def counter_line_length Let_def)

lemma cleanup_total:
  assumes "hook_dev_add_pack L \<noteq> 0 \<longrightarrow> 0 \<notin> set (ptypeall (syms st) # ptypebase (syms st))"
  shows "genpipe_cleanup L st \<noteq> None"
proof (cases "hook_dev_add_pack L = 0")
  case True
  then show ?thesis by (simp add: genpipe_cleanup_def)
next
  case False
  let ?s = "st\<lparr>misc_registered := False\<rparr>"
  have "map_lists (unhook_func L (syms ?s)) (ptypebase (syms ?s)) ?s \<noteq> None"
    using assms False by (simp only: map_lists_None) simp
  then obtain s1 where s1: "map_lists (unhook_func L (syms ?s)) (ptypebase (syms ?s)) ?s = Some s1" by blast
  with map_lists_only [OF s1] assms False show ?thesis
    by (auto simp: genpipe_cleanup_def Let_def map_list_def)
qed

section \<open>A history\<close>

text \<open>The sample module is loaded, and a packet arrives through the network driver.\<close>

definition sample_driver :: "(u64 \<rightharpoonup> sample_skb) gdriver" where
  "sample_driver = \<lparr>g_load = sample_load, g_mod = sample_unloaded, g_tx = sample_st, g_kern = kern sample_rx,
     g_uaf = False, g_loads = 0, g_packets = 0\<rparr>"

lemma sample_history:
  obtains g where "gsteps sample_tx sample_api sample_driver g" "misc_registered (g_mod g)" "g_loads g = 1"
    "g_packets g = 1"
proof -
  obtain s1 where init: "genpipe_init sample_load sample_unloaded = Some (0, finished sample_load s1)"
    by (rule sample_init)
  note z = genpipe_init_zero [OF init]
  let ?mem = "replicate 16 0 :: u8 list"
  define g1 where "g1 = sample_driver\<lparr>g_load := sample_load, g_mod := finished sample_load s1,
    g_tx := tx_init sample_tx ?mem, g_loads := 1, g_packets := 0\<rparr>"
  have "gstep sample_tx sample_api sample_driver g1"
    using gstep.load [of sample_load sample_driver 0 "finished sample_load s1" ?mem sample_tx sample_api] init
    by (simp add: g1_def sample_driver_def unloaded_def sample_load_def sample_unloaded_def sample_tx_def)
  moreover define g2 where "g2 = after_packet (deliver sample_api (handlers g1) (Gro 1 0x200) (rx_of g1)) 1 g1"
  have "gstep sample_tx sample_api g1 g2"
    using gstep.packet [of g1 "Gro 1 0x200" sample_tx sample_api] z
    by (simp add: g2_def g1_def on_cpus_def sample_load_def)
  ultimately have "gsteps sample_tx sample_api sample_driver g2" by (blast intro: gsteps.intros)
  moreover have "misc_registered (g_mod g2)" "g_loads g2 = 1" "g_packets g2 = 1"
    using z by (simp_all add: g2_def after_packet_def g1_def)
  ultimately show thesis using that by blast
qed

lemma sample_driver_fresh: "fresh sample_driver"
  by (simp add: fresh_def sample_driver_def sample_unloaded_def)





end
