(* ===== verification/Mem_Tests.thy ===== *)
theory Mem_Tests
  imports Genpipe_Symbols
begin

text \<open>
  The two programs that map physical memory and go through it: the memory test
  \<^verbatim>\<open>src/mmap/mmap.c\<close>, which writes its own index into every word and verifies it in order and at
  random, and the throughput test \<^verbatim>\<open>src/membench/membench.c\<close>, as it is built with
  \<^verbatim>\<open>USE_MEMCPY\<close>, without its timing. What the mapped device does with a word is a parameter of
  the memory test.
\<close>

section \<open>Reading an address\<close>

definition hex_nat :: "string \<Rightarrow> nat" where
  "hex_nat ds = foldl (\<lambda>n c. n * 16 + the (hex_val c)) 0 ds"

text \<open>White space, a sign, an optional \<^verbatim>\<open>0x\<close>, digits; no digits are zero.\<close>

definition strto16 :: "string \<Rightarrow> bool \<times> nat" where
  "strto16 s =
     (let s1 = dropWhile is_space s;
          (neg, s2) = (case s1 of c # r \<Rightarrow> if c = CHR ''-'' then (True, r) else if c = CHR ''+'' then (False, r)
                         else (False, s1) | [] \<Rightarrow> (False, s1));
          s3 = (case s2 of a # x # d # r \<Rightarrow>
                  if a = CHR ''0'' \<and> (x = CHR ''x'' \<or> x = CHR ''X'') \<and> is_xdigit d then d # r else s2
                | _ \<Rightarrow> s2)
      in (neg, hex_nat (takeWhile is_xdigit s3)))"

definition strtoul :: "string \<Rightarrow> u64" where
  "strtoul s = (case strto16 s of (neg, v) \<Rightarrow>
     if 2 ^ 64 \<le> v then NOT 0 else if neg then - word_of_nat v else word_of_nat v)"

definition strtoll :: "string \<Rightarrow> u64" where
  "strtoll s = (case strto16 s of (neg, v) \<Rightarrow>
     if neg then - word_of_nat (min v (2 ^ 63)) else word_of_nat (min v (2 ^ 63 - 1)))"

section \<open>The memory test\<close>

record 'm device =
  load :: "nat \<Rightarrow> 'm \<Rightarrow> u32"
  store :: "nat \<Rightarrow> u32 \<Rightarrow> 'm \<Rightarrow> 'm"

text \<open>The lines printed, with their numbers.\<close>

datatype test_line =
    Usage_line | No_device | Mapping u32 u32 | No_mapping
  | Writing u32 | Sequential nat u32 | Random nat u32 | Unmatch u32 u32 u32

definition LEN :: u32 where
  "LEN = 0x400000"

definition write_loop :: "'m device \<Rightarrow> nat \<Rightarrow> 'm \<Rightarrow> 'm" where
  "write_loop dev n m = foldl (\<lambda>m i. store dev i (word_of_nat i) m) m [0..<n]"

definition verify_word :: "'m device \<Rightarrow> 'm \<Rightarrow> nat \<Rightarrow> test_line list" where
  "verify_word dev m i =
     (let d = load dev i m in
      if d \<noteq> word_of_nat i then [Unmatch (word_of_nat i) (word_of_nat i) d] else [])"

definition sequential_pass :: "'m device \<Rightarrow> 'm \<Rightarrow> nat \<Rightarrow> nat \<Rightarrow> test_line list" where
  "sequential_pass dev m n j = Sequential j LEN # concat (map (verify_word dev m) [0..<n])"

text \<open>\<open>rand k\<close> is the \<open>k\<close>-th number \<^verbatim>\<open>rand\<close> delivers.\<close>

definition random_pass :: "'m device \<Rightarrow> (nat \<Rightarrow> u32) \<Rightarrow> 'm \<Rightarrow> nat \<Rightarrow> nat \<Rightarrow> test_line list" where
  "random_pass dev rand m n j =
     Random j LEN # concat (map (\<lambda>i. verify_word dev m (unat (rand (j * n + i)) mod n)) [0..<n])"

definition mmap_main ::
  "string list \<Rightarrow> bool \<Rightarrow> (u32 \<Rightarrow> u32 \<Rightarrow> bool) \<Rightarrow> 'm device \<Rightarrow> (nat \<Rightarrow> u32) \<Rightarrow> 'm \<Rightarrow> test_line list \<times> int \<times> 'm" where
  "mmap_main argv opened mmapped dev rand m =
     (case argv of
        [prog, a] \<Rightarrow>
          (let st = ucast (strtoul a); poff = st mod 4096 in
           if \<not> opened then ([No_device], 1, m)
           else if \<not> mmapped (LEN + poff) (st - poff)
           then ([Mapping (st - poff) (LEN + poff), No_mapping], 1, m)
           else
             let n = unat (LEN div 4); m' = write_loop dev n m in
             ([Mapping (st - poff) (LEN + poff), Writing LEN]
                @ concat (map (sequential_pass dev m' n) [0..<10])
                @ concat (map (random_pass dev rand m' n) [0..<10]), 0, m'))
      | _ \<Rightarrow> ([Usage_line], 1, m))"

section \<open>The throughput test\<close>

definition BENCH_LEN :: u64 where
  "BENCH_LEN = 0x8000"

text \<open>
  The physical memory and the buffer after the run, with the exit status. The buffer is
  allocated and not initialised.
\<close>

definition membench_main ::
  "string list \<Rightarrow> bool \<Rightarrow> (u64 \<Rightarrow> u64 \<Rightarrow> bool) \<Rightarrow> u8 list \<Rightarrow> (u64 \<Rightarrow> u8) \<Rightarrow> int \<times> u8 list \<times> (u64 \<Rightarrow> u8)" where
  "membench_main argv opened mmapped buf mem =
     (case argv of
        [prog, a, rw] \<Rightarrow>
          (let st = strtoll a; poff = st mod 4096; mapped = st - poff in
           if \<not> opened then (1, buf, mem)
           else if \<not> mmapped (BENCH_LEN + poff) mapped then (1, buf, mem)
           else
             let mem = (if rw = ''w'' then ((\<lambda>mem. range_write mem mapped buf) ^^ 1000) mem else mem);
                 buf = (if rw = ''r'' then ((\<lambda>_. range_read mem mapped (unat BENCH_LEN)) ^^ 1000) buf else buf)
             in (0, buf, mem))
      | _ \<Rightarrow> (1, buf, mem))"

section \<open>What the memory test detects\<close>

text \<open>A memory whose address lines decode the word \<open>i\<close> to the cell \<open>h i\<close>.\<close>

definition decoded :: "(nat \<Rightarrow> 'c) \<Rightarrow> ('c \<Rightarrow> u32) device" where
  "decoded h = \<lparr>load = \<lambda>i m. m (h i), store = \<lambda>i v m. m(h i := v)\<rparr>"

text \<open>The last word below \<open>n\<close> that shares the cell of \<open>i\<close>.\<close>

fun last_sharing :: "(nat \<Rightarrow> 'c) \<Rightarrow> nat \<Rightarrow> nat \<Rightarrow> nat" where
  "last_sharing h 0 i = i"
| "last_sharing h (Suc n) i = (if h n = h i then n else last_sharing h n i)"

lemma last_sharing_props:
  "i < n \<Longrightarrow> last_sharing h n i < n \<and> i \<le> last_sharing h n i \<and> h (last_sharing h n i) = h i \<and>
    (\<forall>j. last_sharing h n i < j \<and> j < n \<longrightarrow> h j \<noteq> h i)"
  by (induction n) (auto simp: less_Suc_eq)

lemma write_loop_decoded:
  "i < n \<Longrightarrow> write_loop (decoded h) n m (h i) = word_of_nat (last_sharing h n i)"
  by (induction n) (auto simp: write_loop_def decoded_def less_Suc_eq)

lemma inj_iff_last_sharing: "inj_on h {..<n} \<longleftrightarrow> (\<forall>i<n. last_sharing h n i = i)"
proof
  assume "inj_on h {..<n}"
  then show "\<forall>i<n. last_sharing h n i = i" using last_sharing_props [of _ n h] by (auto dest: inj_onD)
next
  assume same: "\<forall>i<n. last_sharing h n i = i"
  have "\<not> (i < j \<and> j < n \<and> h j = h i)" for i j
    using last_sharing_props [of i n h] same by auto
  then show "inj_on h {..<n}" by (intro inj_onI) (metis lessThan_iff linorder_neqE_nat)
qed

definition mismatches :: "test_line list \<Rightarrow> (u32 \<times> u32) set" where
  "mismatches out = {(i, d). Unmatch i i d \<in> set out}"

lemma mismatches_simps [simp]:
  "mismatches [] = {}" "mismatches (xs @ ys) = mismatches xs \<union> mismatches ys"
  "mismatches (Mapping x y # xs) = mismatches xs" "mismatches (Writing x # xs) = mismatches xs"
  "mismatches (Sequential j x # xs) = mismatches xs" "mismatches (Random j x # xs) = mismatches xs"
  by (auto simp: mismatches_def)

lemma mismatches_concat: "mismatches (concat xss) = (\<Union>xs \<in> set xss. mismatches xs)"
  by (induction xss) auto

definition overwritten :: "(nat \<Rightarrow> 'c) \<Rightarrow> nat \<Rightarrow> (u32 \<times> u32) set" where
  "overwritten h n = {(word_of_nat i, word_of_nat (last_sharing h n i)) | i. i < n \<and> last_sharing h n i \<noteq> i}"

lemma verify_word_decoded:
  assumes "i < n" and "n \<le> 2 ^ 32"
  shows "mismatches (verify_word (decoded h) (write_loop (decoded h) n m) i) =
    (if last_sharing h n i = i then {} else {(word_of_nat i, word_of_nat (last_sharing h n i))})"
proof -
  have "last_sharing h n i < n" using last_sharing_props [OF assms(1)] by blast
  then have eq: "(word_of_nat (last_sharing h n i) :: u32) = word_of_nat i \<longleftrightarrow> last_sharing h n i = i"
    using assms by (auto simp: word_unat_eq_iff unsigned_of_nat take_bit_nat_eq_self)
  have "load (decoded h) i (write_loop (decoded h) n m) = word_of_nat (last_sharing h n i)"
    using write_loop_decoded [OF assms(1)] by (simp add: decoded_def)
  then show ?thesis
    using eq by (auto simp: verify_word_def mismatches_def Let_def)
qed

lemma sequential_decoded:
  "n \<le> 2 ^ 32 \<Longrightarrow> mismatches (sequential_pass (decoded h) (write_loop (decoded h) n m) n j) = overwritten h n"
  by (auto simp: sequential_pass_def mismatches_concat overwritten_def verify_word_decoded split: if_splits)

lemma random_decoded:
  assumes "n \<le> 2 ^ 32"
  shows "mismatches (random_pass (decoded h) rand (write_loop (decoded h) n m) n j) \<subseteq> overwritten h n"
  using assms
  by (auto simp: random_pass_def mismatches_concat overwritten_def verify_word_decoded split: if_splits)

text \<open>C40: Over a memory whose address lines decode the words in any way, the lines the memory test
  prints about mismatches are exactly these: for each of its 2^20 words that a later word
  overwrites, the word and the number of the last word that shares its cell. So it prints none
  exactly when no two words share a cell. The range it maps starts on the page of the low 32 bits
  of the address given.\<close>

theorem mmap_test_detects:
  fixes h :: "nat \<Rightarrow> 'c" and rand :: "nat \<Rightarrow> u32" and m :: "'c \<Rightarrow> u32" and prog a :: string
  defines "run \<equiv> mmap_main [prog, a] True (\<lambda>_ _. True) (decoded h) rand m"
    and "st \<equiv> ucast (strtoul a)"
  shows "mismatches (fst run) =
      {(word_of_nat i, word_of_nat (last_sharing h (2 ^ 20) i)) | i. i < 2 ^ 20 \<and> last_sharing h (2 ^ 20) i \<noteq> i} \<and>
    (mismatches (fst run) = {} \<longleftrightarrow> inj_on h {..<2 ^ 20}) \<and> fst (snd run) = 0 \<and>
    hd (fst run) = Mapping (st - st mod 4096) (0x400000 + st mod 4096)"
proof -
  define n :: nat where "n = unat (LEN div 4)"
  then have n: "n = 2 ^ 20" by (simp add: LEN_def)
  have small: "n \<le> 2 ^ 32" by (simp add: n)
  let ?m = "write_loop (decoded h) n m"
  have out: "mismatches (fst run) = (\<Union>j < 10. mismatches (sequential_pass (decoded h) ?m n j)) \<union>
      (\<Union>j < 10. mismatches (random_pass (decoded h) rand ?m n j))"
    unfolding run_def mmap_main_def Let_def n_def [symmetric]
    by (simp add: mismatches_concat atLeast0LessThan del: upt_rec_numeral)
  have "{..<10 :: nat} \<noteq> {}" by (simp add: lessThan_empty_iff)
  then have "(\<Union>j < 10 :: nat. mismatches (sequential_pass (decoded h) ?m n j)) = overwritten h n"
    by (simp add: sequential_decoded [OF small])
  moreover have "(\<Union>j < 10 :: nat. mismatches (random_pass (decoded h) rand ?m n j)) \<subseteq> overwritten h n"
    by (intro UN_least random_decoded [OF small])
  ultimately have all: "mismatches (fst run) = overwritten h n"
    using out by (simp only: Un_absorb2)
  have "overwritten h n = {} \<longleftrightarrow> inj_on h {..<n}"
    unfolding inj_iff_last_sharing by (auto simp: overwritten_def)
  moreover have "fst (snd run) = 0 \<and> hd (fst run) = Mapping (st - st mod 4096) (LEN + st mod 4096)"
    unfolding run_def mmap_main_def Let_def st_def by simp
  ultimately show ?thesis
    using all by (simp add: overwritten_def n LEN_def)
qed

section \<open>What the throughput test touches\<close>

lemma range_write_again:
  assumes "length bs \<le> 2 ^ 64"
  shows "range_write (range_write mem a bs) a bs = range_write mem a bs"
proof
  fix x
  show "range_write (range_write mem a bs) a bs x = range_write mem a bs x"
  proof (cases "\<exists>i < length bs. x = a + of_nat i")
    case True
    then show ?thesis using assms by (auto simp: range_write_nth)
  next
    case False
    then show ?thesis by (intro range_write_other) auto
  qed
qed

text \<open>
  The buffer goes to the page the address lies on, not to the address: the bytes from \<open>len - poff\<close>
  on of the range asked for are never touched.
\<close>

lemma membench_writes:
  fixes prog a :: string
  assumes "length buf = unat BENCH_LEN" and "\<And>x y. mmapped x y"
  defines "st \<equiv> strtoll a"
  shows "membench_main [prog, a, ''w''] True mmapped buf mem =
      (0, buf, range_write mem (st - st mod 4096) buf)"
    and "range_read (range_write mem (st - st mod 4096) buf) (st - st mod 4096) (unat BENCH_LEN) = buf"
proof -
  let ?w = "\<lambda>mem. range_write mem (st - st mod 4096) buf"
  have len: "length buf \<le> 2 ^ 64" using assms(1) by (simp add: BENCH_LEN_def)
  show "range_read (?w mem) (st - st mod 4096) (unat BENCH_LEN) = buf"
    using range_read_write [OF len] assms(1) by metis
  have again: "?w (?w mem) = ?w mem" for mem
    by (rule range_write_again [OF len])
  have "(?w ^^ Suc k) mem = ?w mem" for k
    by (induction k) (simp_all add: again)
  from this [of 999] show "membench_main [prog, a, ''w''] True mmapped buf mem = (0, buf, ?w mem)"
    unfolding membench_main_def Let_def st_def using assms(2) by simp
qed

end
