(* ===== verification/Timing.thy ===== *)
theory Timing
  imports Prelude
begin

text \<open>
  The time-stamp helpers of the measuring programs: \<^verbatim>\<open>src/rdtsc/rdtsc.h\<close> with its program
  \<^verbatim>\<open>main.c\<close>, and \<^verbatim>\<open>rtdsc.h\<close>, which stands in \<^verbatim>\<open>src/ip_fast_checksum\<close> and, but for a space,
  in \<^verbatim>\<open>src/cuda_iplookup\<close>. A run is seen as a sequence of moments: \<open>clock n\<close> is what the
  \<open>n\<close>-th reading of the system clock delivers, \<open>tsc n\<close> what the time-stamp counter holds then.
  Both are parameters. The calibration loops wait until the clock has moved on, so they are partial
  functions: \<open>None\<close> is a loop that never ends.
\<close>

record TimeWatcher =
  tw_start :: u64
  tw_end :: u64

text \<open>The two halves the instruction \<^verbatim>\<open>rdtsc\<close> delivers in \<^verbatim>\<open>eax\<close> and \<^verbatim>\<open>edx\<close>.\<close>

definition rdtsc :: "u32 \<Rightarrow> u32 \<Rightarrow> u64" where
  "rdtsc a d = ucast a OR push_bit 32 (ucast d)"

definition tw_start_at :: "u64 \<Rightarrow> TimeWatcher \<Rightarrow> TimeWatcher" where
  "tw_start_at now tw = tw\<lparr>tw_start := now\<rparr>"

definition tw_end_at :: "u64 \<Rightarrow> TimeWatcher \<Rightarrow> TimeWatcher" where
  "tw_end_at now tw = tw\<lparr>tw_end := now\<rparr>"

section \<open>Calibration over one second\<close>

definition usec :: "u64 \<times> u64 \<Rightarrow> u64" where
  "usec tv = fst tv * 1000000 + snd tv"

partial_function (option) wait_usec :: "(nat \<Rightarrow> u64 \<times> u64) \<Rightarrow> u64 \<Rightarrow> nat \<Rightarrow> nat option" where
  "wait_usec clock startusec n =
     (if usec (clock n) < startusec + 1000000 then wait_usec clock startusec (n + 1) else Some n)"

definition get_cpu_cycle_per_sec :: "(nat \<Rightarrow> u64 \<times> u64) \<Rightarrow> (nat \<Rightarrow> u64) \<Rightarrow> u64 option" where
  "get_cpu_cycle_per_sec clock tsc =
     (let start = tsc 0; startusec = usec (clock 0) in do {
        n \<leftarrow> wait_usec clock startusec 1;
        let now = tsc n;
        Some (now - start)
      })"

section \<open>Calibration over a tenth of a second\<close>

definition nsec_ahead :: "u64 \<Rightarrow> u64 \<Rightarrow> u64" where
  "nsec_ahead startnsec nsec = (if nsec < startnsec then nsec + 1000000000 else nsec)"

partial_function (option) wait_nsec :: "(nat \<Rightarrow> u64 \<times> u64) \<Rightarrow> u64 \<Rightarrow> nat \<Rightarrow> nat option" where
  "wait_nsec clock startnsec n =
     (if nsec_ahead startnsec (snd (clock n)) < startnsec + 100000000
      then wait_nsec clock startnsec (n + 1) else Some n)"

definition get_rdtsc_cycle_per_sec :: "(nat \<Rightarrow> u64 \<times> u64) \<Rightarrow> (nat \<Rightarrow> u64) \<Rightarrow> u64 option" where
  "get_rdtsc_cycle_per_sec clock tsc =
     (let startnsec = snd (clock 0); start = tsc 0 in do {
        n \<leftarrow> wait_nsec clock startnsec 1;
        let now = tsc n;
        let diff = now - start;
        Some (diff * 10)
      })"

section \<open>The report\<close>

text \<open>The four numbers printed: MHz, cycles per second, nanoseconds, cycles; \<open>None\<close>: division by zero.\<close>

definition print_time_sec :: "u64 \<Rightarrow> TimeWatcher \<Rightarrow> (u64 \<times> u64 \<times> u64 \<times> u64) option" where
  "print_time_sec cycles_per_sec tw =
     (if cycles_per_sec = 0 then None
      else Some (cycles_per_sec div 1000000, cycles_per_sec,
        (tw_end tw - tw_start tw) * 1000000000 div cycles_per_sec, tw_end tw - tw_start tw))"

text \<open>\<^verbatim>\<open>main\<close>: the two readings after the calibration are those at the moments \<open>m\<close> and \<open>m'\<close>.\<close>

definition rdtsc_main ::
  "(nat \<Rightarrow> u64 \<times> u64) \<Rightarrow> (nat \<Rightarrow> u64) \<Rightarrow> u64 \<Rightarrow> u64 \<Rightarrow> (u64 \<times> u64 \<times> u64 \<times> u64) option" where
  "rdtsc_main clock tsc t1 t2 = do {
     cps \<leftarrow> get_rdtsc_cycle_per_sec clock tsc;
     print_time_sec cps (tw_end_at t2 (tw_start_at t1 \<lparr>tw_start = 0, tw_end = 0\<rparr>))
   }"

section \<open>When the loops end\<close>

text \<open>Both loops stop at the first moment that satisfies a test.\<close>

lemma wait_usec_first:
  assumes "\<not> usec (clock n) < s + 1000000" and "k \<le> n" and "\<And>i. k \<le> i \<Longrightarrow> i < n \<Longrightarrow> usec (clock i) < s + 1000000"
  shows "wait_usec clock s k = Some n"
  using assms(2,3)
proof (induction rule: inc_induct)
  case base
  then show ?case using assms(1) by (subst wait_usec.simps) simp
next
  case (step m)
  then show ?case by (subst wait_usec.simps) simp
qed

lemma wait_nsec_first:
  assumes "\<not> nsec_ahead s (snd (clock n)) < s + 100000000" and "k \<le> n"
    and "\<And>i. k \<le> i \<Longrightarrow> i < n \<Longrightarrow> nsec_ahead s (snd (clock i)) < s + 100000000"
  shows "wait_nsec clock s k = Some n"
  using assms(2,3)
proof (induction rule: inc_induct)
  case base
  then show ?case using assms(1) by (subst wait_nsec.simps) simp
next
  case (step m)
  then show ?case by (subst wait_nsec.simps) simp
qed

text \<open>A clock that shows the time \<open>T n\<close>, in nanoseconds: seconds and nanoseconds of a second.\<close>

definition shows_time :: "(nat \<Rightarrow> u64 \<times> u64) \<Rightarrow> (nat \<Rightarrow> nat) \<Rightarrow> bool" where
  "shows_time clock T \<longleftrightarrow> (\<forall>n. clock n = (word_of_nat (T n div 10 ^ 9), word_of_nat (T n mod 10 ^ 9)))"

lemma nsec_elapsed:
  assumes "shows_time clock T" and "T 0 \<le> T n"
  shows "nsec_ahead (snd (clock 0)) (snd (clock n)) < snd (clock 0) + 100000000 \<longleftrightarrow>
    (T n - T 0) mod 10 ^ 9 < 10 ^ 8"
proof -
  define a where "a = T 0 mod 10 ^ 9"
  define b where "b = T n mod 10 ^ 9"
  have ab: "a < 10 ^ 9" "b < 10 ^ 9" by (simp_all add: a_def b_def)
  have clk: "snd (clock 0) = word_of_nat a" "snd (clock n) = word_of_nat b"
    using assms(1) by (simp_all add: shows_time_def a_def b_def)
  have u: "unat (word_of_nat x :: u64) = x" if "x < 10 ^ 10" for x
    using that by (simp add: unsigned_of_nat take_bit_nat_eq_self)
  have "(T n - T 0) mod 10 ^ 9 = (if b < a then b + 10 ^ 9 - a else b - a)"
  proof -
    have "int ((T n - T 0) mod 10 ^ 9) = (int (T n) - int (T 0)) mod 10 ^ 9"
      using assms(2) by (simp add: zmod_int of_nat_diff)
    also have "\<dots> = (int b - int a) mod 10 ^ 9"
      by (simp add: a_def b_def zmod_int mod_simps)
    also have "\<dots> = int (if b < a then b + 10 ^ 9 - a else b - a)"
    proof (cases "b < a")
      case True
      have "(int b - int a) mod 10 ^ 9 = (int b - int a + 10 ^ 9) mod 10 ^ 9" by simp
      also have "\<dots> = int b - int a + 10 ^ 9" using True ab by (intro mod_pos_pos_trivial) auto
      finally show ?thesis using True ab by (simp add: of_nat_diff)
    next
      case False
      then show ?thesis using ab by (simp add: of_nat_diff)
    qed
    finally show ?thesis by simp
  qed
  moreover have "(word_of_nat b :: u64) < word_of_nat a \<longleftrightarrow> b < a"
    using ab by (simp add: word_less_nat_alt u)
  moreover have "word_of_nat a + 100000000 = (word_of_nat (a + 10 ^ 8) :: u64)"
    "word_of_nat b + 1000000000 = (word_of_nat (b + 10 ^ 9) :: u64)" by simp_all
  moreover have "(word_of_nat x :: u64) < word_of_nat (a + 10 ^ 8) \<longleftrightarrow> x < a + 10 ^ 8" if "x < 10 ^ 10" for x
    using ab that u [of x] u [of "a + 10 ^ 8"] by (simp add: word_less_nat_alt del: of_nat_add)
  ultimately show ?thesis
    using ab by (auto simp: clk nsec_ahead_def simp del: of_nat_add)
qed

text \<open>The calibration of \<^verbatim>\<open>rtdsc.h\<close>, with a clock in microseconds: at least one whole second.\<close>

lemma cpu_calibration:
  assumes clk: "\<And>n. usec (clock n) = word_of_nat (T n)" and range: "\<And>n. T n + 10 ^ 6 < 2 ^ 64"
    and gap: "\<And>n. T (Suc n) < T n + g" and "T 0 + 10 ^ 6 \<le> T k"
    and tsc: "\<And>n. tsc n = word_of_nat (f * T n)"
  shows "\<exists>e. 10 ^ 6 \<le> e \<and> e < 10 ^ 6 + g \<and> get_cpu_cycle_per_sec clock tsc = Some (word_of_nat (f * e))"
proof -
  define n where "n = (LEAST n. T 0 + 10 ^ 6 \<le> T n)"
  have n: "T 0 + 10 ^ 6 \<le> T n" unfolding n_def using assms(4) by (rule LeastI)
  have before: "T i < T 0 + 10 ^ 6" if "i < n" for i
    using not_less_Least [of i "\<lambda>n. T 0 + 10 ^ 6 \<le> T n"] that by (simp add: n_def)
  have "n \<noteq> 0" using n by (cases n) auto
  then obtain m where m: "n = Suc m" by (cases n) auto
  have e: "T n - T 0 < 10 ^ 6 + g" using gap [of m] before [of m] n by (simp add: m)
  have less: "usec (clock i) < usec (clock 0) + 1000000 \<longleftrightarrow> T i < T 0 + 10 ^ 6" for i
  proof -
    have "usec (clock 0) + 1000000 = (word_of_nat (T 0 + 10 ^ 6) :: u64)" by (simp add: clk)
    moreover have "unat (word_of_nat x :: u64) = x" if "x < 2 ^ 64" for x
      using that by (simp add: unsigned_of_nat take_bit_nat_eq_self)
    ultimately show ?thesis
      using range [of i] range [of 0] by (simp add: clk word_less_nat_alt del: of_nat_add)
  qed
  have "wait_usec clock (usec (clock 0)) 1 = Some n"
    by (rule wait_usec_first) (use n before in \<open>auto simp: less m\<close>)
  moreover have "f * T n = f * T 0 + f * (T n - T 0)"
    using n by (simp add: diff_mult_distrib2)
  then have "tsc n - tsc 0 = word_of_nat (f * (T n - T 0))" unfolding tsc by simp
  ultimately have "get_cpu_cycle_per_sec clock tsc = Some (word_of_nat (f * (T n - T 0)))"
    by (simp add: get_cpu_cycle_per_sec_def Let_def)
  moreover have "10 ^ 6 \<le> T n - T 0" using n by simp
  ultimately show ?thesis using e by blast
qed

section \<open>Properties\<close>

text \<open>C37: With a clock that shows a time that never runs backwards and is read again within less
  than nine tenths of a second, the calibration of \<^verbatim>\<open>rdtsc.h\<close> ends, also across the turn of a
  second, at the first reading that is a tenth of a second or more after the first; with a counter
  that runs at \<open>f\<close> cycles per nanosecond it returns ten times the cycles of that interval, which
  is at most one clock reading longer than a tenth of a second.\<close>

theorem rdtsc_calibration:
  assumes "shows_time clock T" and mono: "\<And>n. T n \<le> T (Suc n)" and gap: "\<And>n. T (Suc n) < T n + g"
    and "g \<le> 9 * 10 ^ 8" and "T 0 + 10 ^ 8 \<le> T k" and tsc: "\<And>n. tsc n = word_of_nat (f * T n)"
  shows "\<exists>e. 10 ^ 8 \<le> e \<and> e < 10 ^ 8 + g \<and>
    get_rdtsc_cycle_per_sec clock tsc = Some (word_of_nat (10 * (f * e)))"
proof -
  define n where "n = (LEAST n. T 0 + 10 ^ 8 \<le> T n)"
  have n: "T 0 + 10 ^ 8 \<le> T n" unfolding n_def using assms(5) by (rule LeastI)
  have before: "T i < T 0 + 10 ^ 8" if "i < n" for i
    using not_less_Least [of i "\<lambda>n. T 0 + 10 ^ 8 \<le> T n"] that by (simp add: n_def)
  have up: "T 0 \<le> T i" for i by (induction i) (use mono order.trans in blast)+
  have "n \<noteq> 0" using n by (cases n) auto
  then obtain m where m: "n = Suc m" by (cases n) auto
  have e: "T n - T 0 < 10 ^ 8 + g" using gap [of m] before [of m] up [of m] by (simp add: m)
  have "wait_nsec clock (snd (clock 0)) 1 = Some n"
  proof (rule wait_nsec_first)
    have "(T n - T 0) mod 10 ^ 9 = T n - T 0" using e assms(4) by simp
    then show "\<not> nsec_ahead (snd (clock 0)) (snd (clock n)) < snd (clock 0) + 100000000"
      using nsec_elapsed [OF assms(1) up] n by simp
    show "1 \<le> n" by (simp add: m)
    fix i
    assume "i < n"
    then have "T i - T 0 < 10 ^ 8" using before [of i] up [of i] by simp
    then have "(T i - T 0) mod 10 ^ 9 < 10 ^ 8" by simp
    then show "nsec_ahead (snd (clock 0)) (snd (clock i)) < snd (clock 0) + 100000000"
      using nsec_elapsed [OF assms(1) up [of i]] by simp
  qed
  moreover have "f * T n = f * T 0 + f * (T n - T 0)"
    using up [of n] by (simp add: diff_mult_distrib2)
  then have "tsc n - tsc 0 = word_of_nat (f * (T n - T 0))" unfolding tsc by simp
  then have "(tsc n - tsc 0) * 10 = word_of_nat (10 * (f * (T n - T 0)))" by simp
  ultimately have "get_rdtsc_cycle_per_sec clock tsc = Some (word_of_nat (10 * (f * (T n - T 0))))"
    by (simp add: get_rdtsc_cycle_per_sec_def Let_def)
  moreover have "10 ^ 8 \<le> T n - T 0" using n by simp
  ultimately show ?thesis using e by blast
qed

theorem rdtsc_calibration_witness:
  "\<exists>e. 10 ^ 8 \<le> e \<and> e < 10 ^ 8 + 100001 \<and> get_rdtsc_cycle_per_sec
     (\<lambda>n. (word_of_nat ((999950000 + n * 100000) div 10 ^ 9), word_of_nat ((999950000 + n * 100000) mod 10 ^ 9)))
     (\<lambda>n. word_of_nat (3 * (999950000 + n * 100000))) = Some (word_of_nat (10 * (3 * e)))"
  by (rule rdtsc_calibration [where T = "\<lambda>n. 999950000 + n * 100000" and k = 1000])
    (simp_all add: shows_time_def)

text \<open>The report fails (a division by zero) exactly when the calibrated rate is zero; otherwise
  the number of nanoseconds it prints is the exact quotient if and only if the product of the
  cycles and 10^9 fits in 64 bits, that is, for intervals below 18446744074 cycles.\<close>

theorem print_time_exact_iff:
  "case print_time_sec cps tw of
     None \<Rightarrow> cps = 0
   | Some (mhz, hz, ns, cycles) \<Rightarrow> cps \<noteq> 0 \<and> hz = cps \<and> cycles = tw_end tw - tw_start tw \<and>
       (unat ns = unat cycles * 10 ^ 9 div unat cps \<longleftrightarrow> unat cycles < 18446744074)"
proof -
  let ?d = "tw_end tw - tw_start tw"
  define c where "c = unat ?d"
  have "unat (?d * 1000000000 div cps) = unat ?d * 10 ^ 9 div unat cps \<longleftrightarrow> unat ?d < 18446744074"
    if "cps \<noteq> 0"
  proof -
    have cps: "0 < unat cps" "unat cps < 2 ^ 64"
      using that unsigned_less [where ?'a = nat and w = cps] by (simp_all add: unat_gt_0)
    have "unat (d * 1000000000 div cps) = unat d * 10 ^ 9 mod 2 ^ 64 div unat cps" for d
      by (simp add: unat_div_distrib unat_word_ariths)
    then have "unat (?d * 1000000000 div cps) = c * 10 ^ 9 mod 2 ^ 64 div unat cps"
      unfolding c_def .
    moreover have "c * 10 ^ 9 mod 2 ^ 64 div unat cps = c * 10 ^ 9 div unat cps \<longleftrightarrow> c * 10 ^ 9 < 2 ^ 64"
    proof
      assume eq: "c * 10 ^ 9 mod 2 ^ 64 div unat cps = c * 10 ^ 9 div unat cps"
      show "c * 10 ^ 9 < 2 ^ 64"
      proof (rule ccontr)
        assume "\<not> c * 10 ^ 9 < 2 ^ 64"
        then have "c * 10 ^ 9 mod 2 ^ 64 + 2 ^ 64 \<le> c * 10 ^ 9"
          by (metis add.commute div_mult_mod_eq le_add_diff_inverse2 less_imp_le mod_less mod_less_divisor
              nat_add_left_cancel_le mult_le_mono1 div_greater_zero_iff Suc_leI mult_1 not_less zero_less_numeral zero_less_power One_nat_def)
        then have "c * 10 ^ 9 mod 2 ^ 64 + unat cps \<le> c * 10 ^ 9" using cps(2) by linarith
        then have "(c * 10 ^ 9 mod 2 ^ 64 + unat cps) div unat cps \<le> c * 10 ^ 9 div unat cps"
          by (rule div_le_mono)
        moreover have "(c * 10 ^ 9 mod 2 ^ 64 + unat cps) div unat cps = c * 10 ^ 9 mod 2 ^ 64 div unat cps + 1"
          using cps(1) by (intro div_add_self2) simp
        ultimately show False using eq by linarith
      qed
    qed simp
    moreover have "c * 10 ^ 9 < 2 ^ 64 \<longleftrightarrow> c < 18446744074" by (rule iffI; simp; linarith)
    ultimately show ?thesis by (simp only: c_def)
  qed
  then show ?thesis by (auto simp: print_time_sec_def)
qed

end
