(* ===== verification/Ip_Checksum.thy ===== *)
theory Ip_Checksum
  imports Prelude
begin

text \<open>
  The two Internet checksums of the repository: the assembly routine \<^verbatim>\<open>ip_fast_csum\<close> of
  \<^verbatim>\<open>src/ip_fast_checksum/ip_fast_checksum.c\<close>, instruction by instruction with the carry flag,
  on a buffer of bytes in which a load out of bounds is \<open>None\<close>, and the loop of
  \<^verbatim>\<open>src/ipsum/ipsum.c\<close>. Both are compared with the checksum of RFC 1071: \<open>is_checksum c S\<close>
  says that \<open>c\<close> is the complement of the ones' complement sum of 16-bit words that add up
  to \<open>S\<close>.
\<close>

section \<open>The assembly routine\<close>

definition load32 :: "u8 list \<Rightarrow> nat \<Rightarrow> u32 option" where
  "load32 buf i = (if i + 4 \<le> length buf then
     Some (word_of_nat (unat (buf ! i) + 2 ^ 8 * unat (buf ! (i + 1)) +
                        2 ^ 16 * unat (buf ! (i + 2)) + 2 ^ 24 * unat (buf ! (i + 3)))) else None)"

text \<open>\<^verbatim>\<open>adcl\<close> (with a clear carry, \<^verbatim>\<open>addl\<close>) and \<^verbatim>\<open>addw\<close>: the result and the carry.\<close>

definition adcl :: "u32 \<Rightarrow> u32 \<Rightarrow> bool \<Rightarrow> u32 \<times> bool" where
  "adcl a b c = (let n = unat a + unat b + (if c then 1 else 0) in (word_of_nat n, 2 ^ 32 \<le> n))"

definition addw :: "u32 \<Rightarrow> u32 \<Rightarrow> u32 \<times> bool" where
  "addw a b = (let n = unat (a AND 0xffff) + unat (b AND 0xffff)
               in ((a AND 0xffff0000) OR word_of_nat (n mod 2 ^ 16), 2 ^ 16 \<le> n))"

text \<open>From label 1 to \<^verbatim>\<open>jne 1b\<close>; \<^verbatim>\<open>lea\<close> and \<^verbatim>\<open>decl\<close> keep the carry.\<close>

function csum_loop :: "u8 list \<Rightarrow> u32 \<Rightarrow> bool \<Rightarrow> nat \<Rightarrow> u32 \<Rightarrow> (u32 \<times> bool) option" where
  "csum_loop buf sm c iph ihl = do {
     w \<leftarrow> load32 buf (iph + 16);
     let (sm, c) = adcl sm w c;
     let iph = iph + 4;
     let ihl = ihl - 1;
     if ihl \<noteq> 0 then csum_loop buf sm c iph ihl else Some (sm, c)
   }"
  by pat_completeness auto
termination
proof (relation "measure (\<lambda>(_, _, _, _, ihl). unat (ihl - 1))", goal_cases)
  case (2 buf sm c iph ihl w x xa y xb xc)
  then have pos: "0 < unat (ihl - 1)" by (simp add: unat_gt_0)
  then have "1 \<le> ihl - 1" unfolding word_le_nat_alt unat_1 by linarith
  then have "unat (ihl - 1 - 1) < unat (ihl - 1)" using pos by (simp only: unat_sub unat_1)
  then show ?case using 2 by simp
qed simp

declare csum_loop.simps [simp del]

definition ip_fast_csum :: "u8 list \<Rightarrow> u32 \<Rightarrow> u16 option" where
  "ip_fast_csum buf ihl = do {
     sm \<leftarrow> load32 buf 0;
     let below = (ihl \<le> 4);
     let ihl = ihl - 4;
     if below then Some (ucast sm)
     else do {
       w1 \<leftarrow> load32 buf 4;
       let (sm, c) = adcl sm w1 False;
       w2 \<leftarrow> load32 buf 8;
       let (sm, c) = adcl sm w2 c;
       w3 \<leftarrow> load32 buf 12;
       let (sm, c) = adcl sm w3 c;
       (sm, c) \<leftarrow> csum_loop buf sm c 0 ihl;
       let (sm, c) = adcl sm 0 c;
       let ihl = sm;
       let sm = drop_bit 16 sm;
       let (sm, c) = addw sm ihl;
       let (sm, c) = adcl sm 0 c;
       let sm = NOT sm;
       Some (ucast sm)
     }
   }"

text \<open>\<^verbatim>\<open>main\<close> fills sixteen bytes with 0 to 15 and passes the size of the buffer as the length.\<close>

definition csum_main :: "u16 option" where
  "csum_main = (let buf = map word_of_nat [0..<16] in ip_fast_csum buf (word_of_nat (length buf)))"

section \<open>The loop of ipsum.c\<close>

definition ipsum_packet :: "u16 list" where
  "ipsum_packet = [0x4500, 0x0400, 0x019b, 0x0000, 0x8011, 0x0000, 0xc0a8, 0x0101, 0xe000, 0x0001]"

definition ipsum :: "u16 list \<Rightarrow> u64" where
  "ipsum packet =
     (let sm = foldl (\<lambda>s w. s + ucast w) 0 packet;
          sm = (sm AND 0xffff) + drop_bit 16 sm
      in sm XOR 0xffff)"

section \<open>The reference\<close>

definition is_checksum :: "u16 \<Rightarrow> nat \<Rightarrow> bool" where
  "is_checksum c S \<longleftrightarrow>
     unat (NOT c) mod 65535 = S mod 65535 \<and> (unat (NOT c) = 0 \<longleftrightarrow> S = 0)"

text \<open>The sum of the 16-bit words of a buffer, in the byte order of the processor.\<close>

fun halves_sum :: "u8 list \<Rightarrow> nat" where
  "halves_sum (a # b # bs) = unat a + 256 * unat b + halves_sum bs"
| "halves_sum [a] = unat a"
| "halves_sum [] = 0"

lemma is_checksum_unique:
  assumes "is_checksum c S" and "is_checksum d S"
  shows "c = d"
proof -
  have lt: "unat (NOT x) < 65536" for x :: u16
    using unsigned_less [where ?'a = nat and w = "NOT x"] by simp
  have "n = m" if "n mod 65535 = m mod 65535" "n = 0 \<longleftrightarrow> m = 0" "n < 65536" "m < 65536" for n m :: nat
    using that by (cases "n = 65535"; cases "m = 65535") auto
  then have "unat (NOT c) = unat (NOT d)"
    using assms lt [of c] lt [of d] unfolding is_checksum_def by metis
  then have "NOT c = NOT d" by (simp only: word_unat_eq_iff)
  then show ?thesis by (metis bit.double_compl)
qed

section \<open>Ones' complement arithmetic\<close>

text \<open>\<open>oc m v S\<close>: \<open>v\<close> is the ones' complement sum of words that add up to \<open>S\<close>, modulo \<open>m\<close>.\<close>

definition oc :: "nat \<Rightarrow> nat \<Rightarrow> nat \<Rightarrow> bool" where
  "oc m v S \<longleftrightarrow> v mod m = S mod m \<and> (v = 0 \<longleftrightarrow> S = 0)"

definition val :: "u32 \<Rightarrow> bool \<Rightarrow> nat" where
  "val s c = unat s + (if c then 1 else 0)"

abbreviation "M32 \<equiv> 4294967295 :: nat"

lemma end_around:
  assumes "0 < B"
  shows "oc (B - 1) (n mod B + n div B) n"
proof -
  have "n = n mod B + (B - 1) * (n div B) + n div B"
    using assms by (metis Suc_diff_1 add.assoc add.commute mod_mult_div_eq mult_Suc)
  then have "(n mod B + n div B) mod (B - 1) = n mod (B - 1)"
    by (metis ab_semigroup_add_class.add_ac(1) add.commute mod_mult_self2)
  moreover have "n = 0" if "n mod B + n div B = 0"
    using div_mult_mod_eq [of n B] that by (metis add_is_0 mult_0)
  ultimately show ?thesis by (auto simp: oc_def)
qed

lemma adcl_oc:
  assumes "adcl a b c = (s, c')" and "oc M32 (val a c) S" and "c \<longrightarrow> unat a < M32"
  shows "oc M32 (val s c') (S + unat b)" and "c' \<longrightarrow> unat s < M32"
proof -
  define n where "n = unat a + unat b + (if c then 1 else 0)"
  have lt: "unat x < 4294967296" for x :: u32
    using unsigned_less [where ?'a = nat and w = x] by simp
  have less: "n < 2 * 4294967296 - 1" using lt [of a] lt [of b] assms(3) by (auto simp: n_def)
  have s: "unat s = n mod 4294967296" and c': "c' \<longleftrightarrow> 4294967296 \<le> n"
    using assms(1) by (auto simp: adcl_def n_def [symmetric] unsigned_of_nat take_bit_eq_mod Let_def)
  have div: "n div 4294967296 = (if c' then 1 else 0)"
    unfolding c' using less by (intro div_nat_eqI) (auto split: if_splits)
  have "oc (4294967296 - 1) (n mod 4294967296 + n div 4294967296) n"
    by (rule end_around) simp
  then have "oc M32 (val s c') n" by (simp add: val_def s div)
  moreover have "n = val a c + unat b" by (simp add: n_def val_def)
  then have "oc M32 n (S + unat b)"
    using assms(2) by (auto simp: oc_def intro: mod_add_cong)
  ultimately show "oc M32 (val s c') (S + unat b)" by (auto simp: oc_def)
  show "c' \<longrightarrow> unat s < M32"
    unfolding s c' using less by (auto simp: mod_if)
qed

section \<open>The routine computes the checksum\<close>

definition word_at :: "u8 list \<Rightarrow> nat \<Rightarrow> nat" where
  "word_at buf i = unat (buf ! i) + 2 ^ 8 * unat (buf ! (i + 1)) +
     2 ^ 16 * unat (buf ! (i + 2)) + 2 ^ 24 * unat (buf ! (i + 3))"

fun wsum :: "u8 list \<Rightarrow> nat \<Rightarrow> nat \<Rightarrow> nat" where
  "wsum buf i 0 = 0"
| "wsum buf i (Suc n) = word_at buf i + wsum buf (i + 4) n"

lemma u8_less: "unat (x :: u8) < 256"
  using unsigned_less [where ?'a = nat and w = x] by simp

lemma four_bytes:
  "a < 256 \<Longrightarrow> b < 256 \<Longrightarrow> c < 256 \<Longrightarrow> d < 256 \<Longrightarrow>
   a + 2 ^ 8 * b + 2 ^ 16 * c + 2 ^ 24 * d < (2 ^ 32 :: nat)"
  by simp

lemma load32_Some: "i + 4 \<le> length buf \<Longrightarrow> \<exists>w. load32 buf i = Some w \<and> unat w = word_at buf i"
proof -
  have "word_at buf i < 2 ^ 32"
    unfolding word_at_def by (intro four_bytes u8_less)
  then have "unat (word_of_nat (word_at buf i) :: u32) = word_at buf i"
    by (simp add: unsigned_of_nat take_bit_nat_eq_self)
  then show "i + 4 \<le> length buf \<Longrightarrow> ?thesis"
    by (simp add: load32_def word_at_def)
qed

lemma csum_loop_oc:
  assumes "ihl \<noteq> 0" and "iph + 16 + 4 * unat ihl \<le> length buf"
    and "oc M32 (val sm c) S" and "c \<longrightarrow> unat sm < M32"
  shows "\<exists>s c'. csum_loop buf sm c iph ihl = Some (s, c') \<and>
    oc M32 (val s c') (S + wsum buf (iph + 16) (unat ihl)) \<and> (c' \<longrightarrow> unat s < M32)"
  using assms
proof (induction buf sm c iph ihl arbitrary: S rule: csum_loop.induct)
  case (1 buf sm c iph ihl)
  have "0 < unat ihl" using "1.prems"(1) by (simp add: unat_gt_0)
  then obtain k where k: "unat ihl = Suc k" by (cases "unat ihl") auto
  with "1.prems"(2) have "iph + 16 + 4 \<le> length buf" by simp
  from load32_Some [OF this] obtain w where
    w: "load32 buf (iph + 16) = Some w" and uw: "unat w = word_at buf (iph + 16)" by blast
  obtain s1 c1 where a: "adcl sm w c = (s1, c1)" by (cases "adcl sm w c")
  note oc1 = adcl_oc [OF a "1.prems"(3,4)]
  have "1 \<le> ihl" using k unfolding word_le_nat_alt by simp
  then have dec: "unat (ihl - 1) = k" using k by (simp add: unat_sub)
  show ?case
  proof (cases "ihl - 1 = 0")
    case True
    then have "k = 0" using dec by simp
    with True w a oc1 k uw show ?thesis
      by (subst csum_loop.simps) simp
  next
    case False
    have "iph + 4 + 16 + 4 * unat (ihl - 1) \<le> length buf" using dec k "1.prems"(2) by simp
    from "1.IH" [OF w refl a [symmetric] refl refl False False this oc1] obtain s c' where
      "csum_loop buf s1 c1 (iph + 4) (ihl - 1) = Some (s, c')"
      "oc M32 (val s c') (S + unat w + wsum buf (iph + 4 + 16) (unat (ihl - 1)))" "c' \<longrightarrow> unat s < M32"
      by blast
    with False w a uw k dec show ?thesis
      by (subst csum_loop.simps) (simp add: ac_simps)
  qed
qed

text \<open>The last seven instructions: fold the 32-bit sum into 16 bits and complement it.\<close>

lemma final_fold:
  assumes "addw (drop_bit 16 s) s = (s1, c1)" and "adcl s1 0 c1 = (s2, c2)"
  shows "oc 65535 (unat (NOT (ucast (NOT s2) :: u16))) (unat s)"
proof -
  have lt: "unat s < 65536 * 65536"
    using unsigned_less [where ?'a = nat and w = s] by simp
  have "unat (drop_bit 16 s) = drop_bit 16 (unat s)" by (rule unat_drop_bit_eq)
  then have d: "unat (drop_bit 16 s) = unat s div 65536" by (simp add: drop_bit_eq_div)
  have low: "unat (w AND 0xffff) = unat w mod 65536" for w :: u32
  proof -
    have "w AND 0xffff = take_bit 16 w" by (simp add: take_bit_eq_mask mask_eq_exp_minus_1)
    then have "unat (w AND 0xffff) = take_bit 16 (unat w)" by (simp only: unsigned_take_bit_eq)
    then show ?thesis by (simp add: take_bit_eq_mod)
  qed
  have "unat (drop_bit 16 s AND 0xffff) = unat (drop_bit 16 s)"
    using lt unfolding low d by (simp add: less_mult_imp_div_less)
  then have "drop_bit 16 s AND 0xffff = drop_bit 16 s" by (simp only: word_unat_eq_iff)
  then have "drop_bit 16 s AND 0xffff0000 = (drop_bit 16 s AND 0xffff) AND 0xffff0000" by simp
  then have hi: "drop_bit 16 s AND 0xffff0000 = 0" by (simp add: and.assoc)
  define n where "n = unat s mod 65536 + unat s div 65536"
  have "unat (drop_bit 16 s AND 0xffff) + unat (s AND 0xffff) = n"
    using lt unfolding low d n_def by simp
  then have s1: "s1 = word_of_nat (n mod 65536)" and c1: "c1 \<longleftrightarrow> 65536 \<le> n"
    using assms(1) hi by (auto simp: addw_def Let_def)
  have n: "n < 2 * 65536 - 1" using lt unfolding n_def by (simp add: less_mult_imp_div_less)
  have div: "n div 65536 = (if c1 then 1 else 0)"
    unfolding c1 using n by (intro div_nat_eqI) (auto split: if_splits)
  have "unat s1 = n mod 65536"
    unfolding s1 by (simp add: unsigned_of_nat take_bit_nat_eq_self)
  then have s2: "s2 = word_of_nat (n mod 65536 + n div 65536)"
    using assms(2) div by (auto simp: adcl_def Let_def)
  have r: "n mod 65536 + n div 65536 < 65536"
    unfolding div c1 using n by (auto simp: mod_if)
  have "NOT (ucast (NOT s2) :: u16) = ucast s2"
    by (rule bit_word_eqI) (simp add: bit_simps)
  then have "unat (NOT (ucast (NOT s2) :: u16)) = n mod 65536 + n div 65536"
    using r by (simp add: s2 unsigned_ucast_eq unsigned_of_nat take_bit_nat_eq_self del: of_nat_add)
  moreover have "oc (65536 - 1) (n mod 65536 + n div 65536) n" by (rule end_around) simp
  moreover have "oc (65536 - 1) n (unat s)" unfolding n_def by (rule end_around) simp
  ultimately show ?thesis by (simp add: oc_def)
qed

lemma wsum_halves:
  "i + 4 * n \<le> length buf \<Longrightarrow> oc 65535 (wsum buf i n) (halves_sum (take (4 * n) (drop i buf)))"
proof (induction n arbitrary: i)
  case 0
  then show ?case by (simp add: oc_def)
next
  case (Suc n)
  let ?b = "\<lambda>j. unat (buf ! (i + j))"
  have "drop i buf = buf ! i # buf ! (i + 1) # buf ! (i + 2) # buf ! (i + 3) # drop (i + 4) buf"
    using Suc.prems by (simp add: Cons_nth_drop_Suc numeral_eq_Suc)
  moreover have "4 * Suc n = Suc (Suc (Suc (Suc (4 * n))))" by simp
  ultimately have "take (4 * Suc n) (drop i buf) =
      buf ! i # buf ! (i + 1) # buf ! (i + 2) # buf ! (i + 3) # take (4 * n) (drop (i + 4) buf)"
    by (simp only: take_Suc_Cons)
  then have hs: "halves_sum (take (4 * Suc n) (drop i buf)) =
      ?b 0 + 256 * ?b 1 + (?b 2 + 256 * ?b 3) + halves_sum (take (4 * n) (drop (i + 4) buf))"
    by simp
  have "oc 65535 (word_at buf i) (?b 0 + 256 * ?b 1 + (?b 2 + 256 * ?b 3))"
  proof -
    have "word_at buf i = ?b 0 + 256 * ?b 1 + (?b 2 + 256 * ?b 3) + 65535 * (?b 2 + 256 * ?b 3)"
      by (simp add: word_at_def)
    then have "word_at buf i mod 65535 = (?b 0 + 256 * ?b 1 + (?b 2 + 256 * ?b 3)) mod 65535"
      by (simp only: mod_mult_self2)
    moreover have "word_at buf i = 0 \<longleftrightarrow> ?b 0 + 256 * ?b 1 + (?b 2 + 256 * ?b 3) = 0"
      by (auto simp: word_at_def)
    ultimately show ?thesis by (simp add: oc_def)
  qed
  with Suc.IH [of "i + 4"] Suc.prems show ?case
    unfolding hs by (auto simp: oc_def intro: mod_add_cong)
qed

lemma oc_trans: "oc m a b \<Longrightarrow> oc m b c \<Longrightarrow> oc m a c"
  by (simp add: oc_def)

lemma oc_M32: "oc M32 a b \<Longrightarrow> oc 65535 a b"
proof -
  assume "oc M32 a b"
  then have "a mod M32 mod 65535 = b mod M32 mod 65535" "a = 0 \<longleftrightarrow> b = 0" by (auto simp: oc_def)
  then show ?thesis by (simp add: oc_def mod_mod_cancel)
qed

lemma adcl_zero:
  assumes "adcl s 0 c = (t, ct)" and "c \<longrightarrow> unat s < M32"
  shows "unat t = val s c"
proof -
  have "val s c < 4294967296"
    using assms(2) unsigned_less [where ?'a = nat and w = s] by (auto simp: val_def)
  then show ?thesis
    using assms(1) by (auto simp: adcl_def val_def Let_def unsigned_of_nat take_bit_nat_eq_self
        simp del: of_nat_add of_nat_Suc split: if_splits)
qed

lemma ip_fast_csum_correct:
  assumes "4 < ihl" and "4 * unat ihl \<le> length buf"
  shows "\<exists>c. ip_fast_csum buf ihl = Some c \<and> is_checksum c (halves_sum (take (4 * unat ihl) buf))"
proof -
  have ihl: "4 < unat ihl" using assms(1) by (simp add: word_less_nat_alt)
  then have "4 \<le> ihl" by (simp add: word_le_nat_alt)
  then have dec: "unat (ihl - 4) = unat ihl - 4" by (simp add: unat_sub)
  have nz: "ihl - 4 \<noteq> 0" using assms(1) by auto
  obtain w0 w1 w2 w3 where w: "load32 buf 0 = Some w0" "load32 buf 4 = Some w1"
      "load32 buf 8 = Some w2" "load32 buf 12 = Some w3"
    and u: "unat w0 = word_at buf 0" "unat w1 = word_at buf 4" "unat w2 = word_at buf 8" "unat w3 = word_at buf 12"
    using load32_Some [of 0 buf] load32_Some [of 4 buf] load32_Some [of 8 buf] load32_Some [of 12 buf]
      ihl assms(2) by auto
  obtain s1 c1 s2 c2 s3 c3 where a: "adcl w0 w1 False = (s1, c1)" "adcl s1 w2 c1 = (s2, c2)" "adcl s2 w3 c2 = (s3, c3)"
    by (metis prod.exhaust)
  have "oc M32 (val w0 False) (unat w0)" by (simp add: oc_def val_def)
  note o1 = adcl_oc [OF a(1) this] note o2 = adcl_oc [OF a(2) o1] note o3 = adcl_oc [OF a(3) o2]
  have "0 + 16 + 4 * unat (ihl - 4) \<le> length buf" using dec ihl assms(2) by simp
  from csum_loop_oc [OF nz this o3] obtain s c where loop: "csum_loop buf s3 c3 0 (ihl - 4) = Some (s, c)"
    and oc: "oc M32 (val s c) (unat w0 + unat w1 + unat w2 + unat w3 + wsum buf 16 (unat ihl - 4))"
      "c \<longrightarrow> unat s < M32"
    by (auto simp: dec)
  obtain t ct x1 d1 x2 d2 where t: "adcl s 0 c = (t, ct)" "addw (drop_bit 16 t) t = (x1, d1)"
    "adcl x1 0 d1 = (x2, d2)" by (metis prod.exhaust)
  have "ip_fast_csum buf ihl = Some (ucast (NOT x2))"
    using assms(1) w a loop t by (simp add: ip_fast_csum_def not_le [symmetric])
  moreover have "unat w0 + unat w1 + unat w2 + unat w3 + wsum buf 16 (unat ihl - 4) = wsum buf 0 (unat ihl)"
  proof -
    have "unat ihl = Suc (Suc (Suc (Suc (unat ihl - 4))))" using ihl by simp
    moreover define k where "k = unat ihl - 4"
    ultimately have "unat ihl = Suc (Suc (Suc (Suc k)))" by simp
    then show ?thesis by (simp add: u)
  qed
  then have "oc 65535 (unat t) (wsum buf 0 (unat ihl))"
    using oc(1) adcl_zero [OF t(1) oc(2)] oc_M32 by simp
  moreover have "oc 65535 (wsum buf 0 (unat ihl)) (halves_sum (take (4 * unat ihl) buf))"
    using wsum_halves [of 0 "unat ihl" buf] assms(2) by simp
  ultimately show ?thesis
    using final_fold [OF t(2,3)] oc_trans by (auto simp: is_checksum_def oc_def)
qed

section \<open>Properties\<close>

text \<open>C30: For a length above four words that lies within the buffer, \<open>ip_fast_csum\<close> returns the
  checksum of RFC 1071 of exactly that many words, and no other value satisfies that specification.\<close>

theorem ip_fast_csum_rfc1071:
  assumes "4 < ihl" and "4 * unat ihl \<le> length buf"
  shows "ip_fast_csum buf ihl = Some c \<longleftrightarrow> is_checksum c (halves_sum (take (4 * unat ihl) buf))"
  using ip_fast_csum_correct [OF assms] is_checksum_unique by (metis option.inject)

definition ipsum_header :: "u8 list" where
  "ipsum_header = [0x45, 0x00, 0x04, 0x00, 0x01, 0x9b, 0x00, 0x00, 0x80, 0x11, 0x00, 0x00,
                   0xc0, 0xa8, 0x01, 0x01, 0xe0, 0x00, 0x00, 0x01]"

theorem ip_fast_csum_rfc1071_witness:
  "ip_fast_csum ipsum_header 5 = Some 0xA793"
proof -
  have "4 * unat (5 :: u32) = 20" by simp
  then have "is_checksum 0xA793 (halves_sum (take (4 * unat (5 :: u32)) ipsum_header))"
    by (simp add: ipsum_header_def is_checksum_def)
  then show ?thesis
    using ip_fast_csum_rfc1071 [of 5 ipsum_header "0xA793"] by (simp add: ipsum_header_def)
qed

text \<open>The routine faults exactly when the words it is asked for are not all in the buffer.\<close>

lemma load32_bound: "load32 buf i = Some w \<Longrightarrow> i + 4 \<le> length buf"
  by (simp add: load32_def split: if_splits)

lemma csum_loop_bound:
  "csum_loop buf sm c iph ihl = Some r \<Longrightarrow> ihl \<noteq> 0 \<Longrightarrow> iph + 16 + 4 * unat ihl \<le> length buf"
proof (induction buf sm c iph ihl rule: csum_loop.induct)
  case (1 buf sm c iph ihl)
  from "1.prems"(1) obtain w where w: "load32 buf (iph + 16) = Some w"
    by (subst (asm) csum_loop.simps) (auto simp: bind_eq_Some_conv)
  obtain s1 c1 where a: "adcl sm w c = (s1, c1)" by (cases "adcl sm w c")
  have "1 \<le> ihl" using "1.prems"(2) unfolding word_le_nat_alt by (simp add: unat_gt_0 Suc_le_eq)
  then have dec: "unat ihl = Suc (unat (ihl - 1))" by (simp add: unat_sub word_le_nat_alt)
  show ?case
  proof (cases "ihl - 1 = 0")
    case True
    then show ?thesis using load32_bound [OF w] dec by simp
  next
    case False
    with "1.prems"(1) w a have "csum_loop buf s1 c1 (iph + 4) (ihl - 1) = Some r"
      by (subst (asm) csum_loop.simps) simp
    from "1.IH" [OF w refl a [symmetric] refl refl False this False] show ?thesis
      unfolding dec by simp
  qed
qed

lemma ip_fast_csum_bound:
  assumes "ip_fast_csum buf ihl = Some c" and "4 < ihl"
  shows "4 * unat ihl \<le> length buf"
proof -
  have le: "4 \<le> ihl" and nz: "ihl - 4 \<noteq> 0" using assms(2) by auto
  from assms obtain sm c' r where "csum_loop buf sm c' 0 (ihl - 4) = Some r"
    by (simp add: ip_fast_csum_def bind_eq_Some_conv not_le [symmetric] case_prod_beta Let_def) blast
  from csum_loop_bound [OF this nz] show ?thesis using le by (simp add: unat_sub word_le_nat_alt)
qed

lemma ip_fast_csum_short:
  "ihl \<le> 4 \<Longrightarrow> ip_fast_csum buf ihl = map_option ucast (load32 buf 0)"
  by (cases "load32 buf 0") (simp_all add: ip_fast_csum_def)


section \<open>The two programs agree\<close>

definition net_bytes :: "u16 list \<Rightarrow> u8 list" where
  "net_bytes ws = concat (map (\<lambda>w. [ucast (drop_bit 8 w), ucast w]) ws)"

definition bswap16 :: "u16 \<Rightarrow> u16" where
  "bswap16 w = push_bit 8 w OR drop_bit 8 w"

lemma u16_less: "unat (w :: u16) < 65536"
  using unsigned_less [where ?'a = nat and w = w] by simp

lemma unat_drop8: "unat (drop_bit 8 (w :: u16)) = unat w div 256"
  by (subst unat_drop_bit_eq) (simp add: drop_bit_eq_div)

lemma u16_bytes:
  "unat (ucast (drop_bit 8 w) :: u8) = unat (w :: u16) div 256" "unat (ucast w :: u8) = unat w mod 256"
proof -
  show "unat (ucast (drop_bit 8 w) :: u8) = unat w div 256"
    using u16_less [of w] by (simp only: unsigned_ucast_eq take_bit_eq_mod unat_drop8) simp
  show "unat (ucast w :: u8) = unat w mod 256"
    by (simp add: unsigned_ucast_eq take_bit_eq_mod)
qed

lemma bswap16_unat: "unat (bswap16 w) = unat w div 256 + 256 * (unat w mod 256)"
proof -
  have "bswap16 w = push_bit 8 w + drop_bit 8 w"
    unfolding bswap16_def
    by (rule disjunctive_add [symmetric]) (auto simp: bit_simps dest: bit_imp_le_length)
  moreover have "unat (push_bit 8 w) = 256 * (unat w mod 256)"
    by (simp add: push_bit_eq_mult unat_word_ariths mult_mod_right mult.commute)
  moreover have "unat (drop_bit 8 w) = unat w div 256"
    by (rule unat_drop8)
  moreover have "256 * (unat w mod 256) + unat w div 256 < 2 ^ 16"
  proof -
    have "unat w mod 256 < 256" and "unat w div 256 < 256"
      using u16_less [of w] by (simp_all add: less_mult_imp_div_less)
    then show ?thesis by simp
  qed
  ultimately show ?thesis by (simp add: unat_word_ariths)
qed

lemma bswap16_mod: "unat (bswap16 w) mod 65535 = 256 * unat w mod 65535"
proof -
  have "256 * unat w = 256 * (256 * (unat w div 256) + unat w mod 256)" by simp
  also have "\<dots> = unat (bswap16 w) + 65535 * (unat w div 256)"
    unfolding bswap16_unat by (simp only: distrib_left)
  finally show ?thesis by simp
qed

lemma bswap16_zero: "unat (bswap16 w) = 0 \<longleftrightarrow> unat w = 0"
  unfolding bswap16_unat using div_mult_mod_eq [of "unat w" 256] by auto

lemma bswap16_not: "NOT (bswap16 w) = bswap16 (NOT w)"
  unfolding bswap16_def
  by (rule bit_word_eqI) (auto simp: bit_simps dest: bit_imp_le_length)

lemma net_bytes_length [simp]: "length (net_bytes ws) = 2 * length ws"
  by (induction ws) (simp_all add: net_bytes_def)

lemma net_bytes_sum: "halves_sum (net_bytes ws) = sum_list (map (\<lambda>w. unat (bswap16 w)) ws)"
proof (induction ws)
  case (Cons w ws)
  then show ?case
    by (simp only: net_bytes_def list.map concat.simps append_Cons append_Nil halves_sum.simps
        sum_list.Cons u16_bytes(1)) (simp only: u16_bytes(2) bswap16_unat)
qed (simp add: net_bytes_def)

lemma net_bytes_oc:
  "halves_sum (net_bytes ws) mod 65535 = 256 * sum_list (map unat ws) mod 65535 \<and>
   (halves_sum (net_bytes ws) = 0 \<longleftrightarrow> sum_list (map unat ws) = 0)"
  unfolding net_bytes_sum
proof (induction ws)
  case (Cons w ws)
  have "(unat (bswap16 w) + sum_list (map (\<lambda>w. unat (bswap16 w)) ws)) mod 65535 =
      (256 * unat w + 256 * sum_list (map unat ws)) mod 65535"
    using bswap16_mod [of w] Cons by (intro mod_add_cong) auto
  with Cons show ?case
    by (simp only: list.map sum_list.Cons distrib_left add_is_0 bswap16_zero)
qed simp

lemma is_checksum_net:
  assumes "is_checksum c (sum_list (map unat ws))"
  shows "is_checksum (bswap16 c) (halves_sum (net_bytes ws))"
proof -
  have "256 * unat (NOT c) mod 65535 = 256 * sum_list (map unat ws) mod 65535"
    using assms unfolding is_checksum_def by (intro mod_mult_cong) auto
  then show ?thesis
    using assms net_bytes_oc [of ws]
    by (simp add: is_checksum_def bswap16_not bswap16_mod bswap16_zero)
qed

lemma ipsum_sum:
  "unat a + 65536 * length ws < 2 ^ 64 \<Longrightarrow>
   unat (foldl (\<lambda>s w. s + ucast (w :: u16)) (a :: u64) ws) = unat a + sum_list (map unat ws)"
proof (induction ws arbitrary: a)
  case (Cons w ws)
  have "unat (ucast w :: u64) = unat w" by (simp add: unsigned_ucast_eq take_bit_eq_mod) (use u16_less [of w] in simp)
  then have "unat (a + ucast w) = unat a + unat w"
    using Cons.prems u16_less [of w] by (simp add: unat_word_ariths)
  then show ?case using Cons u16_less [of w] by simp
qed simp

lemma ipsum_value:
  assumes "length ws < 2 ^ 40"
  defines "S \<equiv> sum_list (map unat ws)"
  defines "n \<equiv> S mod 65536 + S div 65536"
  shows "ipsum ws < 0x10000 \<longleftrightarrow> n < 65536"
    and "n < 65536 \<Longrightarrow> is_checksum (ucast (ipsum ws)) S"
proof -
  define s where "s = foldl (\<lambda>s w. s + ucast w) (0 :: u64) ws"
  define x where "x = (s AND 0xffff) + drop_bit 16 s"
  have s: "unat s = S" using ipsum_sum [of 0 ws] assms(1) by (simp add: s_def S_def)
  then have S: "S < 2 ^ 64" using unsigned_less [where ?'a = nat and w = s] by simp
  have "s AND 0xffff = take_bit 16 s" by (simp add: take_bit_eq_mask mask_eq_exp_minus_1)
  then have "unat (s AND 0xffff) = take_bit 16 (unat s)" by (simp only: unsigned_take_bit_eq)
  then have "unat (s AND 0xffff) = S mod 65536" by (simp add: s take_bit_eq_mod)
  moreover have "unat (drop_bit 16 s) = S div 65536"
    by (subst unat_drop_bit_eq) (simp add: s drop_bit_eq_div)
  moreover have "n < 2 ^ 64" using S unfolding n_def by simp
  ultimately have x: "unat x = n" by (simp add: x_def n_def unat_word_ariths)
  have ip: "ipsum ws = x XOR 0xffff" by (simp add: ipsum_def x_def s_def Let_def)
  have high: "y < 0x10000 \<longleftrightarrow> drop_bit 16 y = 0" for y :: u64
  proof -
    have "drop_bit 16 y = 0 \<longleftrightarrow> unat (drop_bit 16 y) = 0" by (simp only: unat_eq_0)
    also have "\<dots> \<longleftrightarrow> unat y < 65536" by (subst unat_drop_bit_eq) (auto simp: drop_bit_eq_div div_eq_0_iff)
    finally show ?thesis by (simp add: word_less_nat_alt)
  qed
  have "ipsum ws < 0x10000 \<longleftrightarrow> x < 0x10000"
    unfolding high ip by (simp add: drop_bit_xor)
  then show "ipsum ws < 0x10000 \<longleftrightarrow> n < 65536" by (simp add: word_less_nat_alt x)
  assume n: "n < 65536"
  have "NOT (ucast (ipsum ws)) = (ucast x :: u16)"
  proof -
    have "ipsum ws = x XOR mask 16" unfolding ip by (simp add: mask_eq_exp_minus_1)
    then show ?thesis by (intro bit_word_eqI) (auto simp: bit_simps)
  qed
  then have "unat (NOT (ucast (ipsum ws) :: u16)) = n"
    using n by (simp add: unsigned_ucast_eq x take_bit_eq_mod)
  moreover have "oc (65536 - 1) n S" unfolding n_def by (rule end_around) simp
  ultimately show "is_checksum (ucast (ipsum ws)) S" by (auto simp: is_checksum_def oc_def)
qed



end
