(* ===== verification/Ip_Lookup.thy ===== *)
theory Ip_Lookup
  imports Genpipe_Counters
begin

text \<open>
  The route lookup test \<^verbatim>\<open>src/cuda_iplookup/cuda_iplookup.cu\<close>: \<^verbatim>\<open>load_fib\<close> reads a text of
  prefixes, \<^verbatim>\<open>mapping_fib\<close> spreads them over a table with an entry for every 24-bit prefix,
  and the host and the graphics processor look addresses up in it. The table and the numbers
  \<^verbatim>\<open>rand\<close> delivers are functions; \<^verbatim>\<open>fib\<close> has room for a million entries. \<open>None\<close> is a run that
  never ends, writes past an array, or overflows an int.
\<close>

record fib_entry =
  ip :: u32
  subnet :: u8
  gw :: u8

section \<open>Loading the prefixes\<close>

text \<open>
  One \<^verbatim>\<open>%d\<close> and what is left of the stream: a sign without digits is consumed, any other
  character that does not fit stays. Numbers are cut to 32 bits.
\<close>

definition scan_field :: "string \<Rightarrow> u32 option \<times> string" where
  "scan_field s =
     (let s1 = dropWhile is_space s;
          (neg, s2) = (case s1 of c # r \<Rightarrow> if c = CHR ''-'' then (True, r) else if c = CHR ''+'' then (False, r)
                         else (False, s1) | [] \<Rightarrow> (False, s1));
          ds = takeWhile is_digit s2
      in if ds = [] then (None, s2)
         else (Some (if neg then - word_of_nat (digits_val ds) else word_of_nat (digits_val ds)),
               dropWhile is_digit s2))"

text \<open>The fields separated by the given characters, up to the first that does not match.\<close>

fun scan_fields :: "string \<Rightarrow> string \<Rightarrow> u32 list \<times> string" where
  "scan_fields [] s = (case scan_field s of (None, r) \<Rightarrow> ([], r) | (Some v, r) \<Rightarrow> ([v], r))"
| "scan_fields (sep # seps) s =
     (case scan_field s of
        (None, r) \<Rightarrow> ([], r)
      | (Some v, []) \<Rightarrow> ([v], [])
      | (Some v, c # r) \<Rightarrow>
          if c = sep then (let (vs, r') = scan_fields seps r in (v # vs, r')) else ([v], c # r))"

definition MAX_ROUTING_TABLE :: nat where
  "MAX_ROUTING_TABLE = 1000000"

text \<open>The five locals keep the values a failed scan does not assign.\<close>

definition new_entry :: "u32 list \<Rightarrow> u32 \<Rightarrow> fib_entry" where
  "new_entry loc r = \<lparr>ip = push_bit 24 (loc ! 0) OR push_bit 16 (loc ! 1) OR push_bit 8 (loc ! 2) OR loc ! 3,
     subnet = ucast (loc ! 4), gw = ucast (r AND 0xff)\<rparr>"

partial_function (option) load_loop ::
  "(nat \<Rightarrow> u32) \<Rightarrow> string \<Rightarrow> u32 list \<Rightarrow> fib_entry list \<Rightarrow> fib_entry list option" where
  "load_loop rand s loc fib =
     (if dropWhile is_space s = [] then Some fib
      else
        let (vs, s) = scan_fields ''.../'' s; loc = vs @ drop (length vs) loc in
        if 255 <s loc ! 0 \<or> 24 <s loc ! 4 then load_loop rand s loc fib
        else if MAX_ROUTING_TABLE \<le> length fib then None
        else load_loop rand s loc (fib @ [new_entry loc (rand (length fib))]))"

text \<open>The locals are not initialised: \<open>junk\<close>.\<close>

definition load_fib :: "(nat \<Rightarrow> u32) \<Rightarrow> u32 list \<Rightarrow> string \<Rightarrow> fib_entry list option" where
  "load_fib rand junk file = load_loop rand file junk []"

section \<open>The table\<close>

definition host_mask :: "nat \<Rightarrow> u32" where
  "host_mask s = push_bit (32 - s) 1 - 1"

definition fill :: "nat \<Rightarrow> nat \<Rightarrow> u8 \<Rightarrow> (nat \<Rightarrow> u32) \<Rightarrow> nat \<Rightarrow> u32" where
  "fill lo hi g table = foldl (\<lambda>t i. t(i mod 2 ^ 24 := ucast g)) table [lo..<hi + 1]"

definition map_entry :: "nat \<Rightarrow> (nat \<Rightarrow> u32) \<Rightarrow> fib_entry \<Rightarrow> nat \<Rightarrow> u32" where
  "map_entry s table e =
     (if unat (subnet e) = s then
        (let ip_start = ip e AND NOT (host_mask s);
             ip_end = ip e OR host_mask s
         in fill (unat (drop_bit 8 ip_start)) (unat (drop_bit 8 ip_end)) (gw e) table)
      else table)"

definition map_subnet :: "fib_entry list \<Rightarrow> (nat \<Rightarrow> u32) \<Rightarrow> nat \<Rightarrow> nat \<Rightarrow> u32" where
  "map_subnet fib table s = foldl (map_entry s) table fib"

definition mapping_fib :: "fib_entry list \<Rightarrow> (nat \<Rightarrow> u32) \<Rightarrow> nat \<Rightarrow> u32" where
  "mapping_fib fib table = foldl (map_subnet fib) table [2..<25]"

section \<open>The lookups\<close>

definition lookup :: "(nat \<Rightarrow> u32) \<Rightarrow> u32 \<Rightarrow> u32" where
  "lookup fib_table addr = fib_table (unat (drop_bit 8 addr))"

definition iplookup_host :: "(nat \<Rightarrow> u32) \<Rightarrow> u32 list \<Rightarrow> u32 list \<Rightarrow> nat \<Rightarrow> u32 list" where
  "iplookup_host fib_table routing_table results routing_count =
     foldl (\<lambda>res i. res[i := lookup fib_table (routing_table ! i)]) results [0..<routing_count]"

text \<open>Products that do not fit an int are undefined.\<close>

definition mul32 :: "nat \<Rightarrow> nat \<Rightarrow> nat option" where
  "mul32 a b = (if a * b < 2 ^ 31 then Some (a * b) else None)"

definition iplookup_gpu ::
  "(nat \<Rightarrow> u32) \<Rightarrow> u32 list \<Rightarrow> nat \<Rightarrow> nat \<Rightarrow> nat \<Rightarrow> u32 list \<Rightarrow> u32 list option" where
  "iplookup_gpu fib_table routing_table routing_count threads idx results = do {
     lo \<leftarrow> mul32 routing_count idx;
     hi \<leftarrow> mul32 routing_count (idx + 1);
     Some (foldl (\<lambda>res i. res[i := lookup fib_table (routing_table ! i)]) results [lo div threads..<hi div threads])
   }"

text \<open>The kernel launch: the threads in the order they happen to run.\<close>

fun launch :: "(nat \<Rightarrow> u32) \<Rightarrow> u32 list \<Rightarrow> nat \<Rightarrow> nat \<Rightarrow> nat list \<Rightarrow> u32 list \<Rightarrow> u32 list option" where
  "launch fib_table routing_table routing_count threads [] results = Some results"
| "launch fib_table routing_table routing_count threads (idx # idxs) results = do {
     results \<leftarrow> iplookup_gpu fib_table routing_table routing_count threads idx results;
     launch fib_table routing_table routing_count threads idxs results
   }"

text \<open>\<^verbatim>\<open>main\<close> with its random addresses: the results of the host.\<close>

definition iplookup_main :: "(nat \<Rightarrow> u32) \<Rightarrow> u32 list \<Rightarrow> string \<Rightarrow> nat \<Rightarrow> u32 list option" where
  "iplookup_main rand junk file routing_count = do {
     fib \<leftarrow> load_fib rand junk file;
     let table = mapping_fib fib (\<lambda>_. 0);
     let routing_table = map (\<lambda>i. push_bit 16 (rand (length fib + i) AND 0xffff)) [0..<routing_count];
     Some (iplookup_host table routing_table (replicate routing_count 0) routing_count)
   }"

section \<open>Which files can be loaded\<close>

lemma scan_field_dec:
  assumes "\<not> is_digit c"
  shows "scan_field (dec n @ c # r) = (Some (word_of_nat n), c # r)"
proof -
  obtain d ds where dn: "dec n = d # ds" using dec_nonempty [of n] by (cases "dec n") blast+
  then have d: "is_digit d" using dec_digits [of n] by simp
  have "dropWhile is_space (dec n @ c # r) = dec n @ c # r"
    using digit_not_space [OF d] by (simp add: dn)
  moreover have "takeWhile is_digit (dec n @ c # r) = dec n" "dropWhile is_digit (dec n @ c # r) = c # r"
    using dec_digits [of n] assms by (auto simp: takeWhile_append dropWhile_append)
  ultimately show ?thesis
    using dec_val [of n] digit_not_space [OF d] by (simp add: scan_field_def dn Let_def)
qed

lemma scan_field_skip: "is_space c \<Longrightarrow> scan_field (c # s) = scan_field s"
  by (simp add: scan_field_def)

text \<open>A prefix as it is written in the file, one to a line.\<close>

type_synonym prefix = "nat \<times> nat \<times> nat \<times> nat \<times> nat"

fun prefix_text :: "prefix \<Rightarrow> string" where
  "prefix_text (a, b, c, d, n) =
     dec a @ ''.'' @ dec b @ ''.'' @ dec c @ ''.'' @ dec d @ ''/'' @ dec n @ [CHR 0x0A]"

definition file_text :: "prefix list \<Rightarrow> string" where
  "file_text ps = concat (map prefix_text ps)"

fun fields :: "prefix \<Rightarrow> u32 list" where
  "fields (a, b, c, d, n) = map word_of_nat [a, b, c, d, n]"

fun accepted :: "prefix \<Rightarrow> bool" where
  "accepted (a, b, c, d, n) \<longleftrightarrow> a \<le> 255 \<and> n \<le> 24"

fun small :: "prefix \<Rightarrow> bool" where
  "small (a, b, c, d, n) \<longleftrightarrow> a < 2 ^ 31 \<and> n < 2 ^ 31"

fun entries :: "(nat \<Rightarrow> u32) \<Rightarrow> nat \<Rightarrow> prefix list \<Rightarrow> fib_entry list" where
  "entries rand k [] = []"
| "entries rand k (p # ps) =
     (if accepted p then new_entry (fields p) (rand k) # entries rand (k + 1) ps else entries rand k ps)"

lemma entries_length: "length (entries rand k ps) = length (filter accepted ps)"
  by (induction ps arbitrary: k) auto

lemma scan_prefix:
  assumes "\<forall>c \<in> set ws. is_space c"
  shows "scan_fields ''.../'' (ws @ prefix_text p @ r) = (fields p, CHR 0x0A # r)"
proof -
  have nd: "\<not> is_digit CHR ''.''" "\<not> is_digit CHR ''/''" "\<not> is_digit CHR 0x0A"
    by (simp_all add: is_digit_def)
  have skip: "scan_field (ws @ s) = scan_field s" for s
    using assms by (induction ws) (simp_all add: scan_field_skip)
  show ?thesis
    by (cases p) (simp add: skip scan_field_dec nd)
qed

lemma sless_255: "n < 2 ^ 31 \<Longrightarrow> k < 2 ^ 31 \<Longrightarrow> (word_of_nat k :: u32) <s word_of_nat n \<longleftrightarrow> k < n"
  by (simp add: word_sless_alt sint_uint unsigned_of_nat take_bit_nat_eq_self signed_take_bit_int_eq_self
      word_sless_eq)

lemma load_loop_line:
  assumes "small p" and "length loc = 5" and "\<forall>c \<in> set ws. is_space c"
    and "accepted p \<Longrightarrow> length fib < MAX_ROUTING_TABLE"
  shows "load_loop rand (ws @ prefix_text p @ s) loc fib = load_loop rand (CHR 0x0A # s) (fields p)
    (if accepted p then fib @ [new_entry (fields p) (rand (length fib))] else fib)"
proof -
  obtain a b c d n where p: "p = (a, b, c, d, n)" by (cases p)
  obtain e es where dn: "dec a = e # es" using dec_nonempty [of a] by (cases "dec a") blast+
  then have "\<not> is_space e" using dec_digits [of a] digit_not_space by simp
  then have "dropWhile is_space (ws @ prefix_text p @ s) \<noteq> []"
    using assms(3) by (simp add: p dn dropWhile_append)
  moreover have "255 <s (word_of_nat a :: u32) \<longleftrightarrow> \<not> a \<le> 255" "24 <s (word_of_nat n :: u32) \<longleftrightarrow> \<not> n \<le> 24"
    using assms(1) sless_255 [of a 255] sless_255 [of n 24] by (simp_all add: p not_le)
  ultimately show ?thesis
    using assms(2,4) scan_prefix [OF assms(3), of p s]
    by (subst load_loop.simps) (auto simp: p Let_def)
qed

lemma load_loop_lines:
  assumes "\<forall>p \<in> set ps. small p" and "length fib + length (filter accepted ps) \<le> MAX_ROUTING_TABLE"
    and "length loc = 5" and "\<forall>c \<in> set ws. is_space c"
  shows "\<exists>loc' ws'. length loc' = 5 \<and> (\<forall>c \<in> set ws'. is_space c) \<and>
    load_loop rand (ws @ file_text ps @ s) loc fib =
      load_loop rand (ws' @ s) loc' (fib @ entries rand (length fib) ps)"
  using assms
proof (induction ps arbitrary: ws loc fib)
  case Nil
  then show ?case by (auto simp: file_text_def)
next
  case (Cons p ps)
  let ?fib = "if accepted p then fib @ [new_entry (fields p) (rand (length fib))] else fib"
  have sp: "small p" and room: "accepted p \<Longrightarrow> length fib < MAX_ROUTING_TABLE"
    using Cons.prems(1,2) by (auto split: if_splits)
  have split: "ws @ file_text (p # ps) @ s = ws @ prefix_text p @ file_text ps @ s"
    by (simp add: file_text_def)
  have one: "load_loop rand (ws @ file_text (p # ps) @ s) loc fib =
      load_loop rand ([CHR 0x0A] @ file_text ps @ s) (fields p) ?fib"
    unfolding split by (subst load_loop_line [OF sp Cons.prems(3,4) room]) simp_all
  have "\<forall>p \<in> set ps. small p" "length ?fib + length (filter accepted ps) \<le> MAX_ROUTING_TABLE"
    "length (fields p) = 5" "\<forall>c \<in> set [CHR 0x0A]. is_space c"
    using Cons.prems(1,2) by (cases p; auto simp: is_space_def split: if_splits)+
  from Cons.IH [OF this] obtain loc' ws' where "length loc' = 5" "\<forall>c \<in> set ws'. is_space c"
    "load_loop rand ([CHR 0x0A] @ file_text ps @ s) (fields p) ?fib =
      load_loop rand (ws' @ s) loc' (?fib @ entries rand (length ?fib) ps)" by blast
  moreover have "?fib @ entries rand (length ?fib) ps = fib @ entries rand (length fib) (p # ps)"
    by simp
  ultimately show ?case unfolding one by metis
qed

text \<open>A text the scan leaves as it is, but for white space, is read for ever.\<close>

lemma load_loop_never:
  assumes stuck: "\<And>t. dropWhile is_space t = X \<Longrightarrow> scan_fields ''.../'' t = ([], X)"
    and "X \<noteq> []" and self: "dropWhile is_space X = X"
  shows "\<forall>t. dropWhile is_space t = X \<longrightarrow> load_loop rand t loc fib = None"
proof -
  have "dropWhile is_space t \<noteq> X" if "load_loop rand t loc fib = Some y" for t y
    using that
  proof (induction rule: load_loop.raw_induct [rotated, consumes 1, case_names 1])
    case (1 f rand t loc fib y)
    show ?case
    proof
      assume t: "dropWhile is_space t = X"
      have "f rand X loc' fib' \<noteq> Some y" for loc' fib'
        using 1(1) self by blast
      with 1(2) assms(2) show False
        by (simp add: t stuck [OF t] del: scan_fields.simps split: if_splits)
    qed
  qed
  then show ?thesis by (metis option.exhaust)
qed

text \<open>A character that cannot start a number is never consumed.\<close>

lemma load_loop_stuck:
  assumes "\<forall>c \<in> set ws. is_space c" and "\<not> is_space c" "\<not> is_digit c" "c \<noteq> CHR ''-''" "c \<noteq> CHR ''+''"
  shows "load_loop rand (ws @ c # s) loc fib = None"
proof -
  have drop: "dropWhile is_space (ws @ c # s) = c # s" if "\<forall>c \<in> set ws. is_space c" for ws
    using that assms(2) by (simp add: dropWhile_append)
  have stuck: "scan_fields ''.../'' t = ([], c # s)" if "dropWhile is_space t = c # s" for t
    using assms(2-) by (simp add: scan_field_def that)
  have self: "dropWhile is_space (c # s) = c # s" using drop [of "[]"] by simp
  have "\<forall>t. dropWhile is_space t = c # s \<longrightarrow> load_loop rand t loc fib = None" for loc fib
    by (rule load_loop_never [where X = "c # s"]) (simp_all only: stuck self, simp_all)
  with drop [OF assms(1)] show ?thesis by simp
qed

lemma load_fib_lines:
  assumes "\<forall>p \<in> set ps. small p" and "length (filter accepted ps) \<le> MAX_ROUTING_TABLE" and "length junk = 5"
  shows "\<exists>loc' ws'. length loc' = 5 \<and> (\<forall>c \<in> set ws'. is_space c) \<and>
    load_fib rand junk (file_text ps @ t) = load_loop rand (ws' @ t) loc' (entries rand 0 ps)"
  using load_loop_lines [OF assms(1) _ assms(3), of "[]" "[]" rand t] assms(2) by (simp add: load_fib_def)

lemma load_fib_text:
  assumes "\<forall>p \<in> set ps. small p" and "length (filter accepted ps) \<le> MAX_ROUTING_TABLE" and "length junk = 5"
  shows "load_fib rand junk (file_text ps) = Some (entries rand 0 ps)"
proof -
  from load_fib_lines [OF assms, of rand "[]"] obtain loc ws where "\<forall>c \<in> set ws. is_space c"
    "load_fib rand junk (file_text ps) = load_loop rand ws loc (entries rand 0 ps)" by auto
  moreover from this(1) have "load_loop rand ws loc fib = Some fib" for fib
    by (subst load_loop.simps) simp
  ultimately show ?thesis by simp
qed

lemma load_fib_stuck:
  assumes "\<forall>p \<in> set ps. small p" and "length (filter accepted ps) \<le> MAX_ROUTING_TABLE" and "length junk = 5"
    and "\<not> is_space c" "\<not> is_digit c" "c \<noteq> CHR ''-''" "c \<noteq> CHR ''+''"
  shows "load_fib rand junk (file_text ps @ c # s) = None"
  using load_fib_lines [OF assms(1-3), of rand "c # s"] load_loop_stuck [OF _ assms(4-7)] by metis



section \<open>The table holds the longest prefix\<close>

text \<open>The prefix \<open>e\<close> covers the 24-bit block \<open>a\<close>; \<open>usable\<close>: lengths 0 and 1 are never entered.\<close>

definition covers :: "fib_entry \<Rightarrow> nat \<Rightarrow> bool" where
  "covers e a \<longleftrightarrow> unat (ip e) div 2 ^ (32 - unat (subnet e)) = a * 256 div 2 ^ (32 - unat (subnet e))"

definition usable :: "nat \<Rightarrow> fib_entry \<Rightarrow> nat \<Rightarrow> bool" where
  "usable n e a \<longleftrightarrow> 2 \<le> unat (subnet e) \<and> unat (subnet e) < n \<and> covers e a"

definition best :: "nat \<Rightarrow> fib_entry list \<Rightarrow> nat \<Rightarrow> nat \<Rightarrow> bool" where
  "best n fib a i \<longleftrightarrow> i < length fib \<and> usable n (fib ! i) a \<and>
     (\<forall>j < length fib. usable n (fib ! j) a \<longrightarrow>
        subnet (fib ! j) < subnet (fib ! i) \<or> subnet (fib ! j) = subnet (fib ! i) \<and> j \<le> i)"

lemma fill_eq: "hi < 2 ^ 24 \<Longrightarrow> fill lo hi g t a = (if lo \<le> a \<and> a \<le> hi then ucast g else t a)"
proof -
  have "foldl (\<lambda>t i. t(i mod 2 ^ 24 := v)) t [lo..<n] a = (if lo \<le> a \<and> a < n then v else t a)"
    if "n \<le> 2 ^ 24" for n and v :: u32
    using that
  proof (induction n)
    case (Suc n)
    then show ?case by (auto simp: less_Suc_eq)
  qed simp
  from this [of "hi + 1"] show "hi < 2 ^ 24 \<Longrightarrow> ?thesis"
    by (auto simp: fill_def less_Suc_eq_le)
qed

lemma host_range:
  fixes w :: u32
  assumes "8 \<le> k" and "k < 32"
  defines "m \<equiv> push_bit k 1 - 1"
  shows "unat (drop_bit 8 (w AND NOT m)) = unat w div 2 ^ k * 2 ^ (k - 8)"
    and "unat (drop_bit 8 (w OR m)) = unat w div 2 ^ k * 2 ^ (k - 8) + (2 ^ (k - 8) - 1)"
proof -
  have m: "m = mask k" by (simp add: m_def mask_eq_exp_minus_1)
  define h :: u32 where "h = push_bit (k - 8) (drop_bit k w)"
  have lo: "drop_bit 8 (w AND NOT m) = h" and hi: "drop_bit 8 (w OR m) = h OR mask (k - 8)"
    unfolding m h_def using assms(1,2)
    by (intro bit_word_eqI; auto simp: bit_simps ac_simps dest: bit_imp_le_length)+
  have "unat w div 2 ^ k * 2 ^ (k - 8) \<le> unat w div 2 ^ k * 2 ^ k"
    by (intro mult_le_mono2 power_increasing) auto
  also have "\<dots> \<le> unat w" by simp
  finally have le: "unat w div 2 ^ k * 2 ^ (k - 8) < 2 ^ 32"
    using unsigned_less [where ?'a = nat and w = w] by simp
  have uh: "unat h = unat w div 2 ^ k * 2 ^ (k - 8)"
    unfolding h_def unsigned_push_bit_eq unat_drop_bit_eq using le
    by (simp add: push_bit_eq_mult drop_bit_eq_div take_bit_nat_eq_self)
  then show "unat (drop_bit 8 (w AND NOT m)) = unat w div 2 ^ k * 2 ^ (k - 8)" by (simp only: lo)
  have um: "unat (mask (k - 8) :: u32) = 2 ^ (k - 8) - 1"
  proof -
    have "(mask (k - 8) :: u32) = word_of_nat (2 ^ (k - 8) - 1)"
      by (simp add: mask_eq_exp_minus_1 of_nat_diff)
    moreover have "(2 :: nat) ^ (k - 8) \<le> 2 ^ 32" using assms(2) by (intro power_increasing) auto
    then have "2 ^ (k - 8) - 1 < (2 :: nat) ^ 32" by (simp add: less_le_trans [OF diff_less])
    ultimately show ?thesis
      by (simp only: unsigned_of_nat) (simp add: take_bit_nat_eq_self)
  qed
  have "h AND mask (k - 8) = 0"
    unfolding h_def by (rule bit_word_eqI) (auto simp: bit_simps)
  then have "h OR mask (k - 8) = h + mask (k - 8)"
    using word_plus_and_or [of h "mask (k - 8)"] by simp
  moreover have "unat w div 2 ^ k * 2 ^ (k - 8) + (2 ^ (k - 8) - 1) < 2 ^ 32"
  proof -
    have "unat w div 2 ^ k < 2 ^ (32 - k)"
      using assms(2) unsigned_less [where ?'a = nat and w = w]
      by (intro less_mult_imp_div_less) (simp add: power_add [symmetric])
    then have "Suc (unat w div 2 ^ k) * 2 ^ (k - 8) \<le> 2 ^ (32 - k) * 2 ^ (k - 8)"
      by (intro mult_le_mono1) simp
    also have "\<dots> = 2 ^ (32 - k + (k - 8))" by (simp add: power_add)
    also have "\<dots> \<le> 2 ^ 32" using assms(1,2) by (intro power_increasing) auto
    finally have "unat w div 2 ^ k * 2 ^ (k - 8) + 2 ^ (k - 8) \<le> 2 ^ 32" by simp
    then show ?thesis by (metis (no_types, lifting) Suc_diff_1 add_Suc_right less_eq_Suc_le zero_less_numeral zero_less_power)
  qed
  ultimately show "unat (drop_bit 8 (w OR m)) = unat w div 2 ^ k * 2 ^ (k - 8) + (2 ^ (k - 8) - 1)"
    by (simp only: hi unat_word_ariths uh um) simp
qed

lemma map_entry_eq:
  assumes "2 \<le> s" and "s < 25" and "a < 2 ^ 24"
  shows "map_entry s t e a = (if unat (subnet e) = s \<and> covers e a then ucast (gw e) else t a)"
proof (cases "unat (subnet e) = s")
  case True
  define q where "q = unat (ip e) div 2 ^ (32 - s)"
  define j where "j = 24 - s"
  have j: "32 - s - 8 = j" "32 - s = j + 8" using assms(2) by (simp_all add: j_def)
  have "8 \<le> 32 - s" "32 - s < 32" using assms(1,2) by simp_all
  note r = host_range [OF this, of "ip e", folded host_mask_def q_def, unfolded j(1)]
  have "q < 2 ^ s"
    unfolding q_def using assms(2) unsigned_less [where ?'a = nat and w = "ip e"]
    by (intro less_mult_imp_div_less) (simp add: power_add [symmetric])
  then have "Suc q * 2 ^ j \<le> 2 ^ s * 2 ^ j" by (intro mult_le_mono1) simp
  also have "\<dots> = 2 ^ 24" using assms(2) by (simp add: power_add [symmetric] j_def)
  finally have hi: "q * 2 ^ j + 2 ^ j \<le> 2 ^ 24" by simp
  have "a * 256 div 2 ^ (32 - s) = a div 2 ^ j"
    unfolding j(2) power_add by (simp add: div_mult_mult1_if mult.commute)
  then have c: "covers e a \<longleftrightarrow> q = a div 2 ^ j" using True by (simp add: covers_def q_def)
  have "q = a div 2 ^ j \<longleftrightarrow> q * 2 ^ j \<le> a \<and> a < q * 2 ^ j + 2 ^ j"
    by (metis add.commute div_nat_eqI div_times_less_eq_dividend dividend_less_div_times mult.commute
        mult_Suc_right zero_less_numeral zero_less_power)
  then have "covers e a \<longleftrightarrow> q * 2 ^ j \<le> a \<and> a \<le> q * 2 ^ j + (2 ^ j - 1)"
    unfolding c by (metis (no_types, lifting) Nat.add_diff_assoc Suc_pred add_gr_0 less_Suc_eq_le
        less_eq_Suc_le One_nat_def zero_less_numeral zero_less_power)
  moreover have "q * 2 ^ j + (2 ^ j - 1) < 2 ^ 24"
    using hi by (metis (no_types, lifting) Suc_diff_1 add_Suc_right less_eq_Suc_le zero_less_numeral zero_less_power)
  ultimately show ?thesis
    unfolding map_entry_def Let_def r using True fill_eq by simp
next
  case False
  then show ?thesis by (simp add: map_entry_def)
qed

text \<open>One pass over the prefixes: the last prefix of length \<open>s\<close> that covers the block.\<close>

lemma map_subnet_eq:
  assumes "2 \<le> s" and "s < 25" and "a < 2 ^ 24"
  defines "P \<equiv> \<lambda>e. unat (subnet e) = s \<and> covers e a"
  shows "(\<forall>e \<in> set fib. \<not> P e) \<Longrightarrow> map_subnet fib t s a = t a"
    and "i < length fib \<Longrightarrow> P (fib ! i) \<Longrightarrow> (\<And>j. i < j \<Longrightarrow> j < length fib \<Longrightarrow> \<not> P (fib ! j)) \<Longrightarrow>
      map_subnet fib t s a = ucast (gw (fib ! i))"
proof (induction fib rule: rev_induct)
  case (snoc e fib)
  have step: "map_subnet (fib @ [e]) t s a = (if P e then ucast (gw e) else map_subnet fib t s a)"
    by (simp add: map_subnet_def map_entry_eq [OF assms(1-3)] P_def)
  {
    case 1
    then show ?case using snoc.IH(1) by (simp add: step)
  next
    case 2
    show ?case
    proof (cases "P e")
      case True
      then have "\<not> i < length fib" using 2(3) [of "length fib"] by auto
      then have "i = length fib" using 2(1) by simp
      with True show ?thesis by (simp add: step)
    next
      case False
      then have "i < length fib" using 2(1,2) by (auto simp: nth_append less_Suc_eq split: if_splits)
      moreover have "\<not> P (fib ! j)" if "i < j" "j < length fib" for j
        using 2(3) [of j] that by (simp add: nth_append)
      ultimately show ?thesis using False 2(2) snoc.IH(2) by (simp add: step nth_append)
    qed
  }
qed (simp_all add: map_subnet_def)

text \<open>All passes with lengths below \<open>n\<close>.\<close>

lemma mapping_upto:
  assumes "a < 2 ^ 24" and "n \<le> 25"
  shows "((\<forall>e \<in> set fib. \<not> usable n e a) \<longrightarrow> foldl (map_subnet fib) t [2..<n] a = t a) \<and>
    (\<forall>i. best n fib a i \<longrightarrow> foldl (map_subnet fib) t [2..<n] a = ucast (gw (fib ! i)))"
  using assms(2)
proof (induction n)
  case (Suc n)
  have use: "usable (Suc n) e a \<longleftrightarrow> usable n e a \<or> 2 \<le> n \<and> unat (subnet e) = n \<and> covers e a" for e
    by (auto simp: usable_def)
  have lt: "subnet e < subnet e' \<longleftrightarrow> unat (subnet e) < unat (subnet e')" for e e'
    by (simp add: word_less_nat_alt)
  show ?case
  proof (cases "2 \<le> n")
    case False
    then have "usable (Suc n) e a \<longleftrightarrow> usable n e a" for e using use by blast
    moreover from this have "best (Suc n) fib a i \<longleftrightarrow> best n fib a i" for i by (simp add: best_def)
    moreover have "[2..<Suc n] = [2..<n]" using False by simp
    ultimately show ?thesis using Suc by simp
  next
    case True
    let ?P = "\<lambda>e. unat (subnet e) = n \<and> covers e a" and ?t = "foldl (map_subnet fib) t [2..<n]"
    have n: "n < 25" using Suc.prems by simp
    have unfold: "foldl (map_subnet fib) t [2..<Suc n] a = map_subnet fib ?t n a"
      using True by simp
    note pass = map_subnet_eq [OF True n assms(1), where fib = fib]
    have "(\<forall>e \<in> set fib. \<not> usable (Suc n) e a) \<longrightarrow> foldl (map_subnet fib) t [2..<Suc n] a = t a"
      using pass(1) Suc True by (simp add: unfold use)
    moreover have "foldl (map_subnet fib) t [2..<Suc n] a = ucast (gw (fib ! i))"
      if b: "best (Suc n) fib a i" for i
    proof -
    from b have i: "i < length fib" "usable (Suc n) (fib ! i) a" by (simp_all add: best_def)
    show ?thesis
    proof (cases "?P (fib ! i)")
      case P: True
      have "\<not> ?P (fib ! j)" if "i < j" "j < length fib" for j
        using b that P use [of "fib ! j"] True by (auto simp: best_def lt)
      then show ?thesis unfolding unfold using i(1) P by (intro pass(2)) auto
    next
      case P: False
      then have u: "usable n (fib ! i) a" using i(2) use by blast
      have none: "\<not> ?P e" if "e \<in> set fib" for e
      proof
        assume e: "?P e"
        from that obtain j where j: "j < length fib" "fib ! j = e" by (auto simp: in_set_conv_nth)
        with e use [of e] True b have "subnet e < subnet (fib ! i) \<or> subnet e = subnet (fib ! i)"
          by (auto simp: best_def)
        with e u show False by (auto simp: usable_def lt)
      qed
      moreover have "best n fib a i"
        using b u use by (auto simp: best_def)
      ultimately show ?thesis using pass(1) Suc True by (simp add: unfold)
    qed
    qed
    ultimately show ?thesis by blast
  qed
qed (simp add: best_def usable_def)

lemma best_exists:
  assumes "\<exists>e \<in> set fib. usable n e a"
  shows "\<exists>i. best n fib a i"
proof -
  define I where "I = {i. i < length fib \<and> usable n (fib ! i) a}"
  have fin: "finite I" by (simp add: I_def)
  have ne: "I \<noteq> {}" using assms by (auto simp: I_def in_set_conv_nth)
  define m where "m = Max ((\<lambda>i. subnet (fib ! i)) ` I)"
  define J where "J = {i \<in> I. subnet (fib ! i) = m}"
  have "m \<in> (\<lambda>i. subnet (fib ! i)) ` I" unfolding m_def using fin ne by (intro Max_in) auto
  then have J: "finite J" "J \<noteq> {}" using fin by (auto simp: J_def)
  have "Max J \<in> J" using J by (rule Max_in)
  moreover have "subnet (fib ! j) \<le> m" if "j \<in> I" for j
    unfolding m_def using fin that by (intro Max_ge) auto
  moreover have "j \<le> Max J" if "j \<in> J" for j using J(1) that by (rule Max_ge)
  ultimately have "best n fib a (Max J)"
    by (fastforce simp: best_def I_def J_def order.strict_iff_order)
  then show ?thesis ..
qed

section \<open>Arrays filled by index\<close>

text \<open>Storing \<open>f i\<close> at every index of a list, in any order and any number of times.\<close>

lemma fold_update:
  "foldl (\<lambda>res i. res[i := f i]) res js =
     map (\<lambda>i. if i \<in> set js then f i else res ! i) [0..<length res]"
proof (induction js arbitrary: res)
  case Nil
  then show ?case by (simp add: map_nth)
next
  case (Cons i js)
  show ?case
    by (simp add: Cons.IH nth_list_update)
qed

lemma iplookup_host_eq:
  "iplookup_host t routing res n =
     map (\<lambda>i. if i < n then lookup t (routing ! i) else res ! i) [0..<length res]"
  by (auto simp: iplookup_host_def fold_update)

lemma block_less: "unat (drop_bit 8 (addr :: u32)) < 2 ^ 24"
  unfolding unat_drop_bit_eq using unsigned_less [where ?'a = nat and w = addr]
  by (simp add: drop_bit_eq_div less_mult_imp_div_less)

lemma mapping_best:
  assumes "a < 2 ^ 24"
  shows "if \<exists>e \<in> set fib. usable 25 e a
    then \<exists>i. best 25 fib a i \<and> mapping_fib fib (\<lambda>_. 0) a = ucast (gw (fib ! i)) else mapping_fib fib (\<lambda>_. 0) a = 0"
  using mapping_upto [OF assms order_refl, where fib = fib and t = "\<lambda>_. 0", folded mapping_fib_def] best_exists
  by metis

text \<open>C34: Looking an address up in the mapped table is a longest-prefix match: the result is the
  gateway of the longest prefix with a length from 2 to 24 that covers the address, the last one
  of the list where there are several, and 0 where no such prefix covers it. Prefixes of length
  0 and 1, a default route among them, are ignored.\<close>

theorem lookup_longest_prefix:
  fixes fib :: "fib_entry list" and routing_table results :: "u32 list"
  assumes "k < routing_count" and "routing_count \<le> length results"
  defines "r \<equiv> iplookup_host (mapping_fib fib (\<lambda>_. 0)) routing_table results routing_count ! k"
    and "a \<equiv> unat (drop_bit 8 (routing_table ! k))"
  shows "(if \<exists>e \<in> set fib. usable 25 e a
          then \<exists>i. best 25 fib a i \<and> r = ucast (gw (fib ! i)) else r = 0) \<and>
    (\<forall>e. 2 \<le> unat (subnet e) \<longrightarrow> unat (subnet e) \<le> 24 \<longrightarrow>
       (covers e a \<longleftrightarrow> drop_bit (32 - unat (subnet e)) (ip e) = drop_bit (32 - unat (subnet e)) (routing_table ! k)))"
proof -
  have a: "a < 2 ^ 24" unfolding a_def by (rule block_less)
  have r: "r = mapping_fib fib (\<lambda>_. 0) a"
    using assms(1,2) by (simp add: r_def iplookup_host_eq lookup_def a_def)
  note m = mapping_best [OF a, of fib, folded r]
  have "covers e a \<longleftrightarrow> drop_bit (32 - unat (subnet e)) (ip e) = drop_bit (32 - unat (subnet e)) (routing_table ! k)"
    if "2 \<le> unat (subnet e)" "unat (subnet e) \<le> 24" for e
  proof -
    define j where "j = 24 - unat (subnet e)"
    have j: "32 - unat (subnet e) = 8 + j" using that by (simp add: j_def)
    have "a * 256 div 2 ^ (8 + j) = unat (routing_table ! k) div 2 ^ (8 + j)"
      unfolding a_def unat_drop_bit_eq by (simp add: drop_bit_eq_div power_add div_mult2_eq)
    moreover have "unat (drop_bit m w) = unat w div 2 ^ m" for m and w :: u32
      by (subst unat_drop_bit_eq) (simp add: drop_bit_eq_div)
    ultimately show ?thesis
      unfolding covers_def j by (simp only: word_unat_eq_iff)
  qed
  then show ?thesis using m by blast
qed

theorem lookup_longest_prefix_witness:
  "iplookup_host (mapping_fib [\<lparr>ip = 0x0a000000, subnet = 8, gw = 1\<rparr>, \<lparr>ip = 0x0a010000, subnet = 16, gw = 2\<rparr>,
     \<lparr>ip = 0, subnet = 0, gw = 9\<rparr>] (\<lambda>_. 0)) [0x0a010203, 0x0b000001] [0, 0] 2 ! 0 = 2"
proof -
  define fib where "fib = [\<lparr>ip = 0x0a000000, subnet = 8, gw = 1\<rparr>, \<lparr>ip = 0x0a010000, subnet = 16, gw = 2\<rparr>,
     \<lparr>ip = 0, subnet = 0, gw = 9\<rparr>]"
  have u: "usable 25 (fib ! 0) 0x0a0102" "usable 25 (fib ! 1) 0x0a0102" "\<not> usable 25 (fib ! 2) 0x0a0102"
    by (simp_all add: fib_def usable_def covers_def)
  have "i = 1" if "best 25 fib 0x0a0102 i" for i
  proof -
    have i: "i < 3" "usable 25 (fib ! i) 0x0a0102" using that by (simp_all add: best_def fib_def)
    have sub: "subnet (fib ! 1) < subnet (fib ! i) \<or> subnet (fib ! 1) = subnet (fib ! i)"
      using that u(2) by (auto simp: best_def fib_def)
    consider "i = 0" | "i = 1" | "i = 2" using i(1) by linarith
    then show ?thesis
      by cases (use u i(2) sub in \<open>simp_all add: fib_def\<close>)
  qed
  moreover have "fib ! 1 \<in> set fib" by (simp add: fib_def)
  then have "\<exists>e \<in> set fib. usable 25 e 0x0a0102" using u(2) by blast
  then obtain i where "best 25 fib 0x0a0102 i"
    "iplookup_host (mapping_fib fib (\<lambda>_. 0)) [0x0a010203, 0x0b000001] [0, 0] 2 ! 0 = ucast (gw (fib ! i))"
    using lookup_longest_prefix [of 0 2 "[0, 0]" fib "[0x0a010203, 0x0b000001]"]
    by (simp split: if_splits) blast
  ultimately have "iplookup_host (mapping_fib fib (\<lambda>_. 0)) [0x0a010203, 0x0b000001] [0, 0] 2 ! 0 =
      ucast (gw (fib ! 1))" by metis
  then have "iplookup_host (mapping_fib fib (\<lambda>_. 0)) [0x0a010203, 0x0b000001] [0, 0] 2 ! 0 = 2"
    by (simp add: fib_def)
  then show ?thesis by (simp only: fib_def)
qed

text \<open>The threads of a launch cover every index below the count.\<close>

lemma chunks_cover:
  fixes n i t :: nat
  assumes "i < n" and "0 < t"
  shows "\<exists>j<t. n * j div t \<le> i \<and> i < n * (j + 1) div t"
proof -
  define P where "P = (\<lambda>j. i < n * (j + 1) div t)"
  have "t - 1 + 1 = t" using assms(2) by simp
  then have top: "P (t - 1)" using assms by (simp only: P_def nonzero_mult_div_cancel_right [of t n])
  define j where "j = (LEAST j. P j)"
  have j: "P j" unfolding j_def using top by (rule LeastI)
  have "j \<le> t - 1" unfolding j_def using top by (rule Least_le)
  moreover have "n * j div t \<le> i"
  proof (cases j)
    case (Suc k)
    then have "\<not> P k" unfolding j_def using not_less_Least [of k P] by simp
    then show ?thesis using Suc by (simp add: P_def)
  qed simp
  ultimately show ?thesis using j assms(2) by (intro exI [of _ j]) (auto simp: P_def)
qed

lemma launch_eq:
  assumes "n * t < 2 ^ 31" and "\<forall>j \<in> set js. j < t"
  shows "launch tab routing n t js res = Some (map (\<lambda>i.
      if \<exists>j \<in> set js. n * j div t \<le> i \<and> i < n * (j + 1) div t then lookup tab (routing ! i) else res ! i)
      [0..<length res])"
  using assms(2)
proof (induction js arbitrary: res)
  case Nil
  then show ?case by (simp add: map_nth)
next
  case (Cons j js)
  have "n * (j + 1) \<le> n * t" using Cons.prems by (intro mult_le_mono2) simp
  then have lt: "n * (j + 1) < 2 ^ 31" "n * j < 2 ^ 31" using assms(1) by simp_all
  then have "iplookup_gpu tab routing n t j res = Some (map (\<lambda>i.
      if n * j div t \<le> i \<and> i < n * (j + 1) div t then lookup tab (routing ! i) else res ! i) [0..<length res])"
    by (simp add: iplookup_gpu_def mul32_def fold_update)
  with Cons show ?case by simp blast
qed

lemma launch_all:
  assumes "0 < threads" and "routing_count * threads < 2 ^ 31" and "set order = {0..<threads}"
  shows "launch table routing routing_count threads order results =
    Some (iplookup_host table routing results routing_count)"
proof -
  have "(\<exists>j \<in> set order. routing_count * j div threads \<le> i \<and> i < routing_count * (j + 1) div threads) \<longleftrightarrow>
      i < routing_count" for i
  proof
    assume "\<exists>j \<in> set order. routing_count * j div threads \<le> i \<and> i < routing_count * (j + 1) div threads"
    then obtain j where j: "j < threads" "i < routing_count * (j + 1) div threads" using assms(3) by auto
    have "routing_count * (j + 1) div threads \<le> routing_count * threads div threads"
      using j(1) by (intro div_le_mono mult_le_mono2) simp
    then show "i < routing_count" using j(2) assms(1) by simp
  next
    assume "i < routing_count"
    from chunks_cover [OF this assms(1)] assms(3)
    show "\<exists>j \<in> set order. routing_count * j div threads \<le> i \<and> i < routing_count * (j + 1) div threads"
      by auto
  qed
  then show ?thesis
    using launch_eq [of routing_count threads order table routing results] assms
    by (simp add: iplookup_host_eq)
qed

text \<open>C35: However the threads of the graphics processor are scheduled, as long as every thread of
  the launch runs and the products of the counts fit an int, they store in the results exactly
  what the loop of the host stores. The counts of the program fit.\<close>

theorem gpu_equals_host:
  assumes "0 < threads" and "routing_count * threads < 2 ^ 31" and "set order = {0..<threads}"
  shows "launch table routing routing_count threads order results =
    Some (iplookup_host table routing results routing_count) \<and> 14880950 * 128 < (2 ^ 31 :: nat)"
  using launch_all [OF assms] by simp

theorem gpu_equals_host_witness:
  "launch (\<lambda>a. word_of_nat a) [0x100, 0x200, 0x300] 3 2 [1, 0] [0, 0, 0] = Some [1, 2, 3]"
proof -
  have "set [1, 0] = {0..<2 :: nat}" by auto
  from gpu_equals_host [OF _ _ this, of 3 "\<lambda>a. word_of_nat a" "[0x100, 0x200, 0x300]" "[0, 0, 0]"]
  show ?thesis by (simp add: iplookup_host_def lookup_def upt_rec)
qed

end
