(* ===== verification/Crc32.thy ===== *)
theory Crc32
  imports Prelude "HOL-Library.Char_ord"
begin

text \<open>
  The checksum program \<^verbatim>\<open>src/crc32/crc32.c\<close>: it reads bytes as pairs of hexadecimal digits,
  skipping everything else, up to the end of its input or an exclamation mark, and prints the
  Ethernet frame check sequence. The reference is the usual table-free CRC-32 on the reflected
  polynomial.
\<close>

section \<open>The program\<close>

definition rev8 :: "u8 \<Rightarrow> u8" where
  "rev8 c = foldl (\<lambda>r i. r OR (if c AND push_bit i 1 \<noteq> 0 then push_bit (7 - i) 1 else 0)) 0 [0..<8]"

definition rev32 :: "u32 \<Rightarrow> u32" where
  "rev32 c = foldl (\<lambda>r i. r OR (if c AND push_bit i 1 \<noteq> 0 then push_bit (31 - i) 1 else 0)) 0 [0..<32]"

definition xdigit :: "char \<Rightarrow> nat option" where
  "xdigit c = (let n = of_char c in
     if 48 \<le> n \<and> n \<le> 57 then Some (n - 48)
     else if 65 \<le> n \<and> n \<le> 70 then Some (n - 55)
     else if 97 \<le> n \<and> n \<le> 102 then Some (n - 87) else None)"

text \<open>The inner loops: the value of the next digit and the input after it; \<open>None\<close> leaves both loops.\<close>

fun next_digit :: "string \<Rightarrow> (nat \<times> string) option" where
  "next_digit [] = None"
| "next_digit (c # cs) =
     (if c = CHR ''!'' then None
      else case xdigit c of Some v \<Rightarrow> Some (v, cs) | None \<Rightarrow> next_digit cs)"

definition POLY :: u32 where
  "POLY = 0x04c11db7"

definition crc_step :: "u32 \<Rightarrow> u32 \<Rightarrow> u32" where
  "crc_step crc0 v =
     push_bit 1 crc0 XOR (if (drop_bit 31 crc0 AND 1) XOR (v AND 1) \<noteq> 0 then POLY else 0)"

fun crc_bits :: "nat \<Rightarrow> u32 \<Rightarrow> u32 \<Rightarrow> u32" where
  "crc_bits 0 v crc0 = crc0"
| "crc_bits (Suc n) v crc0 = crc_bits n (drop_bit 1 v) (crc_step crc0 v)"

lemma next_digit_shorter: "next_digit s = Some (v, r) \<Longrightarrow> length r < length s"
  by (induction s) (auto split: if_splits option.splits)

function crc_loop :: "string \<Rightarrow> u32 \<Rightarrow> u32" where
  "crc_loop s crc0 =
     (case next_digit s of
        None \<Rightarrow> crc0
      | Some (c0, s1) \<Rightarrow>
          (case next_digit s1 of
             None \<Rightarrow> crc0
           | Some (c1, s2) \<Rightarrow> crc_loop s2 (crc_bits 8 (word_of_nat (c0 * 16 + c1)) crc0)))"
  by pat_completeness auto
termination
  by (relation "measure (\<lambda>(s, _). length s)") (auto dest!: next_digit_shorter)

declare crc_loop.simps [simp del]

definition crc_final :: "u32 \<Rightarrow> u32" where
  "crc_final crc0 =
     (let crc1 = push_bit 24 (ucast (rev8 (ucast (drop_bit 24 crc0))));
          crc1 = crc1 OR push_bit 16 (ucast (rev8 (ucast (drop_bit 16 crc0))));
          crc1 = crc1 OR push_bit 8 (ucast (rev8 (ucast (drop_bit 8 crc0))));
          crc1 = crc1 OR ucast (rev8 (ucast crc0))
      in crc1 XOR 0xffffffff)"

definition hexchar :: "nat \<Rightarrow> char" where
  "hexchar n = ''0123456789ABCDEF'' ! n"

fun hex_text :: "nat \<Rightarrow> nat \<Rightarrow> string" where
  "hex_text 0 n = []"
| "hex_text (Suc k) n = hex_text k (n div 16) @ [hexchar (n mod 16)]"

definition crc32_fcs :: "string \<Rightarrow> u32" where
  "crc32_fcs input = crc_final (crc_loop input 0xffffffff)"

definition crc32_main :: "string \<Rightarrow> string" where
  "crc32_main input = ''Ethernet FCS = '' @ hex_text 8 (unat (crc32_fcs input)) @ [CHR 0x0A]"

section \<open>Bit reversal\<close>

lemma and_push_1: "(c :: 'a :: len word) AND push_bit i 1 \<noteq> 0 \<longleftrightarrow> bit c i"
proof -
  have "c AND push_bit i 1 = (if bit c i then push_bit i 1 else 0)"
    by (rule bit_word_eqI) (auto simp: bit_simps)
  moreover have "bit c i \<Longrightarrow> push_bit i 1 \<noteq> (0 :: 'a word)"
    by (metis bit_0_eq bit_1_0 bit_imp_le_length bit_push_bit_iff bot_apply bot_bool_def diff_self_eq_0 le_refl possible_bit_word)
  ultimately show ?thesis by auto
qed

lemma bit_push_1: "bit (push_bit k 1 :: 'a :: len word) n \<longleftrightarrow> n < LENGTH('a) \<and> n = k"
  by (auto simp: bit_simps)

lemma bit_rev_fold:
  "bit (foldl (\<lambda>r i. r OR (if bit c i then push_bit (m - i) 1 else 0)) a [0..<k] :: 'a :: len word) n \<longleftrightarrow>
     bit a n \<or> (n < LENGTH('a) \<and> (\<exists>i < k. bit c i \<and> n = m - i))"
proof (induction k)
  case (Suc k)
  have "bit (foldl (\<lambda>r i. r OR (if bit c i then push_bit (m - i) 1 else 0)) a [0..<Suc k] :: 'a word) n \<longleftrightarrow>
     bit (foldl (\<lambda>r i. r OR (if bit c i then push_bit (m - i) 1 else 0)) a [0..<k] :: 'a word) n \<or>
     (n < LENGTH('a) \<and> bit c k \<and> n = m - k)"
    by (simp only: upt_Suc_append [OF le0] foldl_append foldl.simps bit_or_iff split: if_split)
      (auto simp: bit_push_1 simp del: push_bit_of_1)
  also have "\<dots> \<longleftrightarrow> bit a n \<or> (n < LENGTH('a) \<and> (\<exists>i < Suc k. bit c i \<and> n = m - i))"
    unfolding Suc.IH by (auto simp: less_Suc_eq)
  finally show ?case .
qed simp

lemma bit_rev8: "bit (rev8 c) n \<longleftrightarrow> n < 8 \<and> bit c (7 - n)"
  unfolding rev8_def and_push_1 bit_rev_fold
  by (auto intro: exI [of _ "7 - n"])

lemma bit_rev32: "bit (rev32 c) n \<longleftrightarrow> n < 32 \<and> bit c (31 - n)"
  unfolding rev32_def and_push_1 bit_rev_fold
  by (auto intro: exI [of _ "31 - n"])

lemma rev32_rev32: "rev32 (rev32 c) = c"
  by (rule bit_word_eqI) (auto simp: bit_rev32)

lemma rev32_xor: "rev32 (a XOR b) = rev32 a XOR rev32 b"
  by (rule bit_word_eqI) (simp add: bit_rev32 bit_xor_iff)

lemma rev32_shift: "rev32 (push_bit 1 a) = drop_bit 1 (rev32 a)"
proof (rule bit_word_eqI)
  fix n assume "n < LENGTH(32)"
  then show "bit (rev32 (push_bit 1 a)) n = bit (drop_bit 1 (rev32 a)) n"
    unfolding bit_rev32 bit_drop_bit_eq comp_def bit_push_bit_iff
    by (auto simp: diff_diff_eq add.commute)
qed

section \<open>The reference\<close>

definition REFLECTED :: u32 where
  "REFLECTED = 0xEDB88320"

definition std_step :: "u32 \<Rightarrow> bool \<Rightarrow> u32" where
  "std_step crc b = drop_bit 1 crc XOR (if bit crc 0 \<noteq> b then REFLECTED else 0)"

definition std_bits :: "nat \<Rightarrow> u32 \<Rightarrow> u32 \<Rightarrow> u32" where
  "std_bits n v crc = foldl (\<lambda>c i. std_step c (bit v i)) crc [0..<n]"

definition crc32 :: "u8 list \<Rightarrow> u32" where
  "crc32 bs = foldl (\<lambda>c b. std_bits 8 (ucast b) c) 0xffffffff bs XOR 0xffffffff"

definition bswap32 :: "u32 \<Rightarrow> u32" where
  "bswap32 w = push_bit 24 (ucast (ucast w :: u8)) OR push_bit 16 (ucast (ucast (drop_bit 8 w) :: u8)) OR
     push_bit 8 (ucast (ucast (drop_bit 16 w) :: u8)) OR ucast (ucast (drop_bit 24 w) :: u8)"

fun hex_pairs :: "nat list \<Rightarrow> u8 list" where
  "hex_pairs (a # b # ds) = word_of_nat (a * 16 + b) # hex_pairs ds"
| "hex_pairs _ = []"

definition input_digits :: "string \<Rightarrow> nat list" where
  "input_digits s = List.map_filter xdigit (takeWhile (\<lambda>c. c \<noteq> CHR ''!'') s)"

section \<open>The register and its reflection\<close>

lemma rev32_POLY: "rev32 POLY = REFLECTED"
  by code_simp

lemma std_bits_Suc: "std_bits (Suc n) v crc = std_bits n (drop_bit 1 v) (std_step crc (bit v 0))"
proof -
  have "[0..<Suc n] = 0 # map Suc [0..<n]" by (simp add: upt_conv_Cons map_Suc_upt del: upt_Suc)
  then show ?thesis by (simp add: std_bits_def foldl_map bit_drop_bit_eq del: upt_Suc)
qed

lemma step_test: "(drop_bit 31 crc AND 1) XOR (v AND 1) \<noteq> 0 \<longleftrightarrow> bit crc 31 \<noteq> bit v 0" for crc v :: u32
proof -
  have low: "w AND 1 = (if bit w 0 then 1 else 0)" for w :: u32
    by (rule bit_word_eqI) (auto simp: bit_simps intro!: gr0I)
  show ?thesis unfolding low by (simp add: bit_drop_bit_eq)
qed

lemma rev32_double: "rev32 (a * 2) = drop_bit 1 (rev32 a)"
  using rev32_shift [of a] by (simp add: push_bit_eq_mult)

lemma rev32_0: "rev32 0 = 0"
  by (rule bit_word_eqI) (simp add: bit_rev32)

lemma rev32_step: "rev32 (crc_step crc v) = std_step (rev32 crc) (bit v 0)"
  unfolding crc_step_def std_step_def step_test
  by (auto simp: rev32_xor rev32_double rev32_0 rev32_POLY bit_rev32)

lemma rev32_bits: "rev32 (crc_bits n v crc) = std_bits n v (rev32 crc)"
proof (induction n arbitrary: v crc)
  case 0
  then show ?case by (simp add: std_bits_def)
next
  case (Suc n)
  then show ?case by (simp add: std_bits_Suc rev32_step)
qed

section \<open>The bytes of the input\<close>

lemma next_digit_None: "next_digit s = None \<longleftrightarrow> input_digits s = []"
  by (induction s) (auto simp: input_digits_def List.map_filter_simps split: option.splits)

lemma next_digit_Some: "next_digit s = Some (v, r) \<Longrightarrow> input_digits s = v # input_digits r"
  by (induction s) (auto simp: input_digits_def List.map_filter_simps split: option.splits if_splits)

lemma xdigit_less: "xdigit c = Some v \<Longrightarrow> v < 16"
  by (auto simp: xdigit_def Let_def split: if_splits)

lemma next_digit_less: "next_digit s = Some (v, r) \<Longrightarrow> v < 16"
  by (induction s) (auto simp: xdigit_less split: option.splits if_splits)

lemma ucast_pair: "a < 16 \<Longrightarrow> b < 16 \<Longrightarrow> (ucast (word_of_nat (a * 16 + b) :: u8) :: u32) = word_of_nat (a * 16 + b)"
  by (simp add: unsigned_of_nat take_bit_nat_eq_self unsigned_ucast_eq del: of_nat_add of_nat_mult)

lemma rev32_loop:
  "rev32 (crc_loop s crc) = foldl (\<lambda>c b. std_bits 8 (ucast b) c) (rev32 crc) (hex_pairs (input_digits s))"
proof (induction s crc rule: crc_loop.induct)
  case (1 s crc)
  show ?case
  proof (cases "next_digit s")
    case None
    then show ?thesis using next_digit_None [of s] by (simp add: crc_loop.simps [of s])
  next
    case (Some p)
    then obtain v r where p: "next_digit s = Some (v, r)" by (cases p) auto
    show ?thesis
    proof (cases "next_digit r")
      case None
      then show ?thesis using p next_digit_Some [OF p] next_digit_None [of r]
        by (simp add: crc_loop.simps [of s])
    next
      case (Some q)
      then obtain w t where q: "next_digit r = Some (w, t)" by (cases q) auto
      note dig = next_digit_Some [OF p] next_digit_Some [OF q]
      note less = next_digit_less [OF p] next_digit_less [OF q]
      from "1.IH" [OF p refl q refl] show ?thesis
        by (simp add: crc_loop.simps [of s] p q dig rev32_bits ucast_pair [OF less] del: of_nat_add of_nat_mult)
    qed
  qed
qed

lemma bit_bytes4:
  fixes b0 b1 b2 b3 :: u8
  assumes "j < 8" and "k < 4"
  shows "bit (push_bit 24 (ucast b3) OR push_bit 16 (ucast b2) OR push_bit 8 (ucast b1) OR (ucast b0 :: u32)) (8 * k + j)
    \<longleftrightarrow> bit ([b0, b1, b2, b3] ! k) j"
proof -
  have out: "\<not> bit b i" if "8 \<le> i" for b :: u8 and i
    using bit_imp_le_length [of b i] that by auto
  from assms(2) have "k = 0 \<or> k = 1 \<or> k = 2 \<or> k = 3" by auto
  then show ?thesis
    using assms(1) by (elim disjE) (simp_all add: bit_simps out)
qed

text \<open>The program prints the reference value with its bytes in the order of transmission.\<close>

lemma xor_ones: "w XOR 0xffffffff = NOT w" for w :: u32
proof -
  have "(0xffffffff :: u32) = - 1" by simp
  then show ?thesis by (simp only: bit.xor_one_right)
qed

lemma crc_final_eq: "crc_final crc = bswap32 (NOT (rev32 crc))"
proof (rule bit_word_eqI)
  fix n assume "n < LENGTH(32)"
  define k j where "k = n div 8" and "j = n mod 8"
  have n: "n = 8 * k + j" and j: "j < 8" and k: "k < 4"
    using \<open>n < LENGTH(32)\<close> by (auto simp: k_def j_def)
  have final: "bit (crc_final crc) n \<longleftrightarrow> \<not> bit ([rev8 (ucast crc), rev8 (ucast (drop_bit 8 crc)),
      rev8 (ucast (drop_bit 16 crc)), rev8 (ucast (drop_bit 24 crc))] ! k) j"
    using \<open>n < LENGTH(32)\<close> unfolding crc_final_def Let_def xor_ones bit_not_iff n or.assoc bit_bytes4 [OF j k] by (auto simp: possible_bit_word)
  have swap: "bit (bswap32 w) n \<longleftrightarrow> bit ([ucast (drop_bit 24 w), ucast (drop_bit 16 w), ucast (drop_bit 8 w),
      ucast w :: u8] ! k) j" for w :: u32
    unfolding bswap32_def n bit_bytes4 [OF j k] ..
  from k have "k = 0 \<or> k = 1 \<or> k = 2 \<or> k = 3" by auto
  then show "bit (crc_final crc) n = bit (bswap32 (NOT (rev32 crc))) n"
    unfolding final swap using j
    by (elim disjE) (auto simp: bit_rev8 bit_rev32 bit_simps)
qed

lemma fcs_eq: "crc32_fcs s = bswap32 (crc32 (hex_pairs (input_digits s)))"
proof -
  have "rev32 0xffffffff = 0xffffffff" by code_simp
  then show ?thesis by (simp add: crc32_fcs_def crc_final_eq rev32_loop crc32_def xor_ones)
qed

section \<open>The residue\<close>

text \<open>Shifting message bits in is the same as adding them to the register first.\<close>

definition std_zero :: "u32 \<Rightarrow> u32" where
  "std_zero s = std_step s False"

lemma std_step_zero: "std_step r b = std_zero (r XOR (if b then 1 else 0))"
proof -
  have "drop_bit 1 (1 :: u32) = 0" by simp
  then show ?thesis
    by (auto simp: std_step_def std_zero_def bit_xor_iff drop_bit_xor)
qed

lemma std_zero_xor_even: "\<not> bit b 0 \<Longrightarrow> std_zero (a XOR b) = std_zero a XOR drop_bit 1 b"
  by (auto simp: std_zero_def std_step_def drop_bit_xor bit_xor_iff ac_simps)

lemma std_bits_xor:
  "std_bits n m r = (std_zero ^^ n) (r XOR take_bit n m) "
proof (induction n arbitrary: m r)
  case 0
  then show ?case by (simp add: std_bits_def)
next
  case (Suc n)
  let ?b = "(if bit m 0 then 1 else 0) :: u32"
  have split: "take_bit (Suc n) m = ?b XOR push_bit 1 (take_bit n (drop_bit 1 m))"
  proof (rule bit_word_eqI)
    fix i assume "i < LENGTH(32)"
    then show "bit (take_bit (Suc n) m) i = bit (?b XOR push_bit 1 (take_bit n (drop_bit 1 m))) i"
      unfolding bit_xor_iff bit_push_bit_iff bit_take_bit_iff bit_drop_bit_eq comp_def
      by (cases i) (auto simp: bit_1_iff possible_bit_word)
  qed
  have "std_bits (Suc n) m r = (std_zero ^^ n) (std_zero (r XOR ?b) XOR take_bit n (drop_bit 1 m))"
    by (simp add: std_bits_Suc Suc.IH std_step_zero)
  also have "std_zero (r XOR ?b) XOR take_bit n (drop_bit 1 m) = std_zero (r XOR take_bit (Suc n) m)"
  proof -
    have "drop_bit 1 (push_bit 1 (take_bit n (drop_bit 1 m))) = take_bit n (drop_bit 1 m)"
      by (rule bit_word_eqI, unfold bit_push_bit_iff bit_take_bit_iff bit_drop_bit_eq comp_def)
        (auto simp: possible_bit_word dest: bit_imp_le_length)
    moreover have "\<not> bit (push_bit 1 (take_bit n (drop_bit 1 m))) 0"
      unfolding bit_push_bit_iff by simp
    ultimately show ?thesis
      unfolding split xor.assoc [symmetric] using std_zero_xor_even by metis
  qed
  finally show ?case by (simp add: funpow_swap1)
qed

lemma std_bits_add: "std_bits (m + n) v r = std_bits n (drop_bit m v) (std_bits m v r)"
proof (induction m arbitrary: v r)
  case 0
  then show ?case by (simp add: std_bits_def)
next
  case (Suc m)
  then show ?case by (simp add: std_bits_Suc)
qed

lemma std_bits_low: "std_bits 8 (ucast (ucast v :: u8)) r = std_bits 8 v r"
  unfolding std_bits_def by (rule foldl_cong) (auto simp: bit_simps)

lemma std_bits_bytes:
  "foldl (\<lambda>c b. std_bits 8 (ucast b) c) r [ucast v :: u8, ucast (drop_bit 8 v), ucast (drop_bit 16 v), ucast (drop_bit 24 v)]
     = std_bits 32 v r"
proof -
  have "std_bits 32 v r = std_bits 8 (drop_bit 24 v) (std_bits 8 (drop_bit 16 v)
      (std_bits 8 (drop_bit 8 v) (std_bits 8 v r)))"
    using std_bits_add [of 24 8 v r] std_bits_add [of 16 8 v r] std_bits_add [of 8 8 v r] by simp
  then show ?thesis by (simp only: foldl.simps std_bits_low)
qed

lemma feed_complement: "std_bits 32 (NOT r) r = 0xDEBB20E3"
proof -
  have "r XOR take_bit 32 (NOT r) = - 1"
    by (rule bit_word_eqI) (simp add: bit_simps)
  then have "std_bits 32 (NOT r) r = (std_zero ^^ 32) (- 1)" by (simp add: std_bits_xor)
  also have "\<dots> = std_bits 32 0 (- 1)" by (simp add: std_bits_xor)
  also have "\<dots> = 0xDEBB20E3" by code_simp
  finally show ?thesis .
qed

section \<open>Hexadecimal text\<close>

fun hex_ds :: "nat \<Rightarrow> nat \<Rightarrow> nat list" where
  "hex_ds 0 n = []"
| "hex_ds (Suc k) n = hex_ds k (n div 16) @ [n mod 16]"

lemma nat_16_cases: "n < 16 \<Longrightarrow> n \<in> {0, 1, 2, 3, 4, 5, 6, 7, 8, 9, 10, 11, 12, 13, 14, 15 :: nat}"
  unfolding insert_iff empty_iff by presburger

lemma xdigit_hexchar: "n < 16 \<Longrightarrow> xdigit (hexchar n) = Some n \<and> hexchar n \<noteq> CHR ''!''"
  by (drule nat_16_cases) (elim insertE emptyE; simp add: hexchar_def xdigit_def)

lemma hex_text_no_stop: "CHR ''!'' \<notin> set (hex_text k n)"
proof (induction k arbitrary: n)
  case (Suc k)
  from xdigit_hexchar [of "n mod 16"] Suc show ?case by auto
qed simp

lemma input_digits_append:
  "CHR ''!'' \<notin> set s \<Longrightarrow> input_digits (s @ t) = input_digits s @ input_digits t"
  by (induction s) (auto simp: input_digits_def List.map_filter_simps split: option.split)

lemma input_digits_hex: "input_digits (hex_text k n) = hex_ds k n"
proof (induction k arbitrary: n)
  case 0
  then show ?case by (simp add: input_digits_def List.map_filter_simps)
next
  case (Suc k)
  have "input_digits [hexchar (n mod 16)] = [n mod 16]"
    using xdigit_hexchar [of "n mod 16"] by (simp add: input_digits_def List.map_filter_simps)
  then show ?case
    by (simp add: input_digits_append [OF hex_text_no_stop] Suc)
qed

lemma hex_pairs_append: "even (length ds) \<Longrightarrow> hex_pairs (ds @ es) = hex_pairs ds @ hex_pairs es"
  by (induction ds rule: hex_pairs.induct) auto

lemma hex_pairs_step:
  "even k \<Longrightarrow> hex_pairs (hex_ds (Suc (Suc k)) n) = hex_pairs (hex_ds k (n div 256)) @ [word_of_nat (n mod 256)]"
proof -
  assume "even k"
  moreover have "length (hex_ds k m) = k" for m by (induction k arbitrary: m) auto
  moreover have "n div 16 mod 16 * 16 + n mod 16 = n mod 256"
    using mod_mult2_eq [of n 16 16] by simp
  ultimately show ?thesis
    by (simp add: hex_pairs_append div_mult2_eq [symmetric] del: of_nat_add of_nat_mult)
qed

lemma Suc_Suc_0: "Suc (Suc 0) = 2"
  by simp

lemma hex_pairs_8: "hex_pairs (hex_ds 8 (unat w)) =
    [ucast (drop_bit 24 w), ucast (drop_bit 16 w), ucast (drop_bit 8 w), ucast (w :: u32)]"
proof -
  have byte: "word_of_nat (unat w div 2 ^ k mod 256) = (ucast (drop_bit k w) :: u8)" for k
  proof -
    have "unat (drop_bit k w) = drop_bit k (unat w)" by (rule unat_drop_bit_eq)
    also have "\<dots> = unat w div 2 ^ k" by (rule drop_bit_eq_div)
    finally have "unat (drop_bit k w) = unat w div 2 ^ k" .
    moreover have "(ucast (drop_bit k w) :: u8) = word_of_nat (unat (drop_bit k w))" by simp
    ultimately have "(ucast (drop_bit k w) :: u8) = word_of_nat (unat w div 2 ^ k)" by metis
    then show ?thesis
      by (simp only:) (simp add: word_of_nat_eq_iff take_bit_eq_mod)
  qed
  have steps: "hex_pairs (hex_ds 8 n) = hex_pairs (hex_ds 6 (n div 256)) @ [word_of_nat (n mod 256)]"
    "hex_pairs (hex_ds 6 n) = hex_pairs (hex_ds 4 (n div 256)) @ [word_of_nat (n mod 256)]"
    "hex_pairs (hex_ds 4 n) = hex_pairs (hex_ds 2 (n div 256)) @ [word_of_nat (n mod 256)]"
    "hex_pairs (hex_ds 2 n) = [word_of_nat (n mod 256)]" for n
    using hex_pairs_step [of 6 n] hex_pairs_step [of 4 n] hex_pairs_step [of 2 n] hex_pairs_step [of 0 n]
    by (simp_all del: hex_ds.simps(2) add: Suc_Suc_0)
  have "hex_pairs (hex_ds 8 (unat w)) =
      [word_of_nat (unat w div 2 ^ 24 mod 256), word_of_nat (unat w div 2 ^ 16 mod 256),
       word_of_nat (unat w div 2 ^ 8 mod 256), word_of_nat (unat w div 2 ^ 0 mod 256)]"
    by (simp add: steps div_mult2_eq [symmetric])
  then show ?thesis unfolding byte by simp
qed

lemma hex_text_length: "length (hex_text k n) = k"
  by (induction k arbitrary: n) simp_all

lemma hex_text_numeral: "hex_text (numeral k) n = hex_text (pred_numeral k) (n div 16) @ [hexchar (n mod 16)]"
  using hex_text.simps(2) [of "pred_numeral k" n] by (simp only: numeral_eq_Suc [of k])

section \<open>Properties\<close>

text \<open>C27: the program prints, in eight digits, the CRC-32 of the bytes its input spells, with the
  bytes of the checksum in the order in which they follow the frame on the wire.\<close>

theorem crc32_main_is_fcs:
  "crc32_main input = ''Ethernet FCS = '' @
     hex_text 8 (unat (bswap32 (crc32 (hex_pairs (input_digits input))))) @ [CHR 0x0A]"
  by (simp add: crc32_main_def fcs_eq)

lemma fcs_residue:
  assumes "CHR ''!'' \<notin> set input" and "even (length (input_digits input))"
  shows "crc32_fcs (input @ hex_text 8 (unat (crc32_fcs input))) = 0x1CDF4421"
proof -
  let ?bs = "hex_pairs (input_digits input)"
  let ?r = "foldl (\<lambda>c b. std_bits 8 (ucast b) c) 0xffffffff ?bs"
  let ?w = "bswap32 (NOT ?r)"
  have w: "crc32_fcs input = ?w" by (simp add: fcs_eq crc32_def xor_ones)
  have bytes: "[ucast (drop_bit 24 ?w), ucast (drop_bit 16 ?w), ucast (drop_bit 8 ?w), ucast ?w] =
      [ucast (NOT ?r) :: u8, ucast (drop_bit 8 (NOT ?r)), ucast (drop_bit 16 (NOT ?r)), ucast (drop_bit 24 (NOT ?r))]"
    by (simp; intro conjI; rule bit_word_eqI; simp add: bit_simps bswap32_def)
  have "hex_pairs (input_digits (input @ hex_text 8 (unat ?w))) = ?bs @ [ucast (NOT ?r) :: u8,
      ucast (drop_bit 8 (NOT ?r)), ucast (drop_bit 16 (NOT ?r)), ucast (drop_bit 24 (NOT ?r))]"
    unfolding bytes [symmetric]
    using hex_pairs_8 [of ?w] hex_pairs_append [OF assms(2)]
    by (simp only: input_digits_append [OF assms(1)] input_digits_hex)
  then have "crc32 (hex_pairs (input_digits (input @ hex_text 8 (unat ?w)))) = 0xDEBB20E3 XOR 0xffffffff"
    unfolding crc32_def by (simp only: foldl_append std_bits_bytes feed_complement)
  moreover have "bswap32 (0xDEBB20E3 XOR 0xffffffff) = 0x1CDF4421" by code_simp
  ultimately show ?thesis unfolding w fcs_eq [of "input @ _"] by simp
qed

text \<open>C28: run on a frame followed by the digits it printed for that frame, the program prints the
  same value whatever the frame: a receiver that includes the checksum sees a constant.\<close>

theorem crc32_residue:
  assumes "CHR ''!'' \<notin> set input" and "even (length (input_digits input))"
  shows "crc32_main (input @ take 8 (drop 15 (crc32_main input))) = ''Ethernet FCS = 1CDF4421'' @ [CHR 0x0A]"
proof -
  have "take 8 (drop 15 (crc32_main input)) = hex_text 8 (unat (crc32_fcs input))"
    by (simp add: crc32_main_def hex_text_length)
  moreover have "hex_text 8 (unat (0x1CDF4421 :: u32)) = ''1CDF4421''"
    by (simp add: hex_text_numeral hexchar_def)
  ultimately show ?thesis
    using fcs_residue [OF assms] by (simp add: crc32_main_def)
qed

text \<open>The sample \<^verbatim>\<open>src/crc32/1.hex\<close>, a single byte.\<close>

lemma crc32_sample: "crc32 [0x11] = 0xB8B2CF7F"
  by code_simp

theorem crc32_residue_witness:
  "crc32_main ''11'' = ''Ethernet FCS = 7FCFB2B8'' @ [CHR 0x0A] \<and>
   crc32_main ''117FCFB2B8'' = ''Ethernet FCS = 1CDF4421'' @ [CHR 0x0A]"
proof -
  have digits: "input_digits ''11'' = [1, 1]"
    by (simp add: input_digits_def List.map_filter_simps xdigit_def)
  have "bswap32 0xB8B2CF7F = 0x7FCFB2B8" by (simp add: bswap32_def)
  then have fcs: "crc32_main ''11'' = ''Ethernet FCS = 7FCFB2B8'' @ [CHR 0x0A]"
    by (simp add: crc32_main_def fcs_eq digits crc32_sample hex_text_numeral hexchar_def)
  have "CHR ''!'' \<notin> set ''11''" by simp
  moreover have "even (length (input_digits ''11''))" by (simp add: digits)
  ultimately show ?thesis
    using crc32_residue [of "''11''"] fcs by simp
qed

end
