(* ===== verification/Measure.thy ===== *)
theory Measure
  imports Timing Ip_Checksum Ip_Lookup Crc32
begin

text \<open>
  The two measuring programs as a whole: \<^verbatim>\<open>main\<close> of \<^verbatim>\<open>src/ip_fast_checksum/ip_fast_checksum.c\<close>
  and of \<^verbatim>\<open>src/cuda_iplookup/cuda_iplookup.cu\<close>, as it is built by nvcc. Each calibrates the
  counter, measures how long reading the counter takes (\<^verbatim>\<open>loss\<close>), measures its work, and prints
  a report. The helpers are copies of those of the theory of the time-stamp helpers, with other
  lines printed. \<open>clock\<close> and \<open>tsc\<close> are the moments of the calibration, \<open>r k\<close> is the \<open>k\<close>-th reading
  of the counter after it.
\<close>

section \<open>Lines\<close>

text \<open>\<^verbatim>\<open>%llu\<close>, \<^verbatim>\<open>%lld\<close> of an unsigned argument, \<^verbatim>\<open>%X\<close>.\<close>

definition llu :: "u64 \<Rightarrow> string" where
  "llu v = dec (unat v)"

definition lld :: "u64 \<Rightarrow> string" where
  "lld v = (if sint v < 0 then CHR ''-'' # dec (nat (- sint v)) else dec (nat (sint v)))"

fun hex_upper :: "nat \<Rightarrow> string" where
  "hex_upper n = (if n < 16 then [hexchar n] else hex_upper (n div 16) @ [hexchar (n mod 16)])"

declare hex_upper.simps [simp del]

definition frequency_line :: "u64 \<Rightarrow> string" where
  "frequency_line cps = ''CPU Frequency:'' @ lld (cps div 1000000) @ ''MHz ('' @ lld cps @ '' cycles/sec)'' @ [CHR 0x0A]"

text \<open>A rate of zero is a division by zero.\<close>

definition time_line :: "u64 \<Rightarrow> TimeWatcher \<Rightarrow> string option" where
  "time_line cps tw =
     (if cps = 0 then None
      else Some (''time:'' @ llu ((tw_end tw - tw_start tw) * 1000000000 div cps) @ '' ns, CPU cycles:'' @
             llu (tw_end tw - tw_start tw) @ [CHR 0x0A]))"

section \<open>The helpers of ip_fast_checksum.c\<close>

definition ic_get_cpu_cycle_per_sec :: "(nat \<Rightarrow> u64 \<times> u64) \<Rightarrow> (nat \<Rightarrow> u64) \<Rightarrow> u64 option" where
  "ic_get_cpu_cycle_per_sec clock tsc =
     (let start = tsc 0; startusec = fst (clock 0) * 1000000 + snd (clock 0) in do {
        n \<leftarrow> wait_usec clock startusec 1;
        let now = tsc n;
        Some (now - start)
      })"

definition ic_print_time_sec :: "u64 \<Rightarrow> TimeWatcher \<Rightarrow> string option" where
  "ic_print_time_sec cps tw = do { l \<leftarrow> time_line cps tw; Some (frequency_line cps @ l) }"

section \<open>The helpers of the route lookup\<close>

definition cu_get_cpu_cycle_per_sec :: "(nat \<Rightarrow> u64 \<times> u64) \<Rightarrow> (nat \<Rightarrow> u64) \<Rightarrow> (u64 \<times> string) option" where
  "cu_get_cpu_cycle_per_sec clock tsc =
     (let start = tsc 0; startusec = fst (clock 0) * 1000000 + snd (clock 0) in do {
        n \<leftarrow> wait_usec clock startusec 1;
        let now = tsc n;
        let diff = now - start;
        Some (diff, frequency_line diff)
      })"

definition cu_print_time_sec :: "u64 \<Rightarrow> TimeWatcher \<Rightarrow> string option" where
  "cu_print_time_sec cps tw = do { l \<leftarrow> time_line cps tw; Some ('' '' @ l) }"

section \<open>The programs\<close>

text \<open>\<^verbatim>\<open>loss\<close> is an int: the difference is cut to 32 bits, and extended with its sign when it is used.\<close>

definition loss :: "TimeWatcher \<Rightarrow> u32" where
  "loss tw = ucast (tw_end tw - tw_start tw)"

definition minus_loss :: "u32 \<Rightarrow> TimeWatcher \<Rightarrow> TimeWatcher" where
  "minus_loss l tw = tw\<lparr>tw_end := tw_end tw - scast l\<rparr>"

text \<open>\<open>stack\<close> is what follows the buffer: the length given to the routine is that of 64 bytes.\<close>

definition checksum_main ::
  "(nat \<Rightarrow> u64 \<times> u64) \<Rightarrow> (nat \<Rightarrow> u64) \<Rightarrow> (nat \<Rightarrow> u64) \<Rightarrow> u8 list \<Rightarrow> string option" where
  "checksum_main clock tsc r stack = do {
     cps \<leftarrow> ic_get_cpu_cycle_per_sec clock tsc;
     let buf = map word_of_nat [0..<16];
     let tw = tw_end_at (r 1) (tw_start_at (r 0) \<lparr>tw_start = 0, tw_end = 0\<rparr>);
     let l = loss tw;
     let tw = tw_start_at (r 2) tw;
     checksum \<leftarrow> ip_fast_csum (buf @ stack) (word_of_nat (length buf));
     let tw = minus_loss l (tw_end_at (r 3) tw);
     t \<leftarrow> ic_print_time_sec cps tw;
     Some (''checksum='' @ hex_upper (unat checksum) @ [CHR 0x0A] @ t)
   }"

text \<open>
  The exit status, the output and the results copied back from the graphics processor; \<open>file\<close> is
  \<open>None\<close> when it cannot be opened, \<open>order\<close> the order in which the 128 threads run.
\<close>

definition iplookup_program ::
  "(nat \<Rightarrow> u64 \<times> u64) \<Rightarrow> (nat \<Rightarrow> u64) \<Rightarrow> (nat \<Rightarrow> u64) \<Rightarrow> (nat \<Rightarrow> u32) \<Rightarrow> u32 list \<Rightarrow> string option \<Rightarrow> nat list \<Rightarrow>
   nat \<Rightarrow> (int \<times> string \<times> u32 list) option" where
  "iplookup_program clock tsc r rand junk file order routing_count = do {
     (cps, out) \<leftarrow> cu_get_cpu_cycle_per_sec clock tsc;
     case file of
       None \<Rightarrow> Some (-1, out, [])
     | Some txt \<Rightarrow> do {
         fib \<leftarrow> load_fib rand junk txt;
         let out = out @ ''Routing tables='' @ dec (length fib) @ [CHR 0x0A];
         let table = mapping_fib fib (\<lambda>_. 0);
         let routing_table = map (\<lambda>i. push_bit 16 (rand (length fib + i) AND 0xffff)) [0..<routing_count];
         let tw = tw_end_at (r 1) (tw_start_at (r 0) \<lparr>tw_start = 0, tw_end = 0\<rparr>);
         let l = loss tw;
         let results_h = iplookup_host table routing_table (replicate routing_count 0) routing_count;
         let tw = minus_loss l (tw_end_at (r 3) (tw_start_at (r 2) tw));
         t1 \<leftarrow> cu_print_time_sec cps tw;
         let out = out @ ''HOST'' @ [CHR 0x0A] @ t1;
         results_d \<leftarrow> launch table routing_table routing_count 128 order (replicate routing_count 0);
         let tw = minus_loss l (tw_end_at (r 5) (tw_start_at (r 4) tw));
         t2 \<leftarrow> cu_print_time_sec cps tw;
         Some (0, out @ ''GPU'' @ [CHR 0x0A] @ t2, results_d)
       }
   }"

section \<open>What is reported\<close>

lemma calibrations:
  "ic_get_cpu_cycle_per_sec clock tsc = get_cpu_cycle_per_sec clock tsc"
  "cu_get_cpu_cycle_per_sec clock tsc = map_option (\<lambda>d. (d, frequency_line d)) (get_cpu_cycle_per_sec clock tsc)"
  by (auto simp: ic_get_cpu_cycle_per_sec_def cu_get_cpu_cycle_per_sec_def get_cpu_cycle_per_sec_def usec_def Let_def
      split: bind_splits)

text \<open>The cycles reported for an interval of \<open>d\<close> cycles when reading the counter took \<open>l\<close>.\<close>

definition net_cycles :: "u64 \<Rightarrow> u64 \<Rightarrow> u64" where
  "net_cycles l d = d - scast (ucast l :: u32)"

lemma net_cycles_exact:
  assumes "unat l < 2 ^ 31"
  shows "net_cycles l d = d - l"
proof -
  have high: "\<not> bit l i" if "31 \<le> i" for i
  proof
    assume "bit l i"
    then have "bit (unat l) i" by (simp add: bit_unsigned_iff)
    then have "2 ^ i \<le> unat l" by (metis bit_iff_odd div_less even_zero not_less)
    moreover have "(2 :: nat) ^ 31 \<le> 2 ^ i" using that by (intro power_increasing) simp_all
    ultimately show False using assms by simp
  qed
  have "scast (ucast l :: u32) = l"
    by (rule bit_word_eqI) (use high in \<open>auto simp: bit_simps min_def not_le\<close>)
  then show ?thesis by (simp add: net_cycles_def)
qed

text \<open>For a loss below 2^31 cycles: the difference, or, when less was measured than lost, 2^64 more.\<close>

lemma unat_net_cycles:
  assumes "unat l < 2 ^ 31"
  shows "unat (net_cycles l d) = (if unat l \<le> unat d then unat d - unat l else 2 ^ 64 + unat d - unat l)"
proof (cases "unat l \<le> unat d")
  case True
  then show ?thesis using net_cycles_exact [OF assms] by (simp add: unat_sub word_le_nat_alt)
next
  case False
  have "unat (d - l) = 2 ^ 64 + unat d - unat l"
    using False by (simp add: unat_sub_if_size word_size)
  then show ?thesis using False net_cycles_exact [OF assms] by simp
qed

definition report :: "u64 \<Rightarrow> u64 \<Rightarrow> string" where
  "report cps c = ''time:'' @ llu (c * 1000000000 div cps) @ '' ns, CPU cycles:'' @ llu c @ [CHR 0x0A]"

lemma time_line_report:
  "time_line cps (minus_loss (loss (tw_end_at b (tw_start_at a tw))) (tw_end_at d (tw_start_at c tw'))) =
    (if cps = 0 then None else Some (report cps (net_cycles (b - a) (d - c))))"
proof -
  have "d - scast (ucast (b - a) :: u32) - c = net_cycles (b - a) (d - c)"
    by (simp add: net_cycles_def)
  then show ?thesis
    by (simp add: time_line_def minus_loss_def loss_def tw_end_at_def tw_start_at_def report_def del: left_diff_distrib_numeral)
qed

text \<open>A clock in microseconds that gets through a second, and a counter with it.\<close>

definition calibrated :: "(nat \<Rightarrow> u64 \<times> u64) \<Rightarrow> (nat \<Rightarrow> u64) \<Rightarrow> (nat \<Rightarrow> nat) \<Rightarrow> nat \<Rightarrow> nat \<Rightarrow> bool" where
  "calibrated clock tsc T f g \<longleftrightarrow> (\<forall>n. usec (clock n) = word_of_nat (T n) \<and> T n + 10 ^ 6 < 2 ^ 64 \<and>
     T (Suc n) < T n + g \<and> tsc n = word_of_nat (f * T n)) \<and> (\<exists>k. T 0 + 10 ^ 6 \<le> T k) \<and>
     0 < f \<and> f * (10 ^ 6 + g) < 2 ^ 64"

lemma calibrated_rate:
  assumes "calibrated clock tsc T f g"
  obtains e where "10 ^ 6 \<le> e" "e < 10 ^ 6 + g" "get_cpu_cycle_per_sec clock tsc = Some (word_of_nat (f * e))"
    "(word_of_nat (f * e) :: u64) \<noteq> 0"
proof -
  from assms obtain k where "T 0 + 10 ^ 6 \<le> T k" by (auto simp: calibrated_def)
  with assms have "\<exists>e. 10 ^ 6 \<le> e \<and> e < 10 ^ 6 + g \<and> get_cpu_cycle_per_sec clock tsc = Some (word_of_nat (f * e))"
    by (intro cpu_calibration [where T = T and k = k]) (auto simp: calibrated_def)
  then obtain e where e: "10 ^ 6 \<le> e" "e < 10 ^ 6 + g" "get_cpu_cycle_per_sec clock tsc = Some (word_of_nat (f * e))"
    by blast
  have "f * e \<le> f * (10 ^ 6 + g)" using e(2) by simp
  moreover have "f * (10 ^ 6 + g) < 2 ^ 64" using assms unfolding calibrated_def by blast
  ultimately have "f * e < 2 ^ 64" by (rule le_less_trans)
  moreover have "0 < f * e" using assms e(1) by (auto simp: calibrated_def)
  ultimately have "unat (word_of_nat (f * e) :: u64) = f * e" by (simp add: unsigned_of_nat take_bit_nat_eq_self del: of_nat_mult)
  with \<open>0 < f * e\<close> have "(word_of_nat (f * e) :: u64) \<noteq> 0" by (metis less_irrefl unat_0)
  with e show thesis by (rule that)
qed

text \<open>C38: With a clock that passes a second, the checksum program ends and prints the RFC 1071
  checksum of 64 bytes, of which its buffer holds the first 16 only, the calibrated rate, and the
  cycles of the routine less the cycles a reading of the counter takes; when that reading took
  longer than the routine, it prints a number of cycles near 2^64.\<close>

theorem checksum_program:
  assumes "calibrated clock tsc T f g" and "48 \<le> length stack" and "unat (r 1 - r 0) < 2 ^ 31"
  shows "\<exists>e v c. 10 ^ 6 \<le> e \<and> e < 10 ^ 6 + g \<and>
    is_checksum v (halves_sum ([0, 1, 2, 3, 4, 5, 6, 7, 8, 9, 10, 11, 12, 13, 14, 15] @ take 48 stack)) \<and>
    checksum_main clock tsc r stack = Some (''checksum='' @ hex_upper (unat v) @ [CHR 0x0A] @
      frequency_line (word_of_nat (f * e)) @ report (word_of_nat (f * e)) c) \<and>
    unat c = (if unat (r 1 - r 0) \<le> unat (r 3 - r 2) then unat (r 3 - r 2) - unat (r 1 - r 0)
      else 2 ^ 64 + unat (r 3 - r 2) - unat (r 1 - r 0))"
proof -
  obtain e where e: "10 ^ 6 \<le> e" "e < 10 ^ 6 + g" "get_cpu_cycle_per_sec clock tsc = Some (word_of_nat (f * e))"
    "(word_of_nat (f * e) :: u64) \<noteq> 0"
    by (rule calibrated_rate [OF assms(1)])
  define buf :: "u8 list" where "buf = map word_of_nat [0..<16]"
  have buf: "buf = [0, 1, 2, 3, 4, 5, 6, 7, 8, 9, 10, 11, 12, 13, 14, 15]"
    by (simp add: buf_def upt_conv_Cons)
  have len: "length buf = 16" by (simp add: buf_def)
  have "4 * unat (16 :: u32) \<le> length (buf @ stack)" using assms(2) len by simp
  from ip_fast_csum_correct [OF _ this] obtain v where v: "ip_fast_csum (buf @ stack) 16 = Some v"
    "is_checksum v (halves_sum (take 64 (buf @ stack)))" by auto
  have "take 64 (buf @ stack) = buf @ take 48 stack" using len by simp
  moreover have "checksum_main clock tsc r stack = Some (''checksum='' @ hex_upper (unat v) @ [CHR 0x0A] @
      frequency_line (word_of_nat (f * e)) @ report (word_of_nat (f * e)) (net_cycles (r 1 - r 0) (r 3 - r 2)))"
    using e(3,4) v(1) len
    by (simp add: checksum_main_def calibrations(1) Let_def buf_def [symmetric] ic_print_time_sec_def time_line_report
        del: of_nat_mult)
  ultimately show ?thesis
    using e(1,2) v(2) unat_net_cycles [OF assms(3)] by (intro exI [of _ e] exI [of _ v]
      exI [of _ "net_cycles (r 1 - r 0) (r 3 - r 2)"]) (simp only: buf simp_thms)
qed


section \<open>Concrete runs\<close>

text \<open>A clock read every millisecond, stopped after two seconds, and a counter at 3 GHz.\<close>

definition sample_time :: "nat \<Rightarrow> nat" where
  "sample_time n = min (1000 * n) 2000000"

definition sample_clock :: "nat \<Rightarrow> u64 \<times> u64" where
  "sample_clock n = (0, word_of_nat (sample_time n))"

definition sample_tsc :: "nat \<Rightarrow> u64" where
  "sample_tsc n = word_of_nat (3000 * sample_time n)"

lemma sample_calibrated: "calibrated sample_clock sample_tsc sample_time 3000 1001"
proof -
  have "sample_time 0 + 10 ^ 6 \<le> sample_time 1000" by (simp add: sample_time_def)
  then show ?thesis
    unfolding calibrated_def by (auto simp: sample_clock_def sample_tsc_def sample_time_def usec_def)
qed

text \<open>Reading the counter took 20 cycles, the routine 10.\<close>

theorem checksum_program_witness:
  "\<exists>v cps. checksum_main sample_clock sample_tsc (\<lambda>k. [100, 120, 200, 210] ! k) (replicate 48 0) =
    Some (''checksum='' @ hex_upper v @ [CHR 0x0A] @ frequency_line cps @ report cps 0xfffffffffffffff6)"
proof -
  obtain e v c where run: "checksum_main sample_clock sample_tsc (\<lambda>k. [100, 120, 200, 210] ! k) (replicate 48 0) =
      Some (''checksum='' @ hex_upper (unat (v :: u16)) @ [CHR 0x0A] @ frequency_line (word_of_nat (3000 * e)) @
        report (word_of_nat (3000 * e)) c)"
    and c: "unat c = 2 ^ 64 + 10 - 20"
    using checksum_program [OF sample_calibrated, of "replicate 48 0" "\<lambda>k. [100, 120, 200, 210] ! k"] by auto
  from c have "c = 0xfffffffffffffff6" by (simp add: word_unat_eq_iff)
  with run show ?thesis by blast
qed


end
