(* ===== verification/Pci_Enabler.thy ===== *)
theory Pci_Enabler
  imports Prelude
begin

text \<open>
  The PCI driver \<^verbatim>\<open>src/pci_enabler_module/pci_enabler.c\<close>: its probe and remove functions and
  the resources they hold. What the kernel answers during one probe is a \<open>pci_answers\<close>: the
  return codes of \<^verbatim>\<open>pci_enable_device\<close> and \<^verbatim>\<open>pci_request_regions\<close>, the two memory windows of
  the device and the pointers \<^verbatim>\<open>ioremap\<close> and \<^verbatim>\<open>ioremap_wc\<close> return (0 for a failure). The state
  counts calls: \<open>enables\<close> is the successful enables minus the disables, \<open>regions\<close> the
  successful requests minus the releases, \<open>mappings\<close> the pointers mapped and never unmapped.
\<close>

record pci_answers =
  enable_rc :: int
  request_rc :: int
  bar0 :: "u64 \<times> u64"
  bar2 :: "u64 \<times> u64"
  ioremap_ptr :: u64
  ioremap_wc_ptr :: u64

record pci_state =
  enables :: int
  regions :: int
  master :: bool
  mappings :: "(u64 \<times> u64) list"
  mapped_at :: "u64 list"
  board_idx :: int
  pcidev_set :: bool

section \<open>Probe and remove\<close>

definition pci_release_regions :: "pci_state \<Rightarrow> pci_state" where
  "pci_release_regions s = s\<lparr>regions := regions s - 1\<rparr>"

definition pci_disable_device :: "pci_state \<Rightarrow> pci_state" where
  "pci_disable_device s = s\<lparr>enables := enables s - 1\<rparr>"

definition err_out :: "pci_state \<Rightarrow> int \<times> pci_state" where
  "err_out s = (-1, pci_disable_device (pci_release_regions s))"

definition pci_enabler_init_one :: "pci_answers \<Rightarrow> pci_state \<Rightarrow> int \<times> pci_state" where
  "pci_enabler_init_one a s =
     (let rc = enable_rc a;
          s = (if rc = 0 then s\<lparr>enables := enables s + 1\<rparr> else s)
      in if rc \<noteq> 0 then err_out s else
      let rc = request_rc a;
          s = (if rc = 0 then s\<lparr>regions := regions s + 1\<rparr> else s)
      in if rc \<noteq> 0 then err_out s else
      let s = s\<lparr>board_idx := board_idx s + 1, master := True\<rparr>;
          mmio0_ptr = ioremap_ptr a
      in if mmio0_ptr = 0 then err_out s else
      let s = s\<lparr>mappings := mappings s @ [bar0 a], mapped_at := mapped_at s @ [mmio0_ptr]\<rparr>;
          mmio1_ptr = ioremap_wc_ptr a
      in if mmio1_ptr = 0 then err_out s else
      let s = s\<lparr>mappings := mappings s @ [bar2 a], mapped_at := mapped_at s @ [mmio1_ptr]\<rparr>
      in (0, s\<lparr>pcidev_set := True\<rparr>))"

definition pci_enabler_remove_one :: "pci_state \<Rightarrow> pci_state" where
  "pci_enabler_remove_one s = pci_disable_device (pci_release_regions s)"

text \<open>Loading and unloading the module pass the result of the kernel through.\<close>

definition pci_enabler_init :: "int \<Rightarrow> int" where
  "pci_enabler_init register_rc = register_rc"

text \<open>A freshly loaded module.\<close>

definition pci_fresh :: pci_state where
  "pci_fresh = \<lparr>enables = 0, regions = 0, master = False, mappings = [], mapped_at = [],
     board_idx = -1, pcidev_set = False\<rparr>"

section \<open>Binding and unbinding devices\<close>

text \<open>
  The life of the module: the kernel probes devices, and removes one only after a probe that
  returned 0. \<open>bound\<close> is the number of devices probed successfully and not yet removed,
  \<open>probes\<close> the number of successful probes.
\<close>

record pci_life =
  bound :: nat
  probes :: nat
  pst :: pci_state

inductive pci_step :: "pci_life \<Rightarrow> pci_life \<Rightarrow> bool" where
  probe: "pci_enabler_init_one a (pst l) = (ret, s) \<Longrightarrow> enable_rc a = 0 \<Longrightarrow> request_rc a = 0 \<Longrightarrow>
    pci_step l (l\<lparr>pst := s, bound := (if ret = 0 then bound l + 1 else bound l),
      probes := (if ret = 0 then probes l + 1 else probes l)\<rparr>)"
| remove: "bound l = Suc n \<Longrightarrow>
    pci_step l (l\<lparr>pst := pci_enabler_remove_one (pst l), bound := n\<rparr>)"

inductive pci_reachable :: "pci_life \<Rightarrow> bool" where
  start: "pci_reachable \<lparr>bound = 0, probes = 0, pst = pci_fresh\<rparr>"
| step: "pci_reachable l \<Longrightarrow> pci_step l l' \<Longrightarrow> pci_reachable l'"

inductive_cases pci_stepE: "pci_step l l'"

lemmas pci_defs = pci_enabler_init_one_def pci_enabler_remove_one_def err_out_def
  pci_release_regions_def pci_disable_device_def

definition pci_balanced :: "pci_life \<Rightarrow> bool" where
  "pci_balanced l \<longleftrightarrow> enables (pst l) = int (bound l) \<and> regions (pst l) = int (bound l) \<and>
     2 * probes l \<le> length (mappings (pst l)) \<and> length (mapped_at (pst l)) = length (mappings (pst l)) \<and>
     bound l \<le> probes l"

lemma pci_step_balanced:
  assumes "pci_step l l'" and "pci_balanced l"
  shows "pci_balanced l'"
  using assms
  by (auto elim!: pci_stepE simp: pci_balanced_def pci_defs Let_def split: if_splits)

lemma pci_reachable_balanced: "pci_reachable l \<Longrightarrow> pci_balanced l"
proof (induction rule: pci_reachable.induct)
  case start
  show ?case by (simp add: pci_balanced_def pci_fresh_def)
qed (rule pci_step_balanced)

section \<open>Properties\<close>

text \<open>What a probe does to the resources in each of its five outcomes: with every answer
  positive it holds one enable, one request and two mappings more and returns 0; when a mapping
  fails it gives the enable and the request back but keeps the mapping made before; when the
  request fails it also releases a request it never got, and when the enable fails it disables a
  device it never enabled as well.\<close>

theorem pci_probe_outcomes:
  "pci_enabler_init_one a s =
    (let held = s\<lparr>board_idx := board_idx s + 1, master := True\<rparr> in
     if enable_rc a \<noteq> 0 then (-1, s\<lparr>enables := enables s - 1, regions := regions s - 1\<rparr>)
     else if request_rc a \<noteq> 0 then (-1, s\<lparr>regions := regions s - 1\<rparr>)
     else if ioremap_ptr a = 0 then (-1, held)
     else if ioremap_wc_ptr a = 0 then
       (-1, held\<lparr>mappings := mappings s @ [bar0 a], mapped_at := mapped_at s @ [ioremap_ptr a]\<rparr>)
     else (0, held\<lparr>enables := enables s + 1, regions := regions s + 1, pcidev_set := True,
            mappings := mappings s @ [bar0 a, bar2 a],
            mapped_at := mapped_at s @ [ioremap_ptr a, ioremap_wc_ptr a]\<rparr>))"
  by (simp add: pci_defs Let_def)

text \<open>C29: over every sequence of probes and removals in which the kernel grants each enable and
  each request, the enables and the requests held are those of the devices bound, so removing
  every device gives all of them back; the mappings are never given back and grow by two with
  every successful probe.\<close>

theorem pci_resources_balanced:
  assumes "pci_reachable l"
  shows "enables (pst l) = int (bound l) \<and> regions (pst l) = int (bound l) \<and>
    2 * probes l \<le> length (mappings (pst l))"
  using pci_reachable_balanced [OF assms] by (simp add: pci_balanced_def)

definition sample_answers :: pci_answers where
  "sample_answers = \<lparr>enable_rc = 0, request_rc = 0, bar0 = (0xd0000000, 0x1000), bar2 = (0xd1000000, 0x100000),
     ioremap_ptr = 0xffffc90000000000, ioremap_wc_ptr = 0xffffc90000100000\<rparr>"

text \<open>A device bound and removed again: nothing is held, two mappings are left.\<close>

theorem pci_resources_balanced_witness:
  "\<exists>l. pci_reachable l \<and> bound l = 0 \<and> probes l = 1 \<and> enables (pst l) = 0 \<and> regions (pst l) = 0 \<and>
     length (mappings (pst l)) = 2 \<and> 2 * probes l \<le> length (mappings (pst l))"
proof -
  let ?l0 = "\<lparr>bound = 0, probes = 0, pst = pci_fresh\<rparr>"
  obtain s where s: "pci_enabler_init_one sample_answers pci_fresh = (0, s)"
    and maps: "mappings s = [(0xd0000000, 0x1000), (0xd1000000, 0x100000)]"
    by (simp add: pci_defs Let_def sample_answers_def pci_fresh_def)
  have "pci_step ?l0 (?l0\<lparr>pst := s, bound := 1, probes := 1\<rparr>)"
    using pci_step.probe [of sample_answers ?l0 0 s] s by (simp add: sample_answers_def)
  moreover have "pci_step (?l0\<lparr>pst := s, bound := 1, probes := 1\<rparr>)
      (?l0\<lparr>pst := pci_enabler_remove_one s, bound := 0, probes := 1\<rparr>)"
    using pci_step.remove [of "?l0\<lparr>pst := s, bound := 1, probes := 1\<rparr>" 0] by simp
  ultimately have "pci_reachable (?l0\<lparr>pst := pci_enabler_remove_one s, bound := 0, probes := 1\<rparr>)"
    by (blast intro: pci_reachable.intros)
  with pci_resources_balanced [OF this] maps show ?thesis
    by (intro exI [of _ "?l0\<lparr>pst := pci_enabler_remove_one s, bound := 0, probes := 1\<rparr>"])
      (simp add: pci_defs)
qed

end
