(* ===== verification/Player575.thy ===== *)
theory Player575
  imports Prelude
begin

text \<open>
  The movie player of \<^verbatim>\<open>src/player575\<close>: \<^verbatim>\<open>encode.c\<close> adds one to every byte of a movie and
  \<^verbatim>\<open>player575.s\<close> takes one from every byte before it writes it. A stream is the list of the
  bytes up to the end of the file.
\<close>

section \<open>The two programs\<close>

text \<open>\<^verbatim>\<open>getchar\<close> is an int, \<open>-1\<close> at the end of the file.\<close>

definition EOF :: int where
  "EOF = -1"

definition getchar :: "u8 list \<Rightarrow> int \<times> u8 list" where
  "getchar s = (case s of [] \<Rightarrow> (EOF, []) | b # bs \<Rightarrow> (uint b, bs))"

definition putchar :: "int \<Rightarrow> u8 list \<Rightarrow> u8 list" where
  "putchar c out = out @ [word_of_int c]"

function encode_loop :: "u8 list \<Rightarrow> u8 list \<Rightarrow> u8 list" where
  "encode_loop inp out =
     (let (a, inp') = getchar inp in
      if 0 < a then (let a = a + 1 in encode_loop inp' (putchar a out)) else out)"
  by pat_completeness auto
termination
  by (relation "measure (\<lambda>(inp, _). length inp)") (auto simp: getchar_def EOF_def split: list.splits)

declare encode_loop.simps [simp del]

definition encode :: "u8 list \<Rightarrow> u8 list" where
  "encode inp = encode_loop inp []"

text \<open>
  The player: \<^verbatim>\<open>read\<close> one byte into \<^verbatim>\<open>msg\<close>; at the end of the file \<^verbatim>\<open>eax\<close> is 0 and the
  loop is left, otherwise it is 1, which is also the number of \<^verbatim>\<open>write\<close> and standard output.
\<close>

primrec player :: "u8 list \<Rightarrow> u8 list \<Rightarrow> u8 list" where
  "player [] out = out"
| "player (msg # inp) out = player inp (out @ [msg - 1])"

section \<open>Properties\<close>

lemma encode_loop_map: "encode_loop inp out = out @ map (\<lambda>b. b + 1) (takeWhile (\<lambda>b. b \<noteq> 0) inp)"
proof (induction inp arbitrary: out)
  case Nil
  then show ?case by (subst encode_loop.simps) (simp add: getchar_def EOF_def)
next
  case (Cons b bs)
  have "0 < uint b \<longleftrightarrow> b \<noteq> 0" by (simp add: uint_0_iff order.strict_iff_order)
  moreover have "word_of_int (uint b + 1) = b + 1" by simp
  ultimately show ?case
    using Cons by (subst encode_loop.simps) (simp add: getchar_def putchar_def Let_def)
qed

lemma player_map: "player inp out = out @ map (\<lambda>b. b - 1) inp"
  by (induction inp arbitrary: out) simp_all

text \<open>The player shows exactly the movie that was encoded, up to its first zero byte, where the
  encoder takes the byte for the end of the file; so the round trip is the identity exactly for the
  movies without a zero byte.\<close>

theorem player_shows_encoded:
  "player (encode movie) [] = takeWhile (\<lambda>b. b \<noteq> 0) movie \<and>
   (player (encode movie) [] = movie \<longleftrightarrow> 0 \<notin> set movie)"
proof -
  have "player (encode movie) [] = takeWhile (\<lambda>b. b \<noteq> 0) movie"
    by (simp add: encode_def encode_loop_map player_map comp_def)
  moreover have "takeWhile (\<lambda>b. b \<noteq> 0) movie = movie \<longleftrightarrow> 0 \<notin> set movie"
    by (auto simp: takeWhile_eq_all_conv)
  ultimately show ?thesis by simp
qed

end
