(* ===== verification/Spec2Isabelle.thy ===== *)
theory Spec2Isabelle
  imports Driver_Load Pmem_Calls Editor_Devices Genpipe_System
  Mem_Tests Measure Pci_Enabler Player575
begin

text \<open>
  A verification library for the test programs of this repository: kernel modules that reach
  memory and the network by the back door, the user programs on top of them, and small measuring
  and checksum programs.

  The parts and how they interact.

  The memory tools are two kernel modules and one user program. \<^verbatim>\<open>src/pmem/pmem.c\<close> (physical
  memory) and \<^verbatim>\<open>src/kmem/kmem.c\<close> (kernel memory) each own one page \<^verbatim>\<open>paged_buf\<close>; a read or a
  write looks up the page-table entry of that page (\<^verbatim>\<open>get_pte.c\<close>), redirects it to the page
  wanted, copies and puts the entry back. The memory editor \<^verbatim>\<open>src/memory/memory.c\<close> shows and
  changes a device byte by byte through the system calls.

  The packet driver \<^verbatim>\<open>src/bypass_ipstack/genpipe.c\<close> turns text lines into frames (write), counts
  the packets of a device (its packet handlers and its replacements for functions of the network
  driver), and reports the counts (read), which \<^verbatim>\<open>count.c\<close> prints. Loading it finds the kernel's
  functions in \<^verbatim>\<open>/proc/kallsyms\<close>, patches the calls in the network driver's code and replaces the
  packet handlers; unloading undoes part of that.

  The others stand alone: the frame check sequence (\<^verbatim>\<open>src/crc32\<close>), the Internet checksums
  (\<^verbatim>\<open>src/ip_fast_checksum\<close>, \<^verbatim>\<open>src/ipsum\<close>), the route lookup on host and graphics processor
  (\<^verbatim>\<open>src/cuda_iplookup\<close>), the time-stamp helpers (\<^verbatim>\<open>src/rdtsc\<close> and the copies called \<^verbatim>\<open>rtdsc.h\<close>),
  the memory tests (\<^verbatim>\<open>src/mmap\<close>, \<^verbatim>\<open>src/membench\<close>), the PCI driver (\<^verbatim>\<open>src/pci_enabler_module\<close>)
  and the movie player (\<^verbatim>\<open>src/player575\<close>).
\<close>

section \<open>Which theory models what\<close>

text \<open>
  \<^item> \<open>Prelude\<close>: machine words, error numbers, results of system calls, page masks and offsets
    (\<open>page_simps\<close>), reads and writes of byte ranges (\<open>mem_simps\<close>), counting down words.
  \<^item> \<open>Paging\<close>: \<^verbatim>\<open>get_pte4\<close>, \<^verbatim>\<open>get_pte5\<close>, \<^verbatim>\<open>get_pte\<close>, \<^verbatim>\<open>get_cr34\<close> and \<^verbatim>\<open>get_paging_level\<close> of both
    drivers, for x86-64 and aarch64, the walk of the packet driver, and \<^verbatim>\<open>any_v2p\<close> of
    \<^verbatim>\<open>virt2phys.h\<close>, over the kernel's accessors as the parameter \<open>pgt_api\<close>.
  \<^item> \<open>Page_Walk\<close>: the specification, the walk the processor makes (\<open>hw_walk\<close>). The locale
    \<open>x86_paging\<close> is what the accessors promise; it is interpreted for four and for five levels on
    the accessors of an x86-64 kernel.
  \<^item> \<open>Machine\<close>: physical memory, page-table entries, the cached translations of the processor,
    and loads and stores that go through them.
  \<^item> \<open>Window\<close>: the redirected page: \<open>window\<close> says when the technique works, the lemmas what an
    access through it does.
  \<^item> \<open>Pmem\<close>, \<open>Kmem\<close>: the handlers of the two drivers (read, write, llseek, ioctl, mmap, open,
    release). \<open>Driver_Load\<close>: their initialisation and cleanup, and that loading makes a working
    window.
  \<^item> \<open>Pmem_Calls\<close>: calls of the physical-memory driver that run at the same time, cut into their
    accesses to the shared entry; a schedule is a list of the calls that step.
  \<^item> \<open>Mem_Editor\<close>, \<open>Editor_Keys\<close>, \<open>Editor_Devices\<close>: the editor's screen, its keys and their
    invariant over any device, and the editor on the two drivers. The locales \<open>byte_source\<close> and
    \<open>byte_device\<close> are what the editor needs of a device: the physical-memory driver provides both,
    the kernel-memory driver, where two addresses may share a frame and a write changes both,
    the first only.
  \<^item> \<open>Genpipe_Tx\<close>, \<open>Genpipe_Lines\<close>, \<open>Genpipe_Write\<close>: \<^verbatim>\<open>genpipe_write\<close> with its buffer and its
    parser, its specification on lines of text, and its properties.
  \<^item> \<open>Genpipe_Counters\<close>: \<^verbatim>\<open>genpipe_read\<close> and the program \<^verbatim>\<open>count.c\<close>. \<open>Genpipe_Rx\<close>: the packet
    handlers and the replaced functions of the network driver.
  \<^item> \<open>Genpipe_Symbols\<close>, \<open>Genpipe_Kallsyms\<close>: \<^verbatim>\<open>get_table_entry\<close> and what it finds.
    \<open>Genpipe_Hook\<close>: \<^verbatim>\<open>hook_ixgbe\<close> on machine code.
  \<^item> \<open>Genpipe_Module\<close>: \<^verbatim>\<open>genpipe_init\<close>, \<^verbatim>\<open>genpipe_cleanup\<close>, poll, ioctl, open and release.
    \<open>Genpipe_System\<close>: the whole driver as a step relation over all of these.
  \<^item> \<open>Crc32\<close>, \<open>Ip_Checksum\<close>, \<open>Ip_Lookup\<close>, \<open>Timing\<close>, \<open>Mem_Tests\<close>, \<open>Pci_Enabler\<close>, \<open>Player575\<close>: the
    programs of those names, each with its properties. \<open>Measure\<close>: the mains of the two measuring
    programs with their output, on top of \<open>Timing\<close>, \<open>Ip_Checksum\<close> and \<open>Ip_Lookup\<close>.
\<close>

section \<open>How code becomes a definition\<close>

text \<open>
  A function of the source is a function of the same name that takes the state it uses and
  returns it changed; a struct or the globals of a file are a record. Words keep their width.
  A handler returns \<open>Inl\<close> of an error number or \<open>Inr\<close> of its result. \<open>None\<close> is a crash: a null
  dereference, a page fault in the kernel, an access outside an array, a division by zero, or,
  where a loop can run for ever, a run that never ends. What is not in the repository is an
  argument: the kernel's accessors, allocator and answers, the user's memory (the number of bytes
  that could not be copied), the system clock and the counter, the random numbers, the answer of a
  memory device. Assumptions about it are premises, each shown to hold for a concrete instance by
  the witness behind the theorem.

  Loops are structural or have a termination measure, except three: the loop of \<^verbatim>\<open>load_fib\<close> and
  the two calibration loops, which are partial functions into \<open>option\<close>, and whose termination (or
  not) is a theorem. No fuel is used.
\<close>

section \<open>What the lemmas show\<close>

text \<open>
  \<^item> Memory tools: both walks find the entry the processor uses; a driver's read and write are
    those of physical memory, or of the processor's own view, the entry restored; seeking is a
    round trip for canonical addresses; the editor's screen is an image of the device and its keys
    store exactly the bytes typed. What goes wrong: no invalidation of the cached translation, a
    redirected entry after a failed copy, large pages, unmapped addresses, and calls that run at
    the same time, whose damage is confined to the pages of the calls and which are right when they
    exclude each other.
  \<^item> Packet driver: a write stays in its buffers and sends the frame of each line, however the text
    is cut into writes; frames printed as text come back; the totals count the packets received in
    every order of calls; the windowed search of the symbol table is a search of the whole table;
    patching the code changes the displacements of the calls and nothing else; failed loads,
    unloading, and an invariant of all histories, from which no operation gets stuck.
  \<^item> The others: the printed check sequence is CRC-32, with its residue; the assembly checksum is
    that of RFC 1071, for any length above four words; the route table holds the longest prefix,
    and every order of the threads gives the host's results; the calibrations end; the memory test
    reports exactly the words that share a cell; the resources of the PCI driver are balanced.
\<close>

section \<open>Not modelled\<close>

text \<open>
  \<^item> \<^verbatim>\<open>genpipe0.c\<close> and \<^verbatim>\<open>genpipe1.c\<close> only name an interface and include \<^verbatim>\<open>genpipe.c\<close>;
    \<^verbatim>\<open>src/membench/util.c\<close> is used by no program; the shell scripts and the recorded data hold no
    logic of the programs.
  \<^item> Headers, module declarations, the tables of file operations, messages to the kernel log, the
    code under macros that nothing defines, the timing of the membench loop, and in the route lookup
    the lines about threads that only the OpenMP build prints.
  \<^item> Locks and wait queues of the packet driver: its handlers run one at a time in the step relation.
    A driver's write to a page that holds page tables does not change the walk (\<open>Machine\<close>).
  \<^item> The counter of aarch64 is one instruction; its value is the parameter \<open>tsc\<close>.
\<close>

end
